(* ===== verification/Hs_Prelude.thy ===== *)
theory Hs_Prelude
  imports Main "HOL-Library.Word"
begin

text \<open>
  Shared vocabulary of the development: the machine types of
  \<^verbatim>\<open>include/hotstuff/type.h\<close>, the failures a C++ operation can end in, the
  sequencing of operations that may fail, and the generic lemmas and collections of facts the
  component theories use.

  An operation that may throw returns \<open>error + 'a\<close>: \<open>Inl\<close> is the
  exception (or the undefined access) that ends it, \<open>Inr\<close> its normal result.
\<close>

section \<open>Machine types\<close>

type_synonym u8 = "8 word"
type_synonym u16 = "16 word"
type_synonym u32 = "32 word"
type_synonym u64 = "64 word"
type_synonym bytes = "8 word list"

text \<open>A \<open>salticidae::uint256_t\<close> is a 256-bit value; \<open>ReplicaID\<close> is
  \<open>uint16_t\<close> (type.h, line 72). A \<open>PeerId\<close> is built from a certificate hash
  (\<open>PeerId\<close> of hotstuff.cpp, line 775) and only compared.\<close>

type_synonym uint256 = "256 word"
type_synonym ReplicaID = "16 word"
type_synonym PeerId = "256 word"

section \<open>Failures\<close>

datatype error =
    RuntimeError string      \<comment> \<open>\<open>std::runtime_error\<close>\<close>
  | InvalidArgument string   \<comment> \<open>\<open>std::invalid_argument\<close>\<close>
  | LengthError string       \<comment> \<open>\<open>std::length_error\<close>\<close>
  | HotStuffError string     \<comment> \<open>\<open>hotstuff::HotStuffError\<close>\<close>
  | IosFailure               \<comment> \<open>\<open>std::ios_base::failure\<close> of a read past the end\<close>
  | BadCast                  \<comment> \<open>\<open>std::bad_cast\<close> of a \<open>dynamic_cast\<close> to a reference\<close>
  | AssertFail               \<comment> \<open>a failed \<open>assert\<close> (the build removes -DNDEBUG)\<close>
  | NullDeref                \<comment> \<open>a member access through a null pointer\<close>
  | Uninitialised            \<comment> \<open>a read of an object that was never written\<close>
  | OutOfRange               \<comment> \<open>an index or iterator outside its container\<close>
  | DivByZero                \<comment> \<open>integer division by zero\<close>
  | Diverges                 \<comment> \<open>a loop that does not end\<close>

type_synonym 'a res = "error + 'a"

definition bind :: "'a res \<Rightarrow> ('a \<Rightarrow> 'b res) \<Rightarrow> 'b res" where
  "bind m f = (case m of Inl e \<Rightarrow> Inl e | Inr x \<Rightarrow> f x)"

definition guard :: "bool \<Rightarrow> error \<Rightarrow> unit res" where
  "guard b e = (if b then Inr () else Inl e)"

definition deref :: "'a option \<Rightarrow> 'a res" where
  "deref p = (case p of None \<Rightarrow> Inl NullDeref | Some x \<Rightarrow> Inr x)"

definition initialised :: "'a option \<Rightarrow> 'a res" where
  "initialised p = (case p of None \<Rightarrow> Inl Uninitialised | Some x \<Rightarrow> Inr x)"

definition front :: "'a list \<Rightarrow> 'a res" where
  "front xs = (case xs of [] \<Rightarrow> Inl OutOfRange | x # _ \<Rightarrow> Inr x)"

fun fold_res :: "('a \<Rightarrow> 's \<Rightarrow> 's res) \<Rightarrow> 'a list \<Rightarrow> 's \<Rightarrow> 's res" where
  "fold_res f [] s = Inr s"
| "fold_res f (x # xs) s = bind (f x s) (fold_res f xs)"

text \<open>\<open>struct timeval\<close> as seconds and microseconds; the difference in microseconds, and
  C++ division of \<open>long\<close>, which truncates towards zero.\<close>

type_synonym timeval = "int \<times> int"

definition usec_between :: "timeval \<Rightarrow> timeval \<Rightarrow> int" where
  "usec_between t0 t1 = (fst t1 - fst t0) * 1000000 + snd t1 - snd t0"

definition c_div :: "int \<Rightarrow> int \<Rightarrow> int" where
  "c_div a b = sgn a * sgn b * (\<bar>a\<bar> div \<bar>b\<bar>)"

definition run_loop :: "'a res option \<Rightarrow> 'a res" where
  "run_loop x = (case x of None \<Rightarrow> Inl Diverges | Some r \<Rightarrow> r)"

section \<open>Collections and generic lemmas\<close>

named_theorems res_iff \<open>when a sequenced operation returns normally\<close>
named_theorems inv_intros \<open>preservation of the component invariants\<close>
named_theorems frame_simps \<open>what an operation leaves unchanged\<close>

lemma bind_simps [simp]:
  "bind (Inl e) f = Inl e"
  "bind (Inr x) f = f x"
  by (simp_all add: bind_def)

lemma bind_Inr_iff [res_iff]: "bind m f = Inr y \<longleftrightarrow> (\<exists>x. m = Inr x \<and> f x = Inr y)"
  by (cases m) auto

lemma bind_Inl_iff: "bind m f = Inl e \<longleftrightarrow> m = Inl e \<or> (\<exists>x. m = Inr x \<and> f x = Inl e)"
  by (cases m) auto

lemma bind_assoc: "bind (bind m f) g = bind m (\<lambda>x. bind (f x) g)"
  by (cases m) auto

lemma bind_cong [fundef_cong]:
  "m = m' \<Longrightarrow> (\<And>x. m' = Inr x \<Longrightarrow> f x = f' x) \<Longrightarrow> bind m f = bind m' f'"
  by (cases m') auto

lemma guard_simps [simp]:
  "guard True e = Inr ()"
  "guard False e = Inl e"
  by (simp_all add: guard_def)

lemma guard_Inr_iff [res_iff]: "guard b e = Inr u \<longleftrightarrow> b"
  by (cases b) auto

lemma deref_simps [simp]:
  "deref None = Inl NullDeref"
  "deref (Some x) = Inr x"
  by (simp_all add: deref_def)

lemma deref_Inr_iff [res_iff]: "deref p = Inr x \<longleftrightarrow> p = Some x"
  by (cases p) auto

lemma initialised_simps [simp]:
  "initialised None = Inl Uninitialised"
  "initialised (Some x) = Inr x"
  by (simp_all add: initialised_def)

lemma initialised_Inr_iff [res_iff]: "initialised p = Inr x \<longleftrightarrow> p = Some x"
  by (cases p) auto

lemma run_loop_simps [simp]:
  "run_loop None = Inl Diverges"
  "run_loop (Some r) = r"
  by (simp_all add: run_loop_def)

lemma front_simps [simp]:
  "front [] = Inl OutOfRange"
  "front (x # xs) = Inr x"
  by (simp_all add: front_def)

lemma front_Inr_iff [res_iff]: "front xs = Inr x \<longleftrightarrow> (\<exists>ys. xs = x # ys)"
  by (cases xs) auto

text \<open>A property kept by every call of a loop body is kept by the loop.\<close>

lemma fold_res_inv:
  assumes "fold_res f xs s = Inr s'" and "P s"
    and "\<And>x s s'. x \<in> set xs \<Longrightarrow> P s \<Longrightarrow> f x s = Inr s' \<Longrightarrow> P s'"
  shows "P s'"
  using assms
proof (induction xs arbitrary: s)
  case Nil
  then show ?case by simp
next
  case (Cons x xs)
  then obtain s1 where s1: "f x s = Inr s1" "fold_res f xs s1 = Inr s'"
    by (auto simp: res_iff)
  with Cons.prems have "P s1" by auto
  with s1(2) show ?case
    using Cons.prems(3) by (intro Cons.IH [of s1]) auto
qed

lemma fold_res_append:
  "fold_res f (xs @ ys) s = bind (fold_res f xs s) (fold_res f ys)"
  by (induction xs arbitrary: s) (auto simp: bind_assoc intro: bind_cong)

lemma unat_ucast_u64 [simp]: "unat (ucast (n :: u32) :: u64) = unat n"
proof -
  have "unat n < 2 ^ 64" using unsigned_less [of n, where 'a = nat] by simp
  then show ?thesis by (simp add: unsigned_ucast_eq take_bit_nat_eq_self)
qed

lemma word_less_Suc:
  fixes h :: u32
  assumes "h \<noteq> -1"
  shows "h < h + 1"
proof -
  have "h < -1" using assms by (simp add: order.strict_iff_order)
  then have "unat h + 1 < 2 ^ 32" by (simp add: word_less_nat_alt unsigned_minus_1_eq_mask mask_eq_exp_minus_1)
  then have "unat (h + 1) = unat h + 1" by (simp add: unat_word_ariths)
  then show ?thesis by (simp add: word_less_nat_alt unsigned_minus_1_eq_mask mask_eq_exp_minus_1)
qed

lemma unat_plus_1_less:
  fixes h :: u32
  assumes "h < h + 1"
  shows "unat (h + 1) = Suc (unat h)"
proof -
  have "h + 1 \<noteq> 0" using assms by auto
  then show ?thesis by (metis Suc_eq_plus1 add.commute unatSuc)
qed

end
