(* ===== verification/Hs_Config.thy ===== *)
theory Hs_Config
  imports Hs_Prelude
begin

text \<open>
  The code the program relies on and does not contain, as one record of functions, and the
  replica configuration of \<^verbatim>\<open>include/hotstuff/entity.h\<close>
  (\<open>ReplicaInfo\<close>, \<open>ReplicaConfig\<close>).

  \<open>env\<close> gathers the operations of the \<open>salticidae\<close> and \<open>secp256k1\<close>
  submodules (bit vectors, \<open>DataStream\<close> reads and writes, SHA-256) and the signature
  scheme the replica is instantiated with. Every definition that calls one of them takes the
  record as an argument; what a proof needs of it is a named predicate (\<open>bits_laws\<close>,
  \<open>stream_laws\<close>, \<open>sig_codec_laws\<close>) that states documented behaviour.
  The type parameters are private keys, public keys, signatures and bit vectors.
\<close>

section \<open>Third-party operations\<close>

record ('p, 'k, 's, 'b) env =
  bits_new :: "nat \<Rightarrow> 'b"                        \<comment> \<open>\<open>Bits(n)\<close> followed by \<open>clear()\<close>\<close>
  bits_size :: "'b \<Rightarrow> nat"
  bits_get :: "'b \<Rightarrow> nat \<Rightarrow> bool"
  bits_set :: "'b \<Rightarrow> nat \<Rightarrow> 'b"
  u256_default :: uint256                       \<comment> \<open>a default-constructed \<open>uint256_t\<close>\<close>
  put_int :: "nat \<Rightarrow> nat \<Rightarrow> bytes"               \<comment> \<open>\<open>operator<<\<close> on an integral of that many bytes\<close>
  get_int :: "nat \<Rightarrow> bytes \<Rightarrow> (nat \<times> bytes) option"
  put_u256 :: "uint256 \<Rightarrow> bytes"
  get_u256 :: "bytes \<Rightarrow> (uint256 \<times> bytes) option"
  put_data :: "bytes \<Rightarrow> bytes"
  get_data :: "nat \<Rightarrow> bytes \<Rightarrow> (bytes \<times> bytes) option"   \<comment> \<open>\<open>get_data_inplace(n)\<close>, \<open>None\<close> past the end\<close>
  put_bits :: "'b \<Rightarrow> bytes"
  get_bits :: "bytes \<Rightarrow> ('b \<times> bytes) option"
  htole32 :: "u32 \<Rightarrow> u32"
  letoh32 :: "u32 \<Rightarrow> u32"
  sha256 :: "bytes \<Rightarrow> uint256"                   \<comment> \<open>\<open>salticidae::get_hash\<close> of a stream\<close>
  sig_sign :: "'p \<Rightarrow> uint256 \<Rightarrow> 's"
  sig_verify :: "'k \<Rightarrow> uint256 \<Rightarrow> 's \<Rightarrow> bool"
  sig_aggregate :: "'s list \<Rightarrow> 's"
  sig_fast_verify :: "'k list \<Rightarrow> uint256 \<Rightarrow> 's \<Rightarrow> bool"
  sig_size :: nat                               \<comment> \<open>bytes of a serialized signature\<close>
  sig_ser :: "'s \<Rightarrow> bytes"
  sig_des :: "bytes \<Rightarrow> 's res"

definition bits_laws :: "('p, 'k, 's, 'b) env \<Rightarrow> bool" where
  "bits_laws E \<longleftrightarrow>
     (\<forall>n. bits_size E (bits_new E n) = n) \<and>
     (\<forall>n i. i < n \<longrightarrow> \<not> bits_get E (bits_new E n) i) \<and>
     (\<forall>b i. bits_size E (bits_set E b i) = bits_size E b) \<and>
     (\<forall>b i j. i < bits_size E b \<longrightarrow> j < bits_size E b \<longrightarrow>
        bits_get E (bits_set E b i) j = (j = i \<or> bits_get E b j))"

definition stream_laws :: "('p, 'k, 's, 'b) env \<Rightarrow> bool" where
  "stream_laws E \<longleftrightarrow>
     (\<forall>k v s. v < 256 ^ k \<longrightarrow> get_int E k (put_int E k v @ s) = Some (v, s)) \<and>
     (\<forall>h s. get_u256 E (put_u256 E h @ s) = Some (h, s)) \<and>
     (\<forall>b s. get_bits E (put_bits E b @ s) = Some (b, s)) \<and>
     (\<forall>d s. get_data E (length d) (put_data E d @ s) = Some (d, s)) \<and>
     put_data E [] = [] \<and>
     (\<forall>x. letoh32 E (htole32 E x) = x)"

definition sig_codec_laws :: "('p, 'k, 's, 'b) env \<Rightarrow> bool" where
  "sig_codec_laws E \<longleftrightarrow>
     (\<forall>x. length (sig_ser E x) = sig_size E) \<and> (\<forall>x. sig_des E (sig_ser E x) = Inr x)"

lemma bits_new_simps [simp]:
  "bits_laws E \<Longrightarrow> bits_size E (bits_new E n) = n"
  "bits_laws E \<Longrightarrow> i < n \<Longrightarrow> \<not> bits_get E (bits_new E n) i"
  unfolding bits_laws_def by blast+

lemma bits_set_simps [simp]:
  "bits_laws E \<Longrightarrow> bits_size E (bits_set E b i) = bits_size E b"
  "bits_laws E \<Longrightarrow> i < bits_size E b \<Longrightarrow> j < bits_size E b \<Longrightarrow>
     bits_get E (bits_set E b i) j = (j = i \<or> bits_get E b j)"
  unfolding bits_laws_def by blast+

lemma stream_simps:
  "stream_laws E \<Longrightarrow> v < 256 ^ k \<Longrightarrow> get_int E k (put_int E k v @ s) = Some (v, s)"
  "stream_laws E \<Longrightarrow> get_u256 E (put_u256 E h @ s) = Some (h, s)"
  "stream_laws E \<Longrightarrow> get_bits E (put_bits E b @ s) = Some (b, s)"
  "stream_laws E \<Longrightarrow> get_data E (length d) (put_data E d @ s) = Some (d, s)"
  "stream_laws E \<Longrightarrow> letoh32 E (htole32 E x) = x"
  "stream_laws E \<Longrightarrow> put_data E [] = []"
  unfolding stream_laws_def by blast+

lemma sig_codec_simps:
  "sig_codec_laws E \<Longrightarrow> length (sig_ser E x) = sig_size E"
  "sig_codec_laws E \<Longrightarrow> sig_des E (sig_ser E x) = Inr x"
  unfolding sig_codec_laws_def by blast+

section \<open>std::unordered_map\<close>

text \<open>
  A map of which the code takes the size or walks the entries is an association list.
  \<open>insert\<close> leaves an existing entry alone; an assignment through \<open>operator[]\<close>
  (\<open>umap_put\<close>) overwrites it.
\<close>

definition umap_insert :: "'a \<Rightarrow> 'v \<Rightarrow> ('a \<times> 'v) list \<Rightarrow> ('a \<times> 'v) list" where
  "umap_insert k v m = (case map_of m k of None \<Rightarrow> m @ [(k, v)] | Some _ \<Rightarrow> m)"

definition umap_put :: "'a \<Rightarrow> 'v \<Rightarrow> ('a \<times> 'v) list \<Rightarrow> ('a \<times> 'v) list" where
  "umap_put k v m =
     (case map_of m k of None \<Rightarrow> m @ [(k, v)]
      | Some _ \<Rightarrow> map (\<lambda>p. if fst p = k then (k, v) else p) m)"

definition umap_erase :: "'a \<Rightarrow> ('a \<times> 'v) list \<Rightarrow> ('a \<times> 'v) list" where
  "umap_erase k m = filter (\<lambda>p. fst p \<noteq> k) m"

abbreviation umap_ok :: "('a \<times> 'v) list \<Rightarrow> bool" where
  "umap_ok m \<equiv> distinct (map fst m)"

lemma map_of_umap_insert [simp]:
  "map_of (umap_insert k v m) x =
     (if x = k \<and> map_of m k = None then Some v else map_of m x)"
  by (auto simp: umap_insert_def map_add_def split: option.splits)

definition umap_keys :: "('a \<times> 'v) list \<Rightarrow> 'a set" where
  "umap_keys m = set (map fst m)"

lemma umap_keys_Nil [simp]: "umap_keys [] = {}"
  by (simp add: umap_keys_def)

lemma umap_keys_Cons [simp]: "umap_keys ((k, v) # m) = insert k (umap_keys m)"
  by (simp add: umap_keys_def)

lemma map_of_None_keys: "map_of m k = None \<longleftrightarrow> k \<notin> umap_keys m"
  by (simp add: umap_keys_def map_of_eq_None_iff)

lemma umap_keys_insert [simp]: "umap_keys (umap_insert k v m) = insert k (umap_keys m)"
proof (cases "map_of m k")
  case None
  then show ?thesis by (simp add: umap_insert_def umap_keys_def)
next
  case (Some w)
  then have "k \<in> umap_keys m" by (metis map_of_None_keys option.distinct(1))
  with Some show ?thesis by (auto simp: umap_insert_def)
qed

lemma umap_ok_insert [simp]: "umap_ok m \<Longrightarrow> umap_ok (umap_insert k v m)"
  by (auto simp: umap_insert_def map_of_eq_None_iff split: option.splits)

lemma umap_ok_erase [simp]: "umap_ok m \<Longrightarrow> umap_ok (umap_erase k m)"
  by (simp add: umap_erase_def distinct_map_filter)

lemma map_of_umap_erase [simp]:
  "map_of (umap_erase k m) x = (if x = k then None else map_of m x)"
  by (induction m) (auto simp: umap_erase_def)

lemma umap_size: "umap_ok m \<Longrightarrow> length m = card (umap_keys m)"
  by (metis distinct_card length_map umap_keys_def)

section \<open>Replica configuration\<close>

record 'k ReplicaInfo =
  ri_id :: ReplicaID
  ri_peer_id :: PeerId
  ri_pubkey :: 'k

record 'k ReplicaConfig =
  replica_map :: "(ReplicaID \<times> 'k ReplicaInfo) list"
  nreplicas :: u64
  nmajority :: u64
  fanout :: "32 word"
  piped_latency :: "32 word"
  async_blocks :: "32 word"

text \<open>The constructor sets the two counters; the other numbers are set before use by
  \<open>set_fanout\<close> and \<open>set_piped_latency\<close>, and are 0 here.\<close>

definition ReplicaConfig_new :: "'k ReplicaConfig" where
  "ReplicaConfig_new = \<lparr>replica_map = [], nreplicas = 0, nmajority = 0,
     fanout = 0, piped_latency = 0, async_blocks = 0\<rparr>"

definition add_replica_cfg :: "ReplicaID \<Rightarrow> 'k ReplicaInfo \<Rightarrow> 'k ReplicaConfig \<Rightarrow> 'k ReplicaConfig" where
  "add_replica_cfg rid info c =
     c\<lparr>replica_map := umap_insert rid info (replica_map c), nreplicas := nreplicas c + 1\<rparr>"

definition get_info :: "'k ReplicaConfig \<Rightarrow> ReplicaID \<Rightarrow> 'k ReplicaInfo res" where
  "get_info c rid =
     (case map_of (replica_map c) rid of
        None \<Rightarrow> Inl (HotStuffError ''rid not found'')
      | Some info \<Rightarrow> Inr info)"

definition get_pubkey :: "'k ReplicaConfig \<Rightarrow> ReplicaID \<Rightarrow> 'k res" where
  "get_pubkey c rid = bind (get_info c rid) (\<lambda>i. Inr (ri_pubkey i))"

definition get_peer_id :: "'k ReplicaConfig \<Rightarrow> ReplicaID \<Rightarrow> PeerId res" where
  "get_peer_id c rid = bind (get_info c rid) (\<lambda>i. Inr (ri_peer_id i))"

lemma get_info_Inr_iff [res_iff]:
  "get_info c rid = Inr i \<longleftrightarrow> map_of (replica_map c) rid = Some i"
  by (simp add: get_info_def split: option.splits)

lemma get_pubkey_add_replica:
  "get_pubkey (add_replica_cfg rid info c) r =
     (if r = rid \<and> map_of (replica_map c) rid = None then Inr (ri_pubkey info)
      else get_pubkey c r)"
  by (simp add: get_pubkey_def get_info_def add_replica_cfg_def)

end
