(* ===== verification/Hs_Crypto.thy ===== *)
theory Hs_Crypto
  imports Hs_Config
begin

unbundle bit_operations_syntax

text \<open>
  Partial certificates (\<^verbatim>\<open>include/hotstuff/crypto.h\<close>): what a vote
  carries, its signature and its serialized form; and the interface every quorum certificate
  implements.

  The interface of \<open>QuorumCert\<close> is the locale \<open>quorum_cert\<close>; a certificate that
  counts distinct signers satisfies \<open>counting_cert\<close>, and one whose \<open>clone\<close> keeps
  the count satisfies \<open>cloning_cert\<close>.
\<close>

section \<open>Streams\<close>

text \<open>\<open>s >> x\<close>, as a step that returns the value and the rest of the stream.\<close>

definition rd :: "('a \<times> bytes) option \<Rightarrow> ('a \<times> bytes) res" where
  "rd r = (case r of None \<Rightarrow> Inl IosFailure | Some p \<Rightarrow> Inr p)"

lemma rd_simps [simp]: "rd None = Inl IosFailure" "rd (Some p) = Inr p"
  by (simp_all add: rd_def)

definition put_bool :: "('p, 'k, 's, 'b) env \<Rightarrow> bool \<Rightarrow> bytes" where
  "put_bool E b = put_int E 1 (if b then 1 else 0)"

definition get_bool :: "('p, 'k, 's, 'b) env \<Rightarrow> bytes \<Rightarrow> (bool \<times> bytes) res" where
  "get_bool E s = bind (rd (get_int E 1 s)) (\<lambda>(v, s'). Inr (v \<noteq> 0, s'))"

lemma get_put_bool: "stream_laws E \<Longrightarrow> get_bool E (put_bool E b @ s) = Inr (b, s)"
  by (cases b) (simp_all add: get_bool_def put_bool_def stream_simps)

text \<open>\<open>SigSecp256k1::unserialize\<close>, \<open>SigSecBLS::unserialize\<close> and
  \<open>SigSecBLSAgg::unserialize\<close>: a short stream is an ill-formed signature, and the
  parser of the scheme may refuse the bytes.\<close>

definition sig_serialize :: "('p, 'k, 's, 'b) env \<Rightarrow> 's \<Rightarrow> bytes" where
  "sig_serialize E x = put_data E (sig_ser E x)"

definition sig_unserialize :: "('p, 'k, 's, 'b) env \<Rightarrow> bytes \<Rightarrow> ('s \<times> bytes) res" where
  "sig_unserialize E s =
     (case get_data E (sig_size E) s of
        None \<Rightarrow> Inl (InvalidArgument ''ill-formed signature'')
      | Some (d, s') \<Rightarrow> bind (sig_des E d) (\<lambda>x. Inr (x, s')))"

lemma sig_unserialize_serialize:
  assumes "stream_laws E" "sig_codec_laws E"
  shows "sig_unserialize E (sig_serialize E x @ s) = Inr (x, s)"
proof -
  have "get_data E (sig_size E) (put_data E (sig_ser E x) @ s) = Some (sig_ser E x, s)"
    using stream_simps(4) [OF assms(1), of "sig_ser E x" s] sig_codec_simps(1) [OF assms(2)]
    by simp
  then show ?thesis
    using sig_codec_simps(2) [OF assms(2)] by (simp add: sig_unserialize_def sig_serialize_def)
qed

section \<open>Partial certificates\<close>

datatype 's part_cert =
    PartCertDummy uint256
  | PartCertSecp256k1 uint256 's
  | PartCertBLS uint256 's
  | PartCertBLSAgg uint256 's

fun pc_obj_hash :: "'s part_cert \<Rightarrow> uint256" where
  "pc_obj_hash (PartCertDummy h) = h"
| "pc_obj_hash (PartCertSecp256k1 h x) = h"
| "pc_obj_hash (PartCertBLS h x) = h"
| "pc_obj_hash (PartCertBLSAgg h x) = h"

fun pc_verify :: "('p, 'k, 's, 'b) env \<Rightarrow> 'k \<Rightarrow> 's part_cert \<Rightarrow> bool" where
  "pc_verify E pk (PartCertDummy h) = True"
| "pc_verify E pk (PartCertSecp256k1 h x) = sig_verify E pk h x"
| "pc_verify E pk (PartCertBLS h x) = sig_verify E pk h x"
| "pc_verify E pk (PartCertBLSAgg h x) = sig_verify E pk h x"

fun pc_serialize :: "('p, 'k, 's, 'b) env \<Rightarrow> 's part_cert \<Rightarrow> bytes" where
  "pc_serialize E (PartCertDummy h) = put_u256 E h"
| "pc_serialize E (PartCertSecp256k1 h x) = put_u256 E h @ sig_serialize E x"
| "pc_serialize E (PartCertBLS h x) = put_u256 E h @ sig_serialize E x"
| "pc_serialize E (PartCertBLSAgg h x) = put_u256 E h @ sig_serialize E x"

text \<open>The template arguments of \<open>HotStuff<...>\<close> choose the certificate classes.\<close>

datatype scheme = NoSig | Secp256k1 | AggBLS

fun create_part_cert :: "('p, 'k, 's, 'b) env \<Rightarrow> scheme \<Rightarrow> 'p \<Rightarrow> uint256 \<Rightarrow> 's part_cert" where
  "create_part_cert E NoSig sk h = PartCertDummy h"
| "create_part_cert E Secp256k1 sk h = PartCertSecp256k1 h (sig_sign E sk h)"
| "create_part_cert E AggBLS sk h = PartCertBLSAgg h (sig_sign E sk h)"

definition parse_part_cert :: "('p, 'k, 's, 'b) env \<Rightarrow> scheme \<Rightarrow> bytes \<Rightarrow> ('s part_cert \<times> bytes) res" where
  "parse_part_cert E sch s =
     bind (rd (get_u256 E s)) (\<lambda>(h, s1).
       case sch of
         NoSig \<Rightarrow> Inr (PartCertDummy h, s1)
       | Secp256k1 \<Rightarrow> bind (sig_unserialize E s1) (\<lambda>(x, s2). Inr (PartCertSecp256k1 h x, s2))
       | AggBLS \<Rightarrow> bind (sig_unserialize E s1) (\<lambda>(x, s2). Inr (PartCertBLSAgg h x, s2)))"

fun pc_scheme :: "'s part_cert \<Rightarrow> scheme option" where
  "pc_scheme (PartCertDummy h) = Some NoSig"
| "pc_scheme (PartCertSecp256k1 h x) = Some Secp256k1"
| "pc_scheme (PartCertBLS h x) = None"
| "pc_scheme (PartCertBLSAgg h x) = Some AggBLS"

lemma create_part_cert_simps [simp]:
  "pc_obj_hash (create_part_cert E sch sk h) = h"
  "pc_scheme (create_part_cert E sch sk h) = Some sch"
  by (cases sch; simp)+

lemma parse_serialize_part_cert:
  assumes "stream_laws E" "sig_codec_laws E" "pc_scheme pc = Some sch"
  shows "parse_part_cert E sch (pc_serialize E pc @ s) = Inr (pc, s)"
  using assms
  by (cases pc) (auto simp: parse_part_cert_def stream_simps sig_unserialize_serialize)


section \<open>The interface of a quorum certificate\<close>

locale quorum_cert =
  fixes add_part :: "'k ReplicaConfig \<Rightarrow> ReplicaID \<Rightarrow> 's part_cert \<Rightarrow> 'c \<Rightarrow> 'c res"
    and merge_quorum :: "'c \<Rightarrow> 'c \<Rightarrow> 'c res"
    and has_n :: "u32 \<Rightarrow> 'c \<Rightarrow> bool"
    and compute :: "'c \<Rightarrow> 'c"
    and clone :: "'c \<Rightarrow> 'c"
    and obj_hash :: "'c \<Rightarrow> uint256"
  assumes add_part_hash: "add_part cfg rid pc c = Inr c' \<Longrightarrow> obj_hash c' = obj_hash c"
    and merge_hash: "merge_quorum d c = Inr c' \<Longrightarrow> obj_hash c' = obj_hash c"
    and compute_hash: "obj_hash (compute c) = obj_hash c"
    and clone_hash: "obj_hash (clone c) = obj_hash c"
    and has_n_le: "m \<le> n \<Longrightarrow> has_n n c \<Longrightarrow> has_n m c"
begin

lemma add_parts_hash:
  "fold_res (\<lambda>(rid, pc). add_part cfg rid pc) votes c = Inr c' \<Longrightarrow> obj_hash c' = obj_hash c"
  by (erule fold_res_inv [where P = "\<lambda>d. obj_hash d = obj_hash c"])
     (auto dest: add_part_hash)

lemma merges_hash: "fold_res merge_quorum ds c = Inr c' \<Longrightarrow> obj_hash c' = obj_hash c"
  by (erule fold_res_inv [where P = "\<lambda>d. obj_hash d = obj_hash c"]) (auto dest: merge_hash)

end

text \<open>
  A certificate that counts signers: \<open>signers\<close> is the set of replicas it records,
  \<open>cap\<close> the number of replicas it has room for.
\<close>

locale counting_cert = quorum_cert add_part merge_quorum has_n compute clone obj_hash
  for add_part :: "'k ReplicaConfig \<Rightarrow> ReplicaID \<Rightarrow> 's part_cert \<Rightarrow> 'c \<Rightarrow> 'c res"
    and merge_quorum :: "'c \<Rightarrow> 'c \<Rightarrow> 'c res"
    and has_n :: "u32 \<Rightarrow> 'c \<Rightarrow> bool"
    and compute :: "'c \<Rightarrow> 'c"
    and clone :: "'c \<Rightarrow> 'c"
    and obj_hash :: "'c \<Rightarrow> uint256" +
  fixes invar :: "'c \<Rightarrow> bool"
    and cap :: "'c \<Rightarrow> nat"
    and signers :: "'c \<Rightarrow> ReplicaID set"
  assumes has_n_signers: "invar c \<Longrightarrow> has_n n c \<longleftrightarrow> unat n \<le> card (signers c)"
    and add_part_invar:
      "invar c \<Longrightarrow> unat rid < cap c \<Longrightarrow> add_part cfg rid pc c = Inr c' \<Longrightarrow>
         invar c' \<and> cap c' = cap c \<and> signers c' = insert rid (signers c)"
    and merge_invar:
      "invar c \<Longrightarrow> invar d \<Longrightarrow> cap d = cap c \<Longrightarrow> merge_quorum d c = Inr c' \<Longrightarrow>
         invar c' \<and> cap c' = cap c \<and> signers c' = signers c \<union> signers d"
    and compute_invar:
      "invar c \<Longrightarrow> invar (compute c) \<and> cap (compute c) = cap c \<and> signers (compute c) = signers c"
begin

text \<open>Votes are counted by distinct voter, in whatever order they come.\<close>

lemma add_parts_signers:
  assumes "fold_res (\<lambda>(rid, pc). add_part cfg rid pc) votes c = Inr c'" and "invar c"
    and "\<forall>rid \<in> fst ` set votes. unat rid < cap c"
  shows "invar c' \<and> cap c' = cap c \<and> signers c' = signers c \<union> fst ` set votes"
  using assms
proof (induction votes arbitrary: c)
  case Nil
  then show ?case by simp
next
  case (Cons v votes)
  obtain rid pc where v: "v = (rid, pc)" by force
  with Cons.prems obtain c1 where c1: "add_part cfg rid pc c = Inr c1"
    and rest: "fold_res (\<lambda>(rid, pc). add_part cfg rid pc) votes c1 = Inr c'"
    by (auto simp: res_iff)
  have i1: "invar c1" "cap c1 = cap c" "signers c1 = insert rid (signers c)"
    using add_part_invar [OF Cons.prems(2) _ c1] Cons.prems(3) v by auto
  have "invar c' \<and> cap c' = cap c1 \<and> signers c' = signers c1 \<union> fst ` set votes"
    using Cons.prems(3) i1(1,2) by (intro Cons.IH [OF rest]) auto
  with i1 v show ?case by auto
qed

lemma add_parts_has_n:
  assumes "fold_res (\<lambda>(rid, pc). add_part cfg rid pc) votes c = Inr c'" and "invar c"
    and "\<forall>rid \<in> fst ` set votes. unat rid < cap c"
  shows "has_n n c' \<longleftrightarrow> unat n \<le> card (signers c \<union> fst ` set votes)"
  using add_parts_signers [OF assms] has_n_signers by simp

text \<open>No operation that extends a certificate loses a quorum.\<close>

lemma merge_has_n_mono:
  assumes "invar c" "invar d" "cap d = cap c" "merge_quorum d c = Inr c'" "has_n n c"
  shows "has_n n c'"
proof -
  have "invar c'" "signers c' = signers c \<union> signers d"
    using merge_invar [OF assms(1-4)] by auto
  moreover have "card (signers c) \<le> card (signers c \<union> signers d)"
    by (rule card_mono) auto
  ultimately show ?thesis using assms(1,5) has_n_signers by auto
qed

end

text \<open>A certificate whose copies keep its count.\<close>

locale cloning_cert = quorum_cert add_part merge_quorum has_n compute clone obj_hash
  for add_part :: "'k ReplicaConfig \<Rightarrow> ReplicaID \<Rightarrow> 's part_cert \<Rightarrow> 'c \<Rightarrow> 'c res"
    and merge_quorum :: "'c \<Rightarrow> 'c \<Rightarrow> 'c res"
    and has_n :: "u32 \<Rightarrow> 'c \<Rightarrow> bool"
    and compute :: "'c \<Rightarrow> 'c"
    and clone :: "'c \<Rightarrow> 'c"
    and obj_hash :: "'c \<Rightarrow> uint256" +
  assumes clone_has_n: "has_n n (clone c) = has_n n c"
begin

lemma clone_quorum: "has_n n c \<Longrightarrow> has_n n (clone c) \<and> obj_hash (clone c) = obj_hash c"
  by (simp add: clone_has_n clone_hash)

end

end
