(* ===== verification/Hs_Certs.thy ===== *)
theory Hs_Certs
  imports Hs_Crypto
begin

text \<open>
  The quorum certificates of \<^verbatim>\<open>include/hotstuff/crypto.h\<close> and
  \<^verbatim>\<open>src/crypto.cpp\<close>: \<open>QuorumCertDummy\<close> counts calls,
  \<open>QuorumCertSecp256k1\<close> keeps one signature per replica, \<open>QuorumCertAggBLS\<close>
  keeps a bit per replica and signatures that \<open>compute\<close> aggregates. The last section
  is the virtual dispatch of the base class \<open>QuorumCert\<close>.
\<close>

section \<open>QuorumCertDummy\<close>

record QuorumCertDummy =
  dum_obj_hash :: uint256
  dum_qty :: u64

definition dummy_default :: "('p, 'k, 's, 'b) env \<Rightarrow> QuorumCertDummy" where
  "dummy_default E = \<lparr>dum_obj_hash = u256_default E, dum_qty = 1\<rparr>"

definition dummy_new :: "uint256 \<Rightarrow> QuorumCertDummy" where
  "dummy_new h = \<lparr>dum_obj_hash = h, dum_qty = 1\<rparr>"

definition dummy_clone :: "QuorumCertDummy \<Rightarrow> QuorumCertDummy" where
  "dummy_clone c = \<lparr>dum_obj_hash = dum_obj_hash c, dum_qty = dum_qty c\<rparr>"

definition dummy_add_part ::
  "'k ReplicaConfig \<Rightarrow> ReplicaID \<Rightarrow> 's part_cert \<Rightarrow> QuorumCertDummy \<Rightarrow> QuorumCertDummy res" where
  "dummy_add_part cfg rid pc c = Inr (c\<lparr>dum_qty := dum_qty c + 1\<rparr>)"

definition dummy_merge_quorum :: "QuorumCertDummy \<Rightarrow> QuorumCertDummy \<Rightarrow> QuorumCertDummy res" where
  "dummy_merge_quorum d c = Inr (c\<lparr>dum_qty := dum_qty c + dum_qty d\<rparr>)"

definition dummy_has_n :: "u32 \<Rightarrow> QuorumCertDummy \<Rightarrow> bool" where
  "dummy_has_n n c \<longleftrightarrow> ucast n \<le> dum_qty c"

definition dummy_serialize :: "('p, 'k, 's, 'b) env \<Rightarrow> QuorumCertDummy \<Rightarrow> bytes" where
  "dummy_serialize E c = put_int E 4 1 @ put_u256 E (dum_obj_hash c) @ put_int E 8 (unat (dum_qty c))"

definition dummy_unserialize :: "('p, 'k, 's, 'b) env \<Rightarrow> bytes \<Rightarrow> (QuorumCertDummy \<times> bytes) res" where
  "dummy_unserialize E s =
     bind (rd (get_int E 4 s)) (\<lambda>(tmp, s1).
     bind (rd (get_u256 E s1)) (\<lambda>(h, s2).
     bind (rd (get_int E 8 s2)) (\<lambda>(q, s3).
       Inr (\<lparr>dum_obj_hash = h, dum_qty = of_nat q\<rparr>, s3))))"

lemma u32_u64_le: "(m::u32) \<le> n \<Longrightarrow> (ucast m :: u64) \<le> ucast n"
  by (simp add: word_le_nat_alt)

interpretation dummy: quorum_cert
  "dummy_add_part :: 'k ReplicaConfig \<Rightarrow> ReplicaID \<Rightarrow> 's part_cert \<Rightarrow> QuorumCertDummy \<Rightarrow> QuorumCertDummy res"
  dummy_merge_quorum dummy_has_n "\<lambda>c. c" dummy_clone dum_obj_hash
  by unfold_locales
     (auto simp: dummy_add_part_def dummy_merge_quorum_def dummy_clone_def dummy_has_n_def
           dest: u32_u64_le)

interpretation dummy: cloning_cert
  "dummy_add_part :: 'k ReplicaConfig \<Rightarrow> ReplicaID \<Rightarrow> 's part_cert \<Rightarrow> QuorumCertDummy \<Rightarrow> QuorumCertDummy res"
  dummy_merge_quorum dummy_has_n "\<lambda>c. c" dummy_clone dum_obj_hash
  by unfold_locales (simp add: dummy_clone_def dummy_has_n_def)

lemma dummy_roundtrip:
  assumes "stream_laws E"
  shows "dummy_unserialize E (dummy_serialize E c @ s) = Inr (c, s)"
proof -
  have "unat (dum_qty c) < 256 ^ 8" using unsigned_less [of "dum_qty c", where 'a = nat] by simp
  then show ?thesis
    using assms by (simp add: dummy_unserialize_def dummy_serialize_def stream_simps)
qed

section \<open>QuorumCertSecp256k1\<close>

record ('s, 'b) QuorumCertSecp =
  secp_obj_hash :: uint256
  secp_rids :: 'b
  secp_sigs :: "(ReplicaID \<times> 's) list"

definition secp_new :: "('p, 'k, 's, 'b) env \<Rightarrow> 'k ReplicaConfig \<Rightarrow> uint256 \<Rightarrow> ('s, 'b) QuorumCertSecp" where
  "secp_new E cfg h = \<lparr>secp_obj_hash = h, secp_rids = bits_new E (unat (nreplicas cfg)), secp_sigs = []\<rparr>"

definition secp_add_part ::
  "('p, 'k, 's, 'b) env \<Rightarrow> 'k ReplicaConfig \<Rightarrow> ReplicaID \<Rightarrow> 's part_cert \<Rightarrow>
     ('s, 'b) QuorumCertSecp \<Rightarrow> ('s, 'b) QuorumCertSecp res" where
  "secp_add_part E cfg rid pc c =
     (if pc_obj_hash pc \<noteq> secp_obj_hash c then Inl (InvalidArgument ''PartCert does match the block hash'')
      else case pc of
        PartCertSecp256k1 h x \<Rightarrow>
          Inr (c\<lparr>secp_sigs := umap_insert rid x (secp_sigs c),
                 secp_rids := bits_set E (secp_rids c) (unat rid)\<rparr>)
      | _ \<Rightarrow> Inl BadCast)"

fun secp_merge_sigs ::
  "('p, 'k, 's, 'b) env \<Rightarrow> (ReplicaID \<times> 's) list \<Rightarrow> ('s, 'b) QuorumCertSecp \<Rightarrow> ('s, 'b) QuorumCertSecp" where
  "secp_merge_sigs E [] c = c"
| "secp_merge_sigs E ((rid, x) # xs) c =
     secp_merge_sigs E xs
       (c\<lparr>secp_sigs := umap_insert rid x (secp_sigs c),
          secp_rids := bits_set E (secp_rids c) (unat rid)\<rparr>)"

definition secp_merge_quorum ::
  "('p, 'k, 's, 'b) env \<Rightarrow> ('s, 'b) QuorumCertSecp \<Rightarrow> ('s, 'b) QuorumCertSecp \<Rightarrow> ('s, 'b) QuorumCertSecp res" where
  "secp_merge_quorum E d c =
     (if secp_obj_hash d \<noteq> secp_obj_hash c then Inl (InvalidArgument ''QuorumCert does match the block hash'')
      else Inr (secp_merge_sigs E (secp_sigs d) c))"

definition secp_has_n :: "u32 \<Rightarrow> ('s, 'b) QuorumCertSecp \<Rightarrow> bool" where
  "secp_has_n n c \<longleftrightarrow> unat n \<le> length (secp_sigs c)"

definition secp_clone :: "('s, 'b) QuorumCertSecp \<Rightarrow> ('s, 'b) QuorumCertSecp" where
  "secp_clone c = \<lparr>secp_obj_hash = secp_obj_hash c, secp_rids = secp_rids c, secp_sigs = secp_sigs c\<rparr>"

text \<open>\<open>sigs[i]\<close> of a missing entry inserts a signature that was never written.\<close>

fun secp_verify_from ::
  "('p, 'k, 's, 'b) env \<Rightarrow> 'k ReplicaConfig \<Rightarrow> ('s, 'b) QuorumCertSecp \<Rightarrow> nat list \<Rightarrow> bool res" where
  "secp_verify_from E cfg c [] = Inr True"
| "secp_verify_from E cfg c (i # is) =
     (if bits_get E (secp_rids c) i then
        bind (get_pubkey cfg (of_nat i)) (\<lambda>pk.
        bind (initialised (map_of (secp_sigs c) (of_nat i))) (\<lambda>x.
          if \<not> sig_verify E pk (secp_obj_hash c) x then Inr False
          else secp_verify_from E cfg c is))
      else secp_verify_from E cfg c is)"

definition secp_verify ::
  "('p, 'k, 's, 'b) env \<Rightarrow> 'k ReplicaConfig \<Rightarrow> ('s, 'b) QuorumCertSecp \<Rightarrow> bool res" where
  "secp_verify E cfg c = secp_verify_from E cfg c [0..<bits_size E (secp_rids c)]"

text \<open>The pooled variant queues one task per recorded replica; \<open>promise::all\<close> of no task
  throws, otherwise the promise resolves to the conjunction of the results.\<close>

fun secp_tasks ::
  "('p, 'k, 's, 'b) env \<Rightarrow> 'k ReplicaConfig \<Rightarrow> ('s, 'b) QuorumCertSecp \<Rightarrow> nat list \<Rightarrow> bool list res" where
  "secp_tasks E cfg c [] = Inr []"
| "secp_tasks E cfg c (i # is) =
     (if bits_get E (secp_rids c) i then
        bind (get_pubkey cfg (of_nat i)) (\<lambda>pk.
        bind (initialised (map_of (secp_sigs c) (of_nat i))) (\<lambda>x.
        bind (secp_tasks E cfg c is) (\<lambda>vs. Inr (sig_verify E pk (secp_obj_hash c) x # vs))))
      else secp_tasks E cfg c is)"

definition secp_verify_pool ::
  "('p, 'k, 's, 'b) env \<Rightarrow> 'k ReplicaConfig \<Rightarrow> ('s, 'b) QuorumCertSecp \<Rightarrow> bool res" where
  "secp_verify_pool E cfg c =
     bind (secp_tasks E cfg c [0..<bits_size E (secp_rids c)]) (\<lambda>vs.
       if vs = [] then Inl (RuntimeError ''mismatching promise value types'') else Inr (list_all id vs))"

fun secp_ser_sigs :: "('p, 'k, 's, 'b) env \<Rightarrow> ('s, 'b) QuorumCertSecp \<Rightarrow> nat list \<Rightarrow> bytes res" where
  "secp_ser_sigs E c [] = Inr []"
| "secp_ser_sigs E c (i # is) =
     (if bits_get E (secp_rids c) i then
        (case map_of (secp_sigs c) (of_nat i) of
           None \<Rightarrow> Inl OutOfRange
         | Some x \<Rightarrow> bind (secp_ser_sigs E c is) (\<lambda>t. Inr (sig_serialize E x @ t)))
      else secp_ser_sigs E c is)"

definition secp_serialize :: "('p, 'k, 's, 'b) env \<Rightarrow> ('s, 'b) QuorumCertSecp \<Rightarrow> bytes res" where
  "secp_serialize E c =
     bind (secp_ser_sigs E c [0..<bits_size E (secp_rids c)]) (\<lambda>t.
       Inr (put_u256 E (secp_obj_hash c) @ put_bits E (secp_rids c) @ t))"

fun secp_des_sigs ::
  "('p, 'k, 's, 'b) env \<Rightarrow> 'b \<Rightarrow> nat list \<Rightarrow> (ReplicaID \<times> 's) list \<Rightarrow> bytes \<Rightarrow>
     ((ReplicaID \<times> 's) list \<times> bytes) res" where
  "secp_des_sigs E b [] m s = Inr (m, s)"
| "secp_des_sigs E b (i # is) m s =
     (if bits_get E b i then
        bind (sig_unserialize E s) (\<lambda>(x, s1). secp_des_sigs E b is (umap_put (of_nat i) x m) s1)
      else secp_des_sigs E b is m s)"

definition secp_unserialize ::
  "('p, 'k, 's, 'b) env \<Rightarrow> bytes \<Rightarrow> (('s, 'b) QuorumCertSecp \<times> bytes) res" where
  "secp_unserialize E s =
     bind (rd (get_u256 E s)) (\<lambda>(h, s1).
     bind (rd (get_bits E s1)) (\<lambda>(b, s2).
     bind (secp_des_sigs E b [0..<bits_size E b] [] s2) (\<lambda>(m, s3).
       Inr (\<lparr>secp_obj_hash = h, secp_rids = b, secp_sigs = m\<rparr>, s3))))"

text \<open>The recorded bits are exactly the replicas with a signature.\<close>

definition secp_ok :: "('p, 'k, 's, 'b) env \<Rightarrow> ('s, 'b) QuorumCertSecp \<Rightarrow> bool" where
  "secp_ok E c \<longleftrightarrow>
     bits_laws E \<and> umap_ok (secp_sigs c) \<and> bits_size E (secp_rids c) \<le> 2 ^ 16 \<and>
     (\<forall>rid \<in> umap_keys (secp_sigs c). unat rid < bits_size E (secp_rids c)) \<and>
     (\<forall>i < bits_size E (secp_rids c).
        bits_get E (secp_rids c) i \<longleftrightarrow> of_nat i \<in> umap_keys (secp_sigs c))"


lemma rid_of_nat: "i < 2 ^ 16 \<Longrightarrow> (of_nat i = (rid :: ReplicaID)) = (i = unat rid)"
  by (auto simp: unsigned_of_nat take_bit_nat_eq_self)

lemma secp_ok_insert:
  assumes "secp_ok E c" "unat rid < bits_size E (secp_rids c)"
  shows "secp_ok E (c\<lparr>secp_sigs := umap_insert rid x (secp_sigs c),
                      secp_rids := bits_set E (secp_rids c) (unat rid)\<rparr>)"
  using assms by (auto simp: secp_ok_def rid_of_nat)

lemma secp_new_ok:
  "bits_laws E \<Longrightarrow> unat (nreplicas cfg) \<le> 2 ^ 16 \<Longrightarrow> secp_ok E (secp_new E cfg h)"
  by (simp add: secp_ok_def secp_new_def)

lemma secp_merge_sigs_frame [simp]:
  "secp_obj_hash (secp_merge_sigs E xs c) = secp_obj_hash c"
  by (induction E xs c rule: secp_merge_sigs.induct) simp_all

lemma secp_merge_sigs_ok:
  assumes "secp_ok E c" "\<forall>rid \<in> umap_keys xs. unat rid < bits_size E (secp_rids c)"
  shows "secp_ok E (secp_merge_sigs E xs c) \<and>
     bits_size E (secp_rids (secp_merge_sigs E xs c)) = bits_size E (secp_rids c) \<and>
     umap_keys (secp_sigs (secp_merge_sigs E xs c)) = umap_keys (secp_sigs c) \<union> umap_keys xs"
  using assms
proof (induction E xs c rule: secp_merge_sigs.induct)
  case (1 E c)
  then show ?case by simp
next
  case (2 E rid x xs c)
  let ?c = "c\<lparr>secp_sigs := umap_insert rid x (secp_sigs c),
             secp_rids := bits_set E (secp_rids c) (unat rid)\<rparr>"
  have bl: "bits_laws E" using "2.prems"(1) by (simp add: secp_ok_def)
  have "secp_ok E ?c" using "2.prems" by (intro secp_ok_insert) auto
  moreover have "bits_size E (secp_rids ?c) = bits_size E (secp_rids c)" using bl by simp
  ultimately show ?case using "2.IH" "2.prems"(2) by auto
qed

interpretation secp: counting_cert "secp_add_part E" "secp_merge_quorum E" secp_has_n "\<lambda>c. c"
  secp_clone secp_obj_hash "secp_ok E" "\<lambda>c. bits_size E (secp_rids c)" "\<lambda>c. umap_keys (secp_sigs c)"
  for E :: "('p, 'k, 's, 'b) env"
proof unfold_locales
  fix c :: "('s, 'b) QuorumCertSecp" and n
  show "secp_has_n n c \<longleftrightarrow> unat n \<le> card (umap_keys (secp_sigs c))" if "secp_ok E c"
    using that by (simp add: secp_has_n_def secp_ok_def umap_size)
next
  fix c c' :: "('s, 'b) QuorumCertSecp" and cfg rid pc
  assume "secp_ok E c" "unat rid < bits_size E (secp_rids c)" "secp_add_part E cfg rid pc c = Inr c'"
  then show "secp_ok E c' \<and> bits_size E (secp_rids c') = bits_size E (secp_rids c) \<and>
      umap_keys (secp_sigs c') = insert rid (umap_keys (secp_sigs c))"
    by (auto simp: secp_add_part_def secp_ok_insert split: if_splits part_cert.splits)
       (auto simp: secp_ok_def)
next
  fix c d c' :: "('s, 'b) QuorumCertSecp"
  assume "secp_ok E c" "secp_ok E d" "bits_size E (secp_rids d) = bits_size E (secp_rids c)"
    "secp_merge_quorum E d c = Inr c'"
  then show "secp_ok E c' \<and> bits_size E (secp_rids c') = bits_size E (secp_rids c) \<and>
      umap_keys (secp_sigs c') = umap_keys (secp_sigs c) \<union> umap_keys (secp_sigs d)"
    using secp_merge_sigs_ok [of E c "secp_sigs d"]
    by (auto simp: secp_merge_quorum_def secp_ok_def split: if_splits)
qed (auto simp: secp_add_part_def secp_merge_quorum_def secp_clone_def secp_has_n_def word_le_nat_alt
          split: if_splits part_cert.splits)

interpretation secp: cloning_cert "secp_add_part E" "secp_merge_quorum E" secp_has_n "\<lambda>c. c"
  secp_clone secp_obj_hash
  for E :: "('p, 'k, 's, 'b) env"
  by unfold_locales (simp add: secp_clone_def secp_has_n_def)


section \<open>QuorumCertAggBLS\<close>

record ('s, 'b) QuorumCertAgg =
  agg_obj_hash :: uint256
  agg_rids :: 'b
  agg_theSig :: "'s option"
  agg_sigs :: "'s list"
  agg_n :: u32

definition agg_new :: "('p, 'k, 's, 'b) env \<Rightarrow> 'k ReplicaConfig \<Rightarrow> uint256 \<Rightarrow> ('s, 'b) QuorumCertAgg" where
  "agg_new E cfg h = \<lparr>agg_obj_hash = h, agg_rids = bits_new E (unat (nreplicas cfg)),
     agg_theSig = None, agg_sigs = [], agg_n = 0\<rparr>"

text \<open>The copy constructor copies the hash, the bits and the aggregate; the pending signatures
  and the counter keep their default values.\<close>

definition agg_clone :: "('s, 'b) QuorumCertAgg \<Rightarrow> ('s, 'b) QuorumCertAgg" where
  "agg_clone c = \<lparr>agg_obj_hash = agg_obj_hash c, agg_rids = agg_rids c,
     agg_theSig = agg_theSig c, agg_sigs = [], agg_n = 0\<rparr>"

definition count_bits :: "('p, 'k, 's, 'b) env \<Rightarrow> 'b \<Rightarrow> u32" where
  "count_bits E b = of_nat (length (filter (bits_get E b) [0..<bits_size E b]))"

definition calculateN :: "('p, 'k, 's, 'b) env \<Rightarrow> ('s, 'b) QuorumCertAgg \<Rightarrow> ('s, 'b) QuorumCertAgg" where
  "calculateN E c = c\<lparr>agg_n := count_bits E (agg_rids c)\<rparr>"

text \<open>The aggregate, if there is one and no pending signature, becomes a pending signature.\<close>

definition agg_reopen :: "('s, 'b) QuorumCertAgg \<Rightarrow> ('s, 'b) QuorumCertAgg" where
  "agg_reopen c =
     (case agg_theSig c of
        Some x \<Rightarrow> if agg_sigs c = [] then c\<lparr>agg_sigs := [x], agg_theSig := None\<rparr> else c
      | None \<Rightarrow> c)"

definition agg_add_part ::
  "('p, 'k, 's, 'b) env \<Rightarrow> 'k ReplicaConfig \<Rightarrow> ReplicaID \<Rightarrow> 's part_cert \<Rightarrow>
     ('s, 'b) QuorumCertAgg \<Rightarrow> ('s, 'b) QuorumCertAgg res" where
  "agg_add_part E cfg rid pc c =
     (if pc_obj_hash pc \<noteq> agg_obj_hash c then Inl (InvalidArgument ''PartCert does match the block hash'')
      else
        let c1 = agg_reopen (calculateN E (c\<lparr>agg_rids := bits_set E (agg_rids c) (unat rid)\<rparr>)) in
        case pc of
          PartCertBLSAgg h x \<Rightarrow> Inr (c1\<lparr>agg_sigs := agg_sigs c1 @ [x]\<rparr>)
        | _ \<Rightarrow> Inl BadCast)"

fun merge_rids :: "('p, 'k, 's, 'b) env \<Rightarrow> 'b \<Rightarrow> nat list \<Rightarrow> 'b \<Rightarrow> 'b" where
  "merge_rids E nb [] b = b"
| "merge_rids E nb (i # is) b = merge_rids E nb is (if bits_get E nb i then bits_set E b i else b)"

definition agg_merge_quorum ::
  "('p, 'k, 's, 'b) env \<Rightarrow> ('s, 'b) QuorumCertAgg \<Rightarrow> ('s, 'b) QuorumCertAgg \<Rightarrow> ('s, 'b) QuorumCertAgg res" where
  "agg_merge_quorum E d c =
     (if agg_obj_hash d \<noteq> agg_obj_hash c then Inl (InvalidArgument ''QuorumCert does match the block hash'')
      else
        let c1 = agg_reopen (calculateN E
               (c\<lparr>agg_rids := merge_rids E (agg_rids d) [0..<bits_size E (agg_rids d)] (agg_rids c)\<rparr>)) in
        Inr (c1\<lparr>agg_sigs := agg_sigs c1 @ agg_sigs d @
                 (case agg_theSig d of None \<Rightarrow> [] | Some x \<Rightarrow> [x])\<rparr>))"

definition agg_has_n :: "u32 \<Rightarrow> ('s, 'b) QuorumCertAgg \<Rightarrow> bool" where
  "agg_has_n t c \<longleftrightarrow> t \<le> agg_n c"

definition agg_compute :: "('p, 'k, 's, 'b) env \<Rightarrow> ('s, 'b) QuorumCertAgg \<Rightarrow> ('s, 'b) QuorumCertAgg" where
  "agg_compute E c =
     (case agg_theSig c of
        None \<Rightarrow> c\<lparr>agg_theSig := Some (sig_aggregate E (agg_sigs c)), agg_sigs := []\<rparr>
      | Some _ \<Rightarrow> c)"

fun agg_pubs ::
  "('p, 'k, 's, 'b) env \<Rightarrow> 'k ReplicaConfig \<Rightarrow> 'b \<Rightarrow> nat list \<Rightarrow> 'k list res" where
  "agg_pubs E cfg b [] = Inr []"
| "agg_pubs E cfg b (i # is) =
     (if bits_get E b i then
        bind (get_pubkey cfg (of_nat i)) (\<lambda>pk. bind (agg_pubs E cfg b is) (\<lambda>pks. Inr (pk # pks)))
      else agg_pubs E cfg b is)"

definition agg_verify ::
  "('p, 'k, 's, 'b) env \<Rightarrow> 'k ReplicaConfig \<Rightarrow> ('s, 'b) QuorumCertAgg \<Rightarrow> bool res" where
  "agg_verify E cfg c =
     (case agg_theSig c of
        None \<Rightarrow> Inr False
      | Some x \<Rightarrow>
          bind (agg_pubs E cfg (agg_rids c) [0..<bits_size E (agg_rids c)]) (\<lambda>pubs.
            Inr (sig_fast_verify E pubs (agg_obj_hash c) x)))"

text \<open>The pooled variant queues one task with the same arguments.\<close>

definition agg_verify_pool ::
  "('p, 'k, 's, 'b) env \<Rightarrow> 'k ReplicaConfig \<Rightarrow> ('s, 'b) QuorumCertAgg \<Rightarrow> bool res" where
  "agg_verify_pool E cfg c =
     (case agg_theSig c of
        None \<Rightarrow> Inr False
      | Some x \<Rightarrow>
          bind (agg_pubs E cfg (agg_rids c) [0..<bits_size E (agg_rids c)]) (\<lambda>pubs.
            Inr (list_all id [sig_fast_verify E pubs (agg_obj_hash c) x])))"

definition agg_serialize :: "('p, 'k, 's, 'b) env \<Rightarrow> ('s, 'b) QuorumCertAgg \<Rightarrow> bytes res" where
  "agg_serialize E c =
     (let hdr = put_u256 E (agg_obj_hash c) @ put_bits E (agg_rids c) @ put_bool E (agg_theSig c \<noteq> None) in
      case agg_theSig c of
        None \<Rightarrow> Inr hdr
      | Some x \<Rightarrow>
          if agg_sigs c \<noteq> [] then Inl (RuntimeError ''sigs not aggregated before sending!'')
          else Inr (hdr @ sig_serialize E x))"

definition agg_unserialize ::
  "('p, 'k, 's, 'b) env \<Rightarrow> bytes \<Rightarrow> (('s, 'b) QuorumCertAgg \<times> bytes) res" where
  "agg_unserialize E s =
     bind (rd (get_u256 E s)) (\<lambda>(h, s1).
     bind (rd (get_bits E s1)) (\<lambda>(b, s2).
     bind (get_bool E s2) (\<lambda>(combined, s3).
       let c = calculateN E \<lparr>agg_obj_hash = h, agg_rids = b, agg_theSig = None,
                             agg_sigs = [], agg_n = 0\<rparr> in
       if combined then bind (sig_unserialize E s3) (\<lambda>(x, s4). Inr (c\<lparr>agg_theSig := Some x\<rparr>, s4))
       else Inr (c, s3))))"

definition agg_signers :: "('p, 'k, 's, 'b) env \<Rightarrow> 'b \<Rightarrow> ReplicaID set" where
  "agg_signers E b = of_nat ` {i. i < bits_size E b \<and> bits_get E b i}"

text \<open>The counter is the number of bits set.\<close>

definition agg_ok :: "('p, 'k, 's, 'b) env \<Rightarrow> ('s, 'b) QuorumCertAgg \<Rightarrow> bool" where
  "agg_ok E c \<longleftrightarrow> bits_laws E \<and> bits_size E (agg_rids c) \<le> 2 ^ 16 \<and> agg_n c = count_bits E (agg_rids c)"


lemma inj_on_rid: "inj_on (of_nat :: nat \<Rightarrow> ReplicaID) {i. i < 2 ^ 16}"
  by (rule inj_onI) (metis mem_Collect_eq rid_of_nat)

lemma count_bits_signers:
  assumes "bits_size E b \<le> 2 ^ 16"
  shows "unat (count_bits E b) = card (agg_signers E b)"
proof -
  let ?S = "{i. i < bits_size E b \<and> bits_get E b i}"
  have sub: "?S \<subseteq> {i. i < 2 ^ 16}" using assms by auto
  have len: "length (filter (bits_get E b) [0..<bits_size E b]) = card ?S"
    by (subst distinct_card [symmetric]) (auto intro: arg_cong [of _ _ card])
  have "card ?S \<le> card {i::nat. i < 2 ^ 16}" by (rule card_mono) (use sub in auto)
  then have "card ?S < 2 ^ 32" by simp
  then have "unat (count_bits E b) = card ?S"
    unfolding count_bits_def len by (simp add: unsigned_of_nat take_bit_nat_eq_self)
  also have "\<dots> = card (agg_signers E b)"
    unfolding agg_signers_def by (rule card_image [symmetric]) (rule inj_on_subset [OF inj_on_rid sub])
  finally show ?thesis .
qed

lemma agg_signers_set:
  assumes "bits_laws E" "i < bits_size E b"
  shows "agg_signers E (bits_set E b i) = insert (of_nat i) (agg_signers E b)"
proof -
  have "{j. j < bits_size E b \<and> bits_get E (bits_set E b i) j} =
        insert i {j. j < bits_size E b \<and> bits_get E b j}"
    using assms by auto
  then show ?thesis using assms by (simp add: agg_signers_def)
qed

lemma merge_rids_signers:
  assumes "bits_laws E" "\<forall>i \<in> set is. i < bits_size E b"
  shows "bits_size E (merge_rids E nb is b) = bits_size E b \<and>
    agg_signers E (merge_rids E nb is b) = agg_signers E b \<union> of_nat ` {i \<in> set is. bits_get E nb i}"
  using assms
proof (induction "is" arbitrary: b)
  case Nil
  then show ?case by simp
next
  case (Cons i "is")
  let ?b = "if bits_get E nb i then bits_set E b i else b"
  have "bits_size E ?b = bits_size E b" using Cons.prems by simp
  moreover have "agg_signers E ?b = agg_signers E b \<union> of_nat ` {j \<in> {i}. bits_get E nb j}"
    using Cons.prems by (auto simp: agg_signers_set)
  moreover have "{j \<in> set (i # is). bits_get E nb j} = {j \<in> {i}. bits_get E nb j} \<union> {j \<in> set is. bits_get E nb j}"
    by auto
  ultimately show ?case using Cons.IH [of ?b] Cons.prems by (auto simp: image_Un)
qed

lemma merge_rids_all:
  assumes "bits_laws E" "bits_size E nb = bits_size E b"
  shows "bits_size E (merge_rids E nb [0..<bits_size E nb] b) = bits_size E b"
    and "agg_signers E (merge_rids E nb [0..<bits_size E nb] b) = agg_signers E b \<union> agg_signers E nb"
proof -
  have "of_nat ` {i \<in> set [0..<bits_size E nb]. bits_get E nb i} = agg_signers E nb"
    by (simp add: agg_signers_def)
  with merge_rids_signers [of E "[0..<bits_size E nb]" b nb] assms
  show "bits_size E (merge_rids E nb [0..<bits_size E nb] b) = bits_size E b"
    and "agg_signers E (merge_rids E nb [0..<bits_size E nb] b) = agg_signers E b \<union> agg_signers E nb"
    by simp_all
qed

lemma agg_reopen_frame [simp]:
  "agg_obj_hash (agg_reopen c) = agg_obj_hash c"
  "agg_rids (agg_reopen c) = agg_rids c"
  "agg_n (agg_reopen c) = agg_n c"
  by (simp_all add: agg_reopen_def split: option.splits)

lemma calculateN_frame [simp]:
  "agg_obj_hash (calculateN E c) = agg_obj_hash c"
  "agg_rids (calculateN E c) = agg_rids c"
  "agg_theSig (calculateN E c) = agg_theSig c"
  "agg_sigs (calculateN E c) = agg_sigs c"
  "agg_n (calculateN E c) = count_bits E (agg_rids c)"
  by (simp_all add: calculateN_def)

lemma agg_compute_frame [simp]:
  "agg_obj_hash (agg_compute E c) = agg_obj_hash c"
  "agg_rids (agg_compute E c) = agg_rids c"
  "agg_n (agg_compute E c) = agg_n c"
  by (simp_all add: agg_compute_def split: option.splits)

lemma agg_add_part_frame:
  assumes "agg_add_part E cfg rid pc c = Inr c'"
  shows "agg_obj_hash c' = agg_obj_hash c \<and> agg_rids c' = bits_set E (agg_rids c) (unat rid) \<and>
    agg_n c' = count_bits E (agg_rids c')"
  using assms by (auto simp: agg_add_part_def Let_def split: if_splits part_cert.splits)

lemma agg_merge_frame:
  assumes "agg_merge_quorum E d c = Inr c'"
  shows "agg_obj_hash c' = agg_obj_hash c \<and>
    agg_rids c' = merge_rids E (agg_rids d) [0..<bits_size E (agg_rids d)] (agg_rids c) \<and>
    agg_n c' = count_bits E (agg_rids c')"
  using assms by (auto simp: agg_merge_quorum_def Let_def split: if_splits)

interpretation agg: counting_cert "agg_add_part E" "agg_merge_quorum E" agg_has_n "agg_compute E"
  agg_clone agg_obj_hash "agg_ok E" "\<lambda>c. bits_size E (agg_rids c)" "\<lambda>c. agg_signers E (agg_rids c)"
  for E :: "('p, 'k, 's, 'b) env"
proof unfold_locales
  fix c :: "('s, 'b) QuorumCertAgg" and n
  show "agg_has_n n c \<longleftrightarrow> unat n \<le> card (agg_signers E (agg_rids c))" if "agg_ok E c"
    using that by (simp add: agg_has_n_def agg_ok_def word_le_nat_alt count_bits_signers)
next
  fix c c' :: "('s, 'b) QuorumCertAgg" and cfg rid pc
  assume "agg_ok E c" "unat rid < bits_size E (agg_rids c)" "agg_add_part E cfg rid pc c = Inr c'"
  then show "agg_ok E c' \<and> bits_size E (agg_rids c') = bits_size E (agg_rids c) \<and>
      agg_signers E (agg_rids c') = insert rid (agg_signers E (agg_rids c))"
    using agg_add_part_frame [of E cfg rid pc c c'] agg_signers_set [of E "unat rid" "agg_rids c"]
    by (simp add: agg_ok_def)
next
  fix c d c' :: "('s, 'b) QuorumCertAgg"
  assume "agg_ok E c" "agg_ok E d" "bits_size E (agg_rids d) = bits_size E (agg_rids c)"
    "agg_merge_quorum E d c = Inr c'"
  then show "agg_ok E c' \<and> bits_size E (agg_rids c') = bits_size E (agg_rids c) \<and>
      agg_signers E (agg_rids c') = agg_signers E (agg_rids c) \<union> agg_signers E (agg_rids d)"
    using agg_merge_frame [of E d c c']
      merge_rids_all [of E "agg_rids d" "agg_rids c"]
    by (simp add: agg_ok_def)
next
  fix c :: "('s, 'b) QuorumCertAgg"
  show "agg_ok E (agg_compute E c) \<and> bits_size E (agg_rids (agg_compute E c)) = bits_size E (agg_rids c)
      \<and> agg_signers E (agg_rids (agg_compute E c)) = agg_signers E (agg_rids c)" if "agg_ok E c"
    using that by (simp add: agg_ok_def)
qed (auto simp: agg_clone_def agg_has_n_def dest: agg_add_part_frame agg_merge_frame)


section \<open>Serialized certificates\<close>

lemma agg_roundtrip:
  assumes "stream_laws E" "sig_codec_laws E" "agg_n c = count_bits E (agg_rids c)" "agg_sigs c = []"
    and "agg_serialize E c = Inr bs"
  shows "agg_unserialize E (bs @ s) = Inr (c, s)"
  using assms
  by (cases "agg_theSig c")
     (auto simp: agg_serialize_def agg_unserialize_def stream_simps get_put_bool
        sig_unserialize_serialize calculateN_def Let_def)

lemma map_of_umap_put [simp]: "map_of (umap_put k v m) x = (if x = k then Some v else map_of m x)"
proof (cases "map_of m k")
  case None
  then show ?thesis by (auto simp: umap_put_def map_add_def split: option.splits)
next
  case (Some w)
  have "map_of (map (\<lambda>p. if fst p = k then (k, v) else p) m) x =
      (if x = k \<and> map_of m k \<noteq> None then Some v else map_of m x)"
    by (induction m) auto
  with Some show ?thesis by (auto simp: umap_put_def)
qed

lemma secp_des_ser_sigs:
  assumes "stream_laws E" "sig_codec_laws E" "secp_ser_sigs E c is = Inr t"
  shows "\<exists>m'. secp_des_sigs E (secp_rids c) is m (t @ s) = Inr (m', s) \<and>
    (\<forall>k. map_of m' k = (if \<exists>i \<in> set is. bits_get E (secp_rids c) i \<and> of_nat i = k
                        then map_of (secp_sigs c) k else map_of m k))"
  using assms(3)
proof (induction "is" arbitrary: m t)
  case Nil
  then show ?case by simp
next
  case (Cons i "is")
  show ?case
  proof (cases "bits_get E (secp_rids c) i")
    case False
    with Cons show ?thesis by auto
  next
    case True
    with Cons.prems obtain x t' where x: "map_of (secp_sigs c) (of_nat i) = Some x"
      and t': "secp_ser_sigs E c is = Inr t'" and t: "t = sig_serialize E x @ t'"
      by (auto simp: res_iff split: option.splits)
    from Cons.IH [OF t', of "umap_put (of_nat i) x m"] obtain m' where
      "secp_des_sigs E (secp_rids c) is (umap_put (of_nat i) x m) (t' @ s) = Inr (m', s)"
      "\<forall>k. map_of m' k = (if \<exists>i \<in> set is. bits_get E (secp_rids c) i \<and> of_nat i = k
          then map_of (secp_sigs c) k else map_of (umap_put (of_nat i) x m) k)"
      by blast
    with True x show ?thesis
      by (intro exI [of _ m']) (auto simp: t sig_unserialize_serialize [OF assms(1,2)])
  qed
qed

lemma secp_ser_sigs_total:
  assumes "secp_ok E c" "\<forall>i \<in> set is. i < bits_size E (secp_rids c)"
  shows "\<exists>t. secp_ser_sigs E c is = Inr t"
  using assms(2)
proof (induction "is")
  case Nil
  then show ?case by simp
next
  case (Cons i "is")
  have "of_nat i \<in> umap_keys (secp_sigs c)" if "bits_get E (secp_rids c) i"
    using that Cons.prems assms(1) by (auto simp: secp_ok_def)
  with Cons show ?case by (auto simp: map_of_None_keys split: option.splits)
qed

lemma secp_roundtrip:
  assumes "stream_laws E" "sig_codec_laws E" "secp_ok E c"
  shows "\<exists>bs c'. secp_serialize E c = Inr bs \<and> secp_unserialize E (bs @ s) = Inr (c', s) \<and>
    secp_obj_hash c' = secp_obj_hash c \<and> secp_rids c' = secp_rids c \<and>
    map_of (secp_sigs c') = map_of (secp_sigs c)"
proof -
  let ?is = "[0..<bits_size E (secp_rids c)]"
  obtain t where t: "secp_ser_sigs E c ?is = Inr t"
    using secp_ser_sigs_total [OF assms(3), of ?is] by auto
  obtain m' where m': "secp_des_sigs E (secp_rids c) ?is [] (t @ s) = Inr (m', s)"
    and lk: "\<forall>k. map_of m' k = (if \<exists>i \<in> set ?is. bits_get E (secp_rids c) i \<and> of_nat i = k
                        then map_of (secp_sigs c) k else map_of [] k)"
    using secp_des_ser_sigs [OF assms(1,2) t, of "[]" s] by blast
  have "map_of m' k = map_of (secp_sigs c) k" for k
  proof (cases "map_of (secp_sigs c) k")
    case None
    with lk show ?thesis by simp
  next
    case (Some x)
    then have "k \<in> umap_keys (secp_sigs c)" by (metis map_of_None_keys option.distinct(1))
    then have "unat k < bits_size E (secp_rids c) \<and> bits_get E (secp_rids c) (unat k)"
      using assms(3) by (auto simp: secp_ok_def)
    then show ?thesis using lk by (auto intro!: bexI [of _ "unat k"])
  qed
  then have "map_of m' = map_of (secp_sigs c)" by blast
  with t m' show ?thesis
    using assms(1) by (simp add: secp_serialize_def secp_unserialize_def stream_simps)
qed

section \<open>Virtual calls on QuorumCert\<close>

datatype ('s, 'b) QuorumCert =
    QDummy QuorumCertDummy
  | QSecp "('s, 'b) QuorumCertSecp"
  | QAgg "('s, 'b) QuorumCertAgg"

fun qc_obj_hash :: "('s, 'b) QuorumCert \<Rightarrow> uint256" where
  "qc_obj_hash (QDummy c) = dum_obj_hash c"
| "qc_obj_hash (QSecp c) = secp_obj_hash c"
| "qc_obj_hash (QAgg c) = agg_obj_hash c"

fun qc_add_part ::
  "('p, 'k, 's, 'b) env \<Rightarrow> 'k ReplicaConfig \<Rightarrow> ReplicaID \<Rightarrow> 's part_cert \<Rightarrow>
     ('s, 'b) QuorumCert \<Rightarrow> ('s, 'b) QuorumCert res" where
  "qc_add_part E cfg rid pc (QDummy c) = bind (dummy_add_part cfg rid pc c) (\<lambda>c'. Inr (QDummy c'))"
| "qc_add_part E cfg rid pc (QSecp c) = bind (secp_add_part E cfg rid pc c) (\<lambda>c'. Inr (QSecp c'))"
| "qc_add_part E cfg rid pc (QAgg c) = bind (agg_add_part E cfg rid pc c) (\<lambda>c'. Inr (QAgg c'))"

text \<open>The argument is cast to the class of the receiver after the hashes are compared (the dummy
  certificate compares nothing); a cast to another class fails.\<close>

fun qc_merge_quorum ::
  "('p, 'k, 's, 'b) env \<Rightarrow> ('s, 'b) QuorumCert \<Rightarrow> ('s, 'b) QuorumCert \<Rightarrow> ('s, 'b) QuorumCert res" where
  "qc_merge_quorum E (QDummy d) (QDummy c) = bind (dummy_merge_quorum d c) (\<lambda>c'. Inr (QDummy c'))"
| "qc_merge_quorum E (QSecp d) (QSecp c) = bind (secp_merge_quorum E d c) (\<lambda>c'. Inr (QSecp c'))"
| "qc_merge_quorum E (QAgg d) (QAgg c) = bind (agg_merge_quorum E d c) (\<lambda>c'. Inr (QAgg c'))"
| "qc_merge_quorum E d (QDummy c) = Inl BadCast"
| "qc_merge_quorum E d c =
     (if qc_obj_hash d \<noteq> qc_obj_hash c then Inl (InvalidArgument ''QuorumCert does match the block hash'')
      else Inl BadCast)"

fun qc_has_n :: "u32 \<Rightarrow> ('s, 'b) QuorumCert \<Rightarrow> bool" where
  "qc_has_n n (QDummy c) = dummy_has_n n c"
| "qc_has_n n (QSecp c) = secp_has_n n c"
| "qc_has_n n (QAgg c) = agg_has_n n c"

fun qc_compute :: "('p, 'k, 's, 'b) env \<Rightarrow> ('s, 'b) QuorumCert \<Rightarrow> ('s, 'b) QuorumCert" where
  "qc_compute E (QDummy c) = QDummy c"
| "qc_compute E (QSecp c) = QSecp c"
| "qc_compute E (QAgg c) = QAgg (agg_compute E c)"

fun qc_verify :: "('p, 'k, 's, 'b) env \<Rightarrow> 'k ReplicaConfig \<Rightarrow> ('s, 'b) QuorumCert \<Rightarrow> bool res" where
  "qc_verify E cfg (QDummy c) = Inr True"
| "qc_verify E cfg (QSecp c) = secp_verify E cfg c"
| "qc_verify E cfg (QAgg c) = agg_verify E cfg c"

fun qc_verify_pool :: "('p, 'k, 's, 'b) env \<Rightarrow> 'k ReplicaConfig \<Rightarrow> ('s, 'b) QuorumCert \<Rightarrow> bool res" where
  "qc_verify_pool E cfg (QDummy c) = Inr True"
| "qc_verify_pool E cfg (QSecp c) = secp_verify_pool E cfg c"
| "qc_verify_pool E cfg (QAgg c) = agg_verify_pool E cfg c"

fun qc_clone :: "('s, 'b) QuorumCert \<Rightarrow> ('s, 'b) QuorumCert" where
  "qc_clone (QDummy c) = QDummy (dummy_clone c)"
| "qc_clone (QSecp c) = QSecp (secp_clone c)"
| "qc_clone (QAgg c) = QAgg (agg_clone c)"

fun qc_serialize :: "('p, 'k, 's, 'b) env \<Rightarrow> ('s, 'b) QuorumCert \<Rightarrow> bytes res" where
  "qc_serialize E (QDummy c) = Inr (dummy_serialize E c)"
| "qc_serialize E (QSecp c) = secp_serialize E c"
| "qc_serialize E (QAgg c) = agg_serialize E c"

fun create_quorum_cert ::
  "('p, 'k, 's, 'b) env \<Rightarrow> scheme \<Rightarrow> 'k ReplicaConfig \<Rightarrow> uint256 \<Rightarrow> ('s, 'b) QuorumCert" where
  "create_quorum_cert E NoSig cfg h = QDummy (dummy_new h)"
| "create_quorum_cert E Secp256k1 cfg h = QSecp (secp_new E cfg h)"
| "create_quorum_cert E AggBLS cfg h = QAgg (agg_new E cfg h)"

fun parse_quorum_cert ::
  "('p, 'k, 's, 'b) env \<Rightarrow> scheme \<Rightarrow> bytes \<Rightarrow> (('s, 'b) QuorumCert \<times> bytes) res" where
  "parse_quorum_cert E NoSig s = bind (dummy_unserialize E s) (\<lambda>(c, s'). Inr (QDummy c, s'))"
| "parse_quorum_cert E Secp256k1 s = bind (secp_unserialize E s) (\<lambda>(c, s'). Inr (QSecp c, s'))"
| "parse_quorum_cert E AggBLS s = bind (agg_unserialize E s) (\<lambda>(c, s'). Inr (QAgg c, s'))"

interpretation qc: quorum_cert "qc_add_part E" "qc_merge_quorum E" qc_has_n "qc_compute E"
  qc_clone qc_obj_hash
  for E :: "('p, 'k, 's, 'b) env"
proof unfold_locales
  fix c c' :: "('s, 'b) QuorumCert" and cfg :: "'k ReplicaConfig" and rid pc
  show "qc_obj_hash c' = qc_obj_hash c" if "qc_add_part E cfg rid pc c = Inr c'"
    using that by (cases c) (auto simp: res_iff dest: dummy.add_part_hash secp.add_part_hash agg.add_part_hash)
next
  fix c d c' :: "('s, 'b) QuorumCert"
  show "qc_obj_hash c' = qc_obj_hash c" if "qc_merge_quorum E d c = Inr c'"
    using that
    by (cases d; cases c) (auto simp: res_iff split: if_splits
        dest: dummy.merge_hash secp.merge_hash agg.merge_hash)
next
  fix c :: "('s, 'b) QuorumCert"
  show "qc_obj_hash (qc_compute E c) = qc_obj_hash c" by (cases c) auto
  show "qc_obj_hash (qc_clone c) = qc_obj_hash c"
    by (cases c) (auto simp: dummy.clone_hash secp.clone_hash agg.clone_hash)
next
  fix c :: "('s, 'b) QuorumCert" and m n
  show "qc_has_n m c" if "m \<le> n" "qc_has_n n c"
    using that by (cases c) (auto dest: dummy.has_n_le secp.has_n_le agg.has_n_le)
qed

lemma create_quorum_cert_hash [simp]: "qc_obj_hash (create_quorum_cert E sch cfg h) = h"
  by (cases sch) (simp_all add: dummy_new_def secp_new_def agg_new_def)

end
