(* ===== verification/Hs_Entity.thy ===== *)
theory Hs_Entity
  imports Hs_Certs
begin

text \<open>
  Blocks and their storage (\<^verbatim>\<open>include/hotstuff/entity.h\<close>,
  \<^verbatim>\<open>src/entity.cpp\<close>). A \<open>block_t\<close> is a counted pointer to a mutable
  \<open>Block\<close> that many owners share, so blocks live in an explicit heap and a
  \<open>block_t\<close> is an address; a counted pointer never dangles, so the heap is a total
  function of the addresses below \<open>nxt\<close>. \<open>EntityStorage\<close> is the pair of caches
  from hashes to addresses and commands; its contract is the locale \<open>entity_store\<close>.
\<close>

section \<open>Blocks\<close>

type_synonym blkref = nat

record ('s, 'b) Block =
  parent_hashes :: "uint256 list"
  cmds :: "uint256 list"
  blk_qc :: "('s, 'b) QuorumCert option"
  extra :: bytes
  hash :: uint256
  parents :: "blkref list"
  qc_ref :: "blkref option"
  self_qc :: "('s, 'b) QuorumCert option"
  height :: u32
  delivered :: bool
  decision :: u8
  voted :: "ReplicaID set"

text \<open>\<open>htole((uint32_t)size)\<close> on the way out, \<open>letoh\<close> on the way in.\<close>

definition put_len :: "('p, 'k, 's, 'b) env \<Rightarrow> nat \<Rightarrow> bytes" where
  "put_len E n = put_int E 4 (unat (htole32 E (of_nat n)))"

definition get_len :: "('p, 'k, 's, 'b) env \<Rightarrow> bytes \<Rightarrow> (nat \<times> bytes) res" where
  "get_len E s = bind (rd (get_int E 4 s)) (\<lambda>(n, s'). Inr (unat (letoh32 E (of_nat n)), s'))"

definition put_hashes :: "('p, 'k, 's, 'b) env \<Rightarrow> uint256 list \<Rightarrow> bytes" where
  "put_hashes E hs = concat (map (put_u256 E) hs)"

fun get_hashes_n :: "('p, 'k, 's, 'b) env \<Rightarrow> nat \<Rightarrow> bytes \<Rightarrow> (uint256 list \<times> bytes) res" where
  "get_hashes_n E 0 s = Inr ([], s)"
| "get_hashes_n E (Suc n) s =
     bind (rd (get_u256 E s)) (\<lambda>(h, s1). bind (get_hashes_n E n s1) (\<lambda>(hs, s2). Inr (h # hs, s2)))"

text \<open>\<open>Block::serialize\<close>: the hashed and transmitted part of a block.\<close>

definition block_bytes ::
  "('p, 'k, 's, 'b) env \<Rightarrow> uint256 list \<Rightarrow> uint256 list \<Rightarrow> ('s, 'b) QuorumCert option \<Rightarrow> bytes \<Rightarrow> bytes res" where
  "block_bytes E ph cm q ex =
     bind (deref q) (\<lambda>c. bind (qc_serialize E c) (\<lambda>qb.
       Inr (put_len E (length ph) @ put_hashes E ph @
            put_len E (length cm) @ put_hashes E cm @
            qb @ put_len E (length ex) @ put_data E ex)))"

definition block_serialize :: "('p, 'k, 's, 'b) env \<Rightarrow> ('s, 'b) Block \<Rightarrow> bytes res" where
  "block_serialize E b = block_bytes E (parent_hashes b) (cmds b) (blk_qc b) (extra b)"

definition block_hash ::
  "('p, 'k, 's, 'b) env \<Rightarrow> uint256 list \<Rightarrow> uint256 list \<Rightarrow> ('s, 'b) QuorumCert option \<Rightarrow> bytes \<Rightarrow> uint256 res" where
  "block_hash E ph cm q ex = bind (block_bytes E ph cm q ex) (\<lambda>bs. Inr (sha256 E bs))"

definition Block_default :: "('p, 'k, 's, 'b) env \<Rightarrow> ('s, 'b) Block" where
  "Block_default E = \<lparr>parent_hashes = [], cmds = [], blk_qc = None, extra = [],
     hash = u256_default E, parents = [], qc_ref = None, self_qc = None, height = 0,
     delivered = False, decision = 0, voted = {}\<rparr>"

definition Block_genesis :: "('p, 'k, 's, 'b) env \<Rightarrow> bool \<Rightarrow> u8 \<Rightarrow> ('s, 'b) Block res" where
  "Block_genesis E dlv dec =
     (let q = Some (QDummy (dummy_default E)) in
      bind (block_hash E [] [] q []) (\<lambda>h.
        Inr ((Block_default E)\<lparr>blk_qc := q, hash := h, delivered := dlv, decision := dec\<rparr>)))"

definition Block_new ::
  "('p, 'k, 's, 'b) env \<Rightarrow> (blkref \<times> uint256) list \<Rightarrow> uint256 list \<Rightarrow> ('s, 'b) QuorumCert option \<Rightarrow>
     bytes \<Rightarrow> u32 \<Rightarrow> blkref option \<Rightarrow> ('s, 'b) QuorumCert option \<Rightarrow> u8 \<Rightarrow> ('s, 'b) Block res" where
  "Block_new E ps cm q ex ht qref sq dec =
     bind (block_hash E (map snd ps) cm q ex) (\<lambda>h.
       Inr \<lparr>parent_hashes = map snd ps, cmds = cm, blk_qc = q, extra = ex, hash = h,
            parents = map fst ps, qc_ref = qref, self_qc = sq, height = ht,
            delivered = False, decision = dec, voted = {}\<rparr>)"

text \<open>\<open>Block::unserialize\<close> into a default-constructed block.\<close>

definition block_unserialize ::
  "('p, 'k, 's, 'b) env \<Rightarrow> scheme \<Rightarrow> bytes \<Rightarrow> (('s, 'b) Block \<times> bytes) res" where
  "block_unserialize E sch s =
     bind (get_len E s) (\<lambda>(n, s1).
     bind (get_hashes_n E n s1) (\<lambda>(ph, s2).
     bind (get_len E s2) (\<lambda>(m, s3).
     bind (get_hashes_n E m s3) (\<lambda>(cm, s4).
     bind (parse_quorum_cert E sch s4) (\<lambda>(q, s5).
     bind (get_len E s5) (\<lambda>(k, s6).
     bind (if k = 0 then Inr ([], s6) else rd (get_data E k s6)) (\<lambda>(ex, s7).
     bind (block_hash E ph cm (Some q) ex) (\<lambda>h.
       Inr ((Block_default E)\<lparr>parent_hashes := ph, cmds := cm, blk_qc := Some q,
              extra := ex, hash := h\<rparr>, s7)))))))))"

text \<open>\<open>Block::verify\<close>: the certificate of the genesis block is not checked.\<close>

definition block_verify ::
  "('p, 'k, 's, 'b) env \<Rightarrow> 'k ReplicaConfig \<Rightarrow> uint256 \<Rightarrow> ('s, 'b) Block \<Rightarrow> bool res" where
  "block_verify E cfg genesis_hash b =
     bind (deref (blk_qc b)) (\<lambda>q.
       if qc_obj_hash q = genesis_hash then Inr True else qc_verify E cfg q)"

definition block_verify_pool ::
  "('p, 'k, 's, 'b) env \<Rightarrow> 'k ReplicaConfig \<Rightarrow> uint256 \<Rightarrow> ('s, 'b) Block \<Rightarrow> bool res" where
  "block_verify_pool E cfg genesis_hash b =
     bind (deref (blk_qc b)) (\<lambda>q.
       if qc_obj_hash q = genesis_hash then Inr True else qc_verify_pool E cfg q)"

section \<open>The heap and EntityStorage\<close>

record CommandDummy =
  cid :: u32
  cmd_n :: u32
  cmd_hash :: uint256

record ('s, 'b) mem =
  heap :: "blkref \<Rightarrow> ('s, 'b) Block"
  nxt :: blkref
  blk_cache :: "(uint256 \<times> blkref) list"
  cmd_cache :: "(uint256 \<times> CommandDummy) list"

definition upd_blk :: "blkref \<Rightarrow> (('s, 'b) Block \<Rightarrow> ('s, 'b) Block) \<Rightarrow> ('s, 'b) mem \<Rightarrow> ('s, 'b) mem" where
  "upd_blk r f m = m\<lparr>heap := (heap m)(r := f (heap m r))\<rparr>"

definition alloc_blk :: "('s, 'b) Block \<Rightarrow> ('s, 'b) mem \<Rightarrow> blkref \<times> ('s, 'b) mem" where
  "alloc_blk b m = (nxt m, m\<lparr>heap := (heap m)(nxt m := b), nxt := Suc (nxt m)\<rparr>)"

definition find_blk :: "uint256 \<Rightarrow> ('s, 'b) mem \<Rightarrow> blkref option" where
  "find_blk h m = map_of (blk_cache m) h"

definition is_blk_delivered :: "uint256 \<Rightarrow> ('s, 'b) mem \<Rightarrow> bool" where
  "is_blk_delivered h m =
     (case map_of (blk_cache m) h of None \<Rightarrow> False | Some r \<Rightarrow> delivered (heap m r))"

definition is_blk_fetched :: "uint256 \<Rightarrow> ('s, 'b) mem \<Rightarrow> bool" where
  "is_blk_fetched h m = (map_of (blk_cache m) h \<noteq> None)"

definition add_blk :: "blkref \<Rightarrow> ('s, 'b) mem \<Rightarrow> blkref \<times> ('s, 'b) mem" where
  "add_blk r m =
     (let h = hash (heap m r); m' = m\<lparr>blk_cache := umap_insert h r (blk_cache m)\<rparr> in
      (the (map_of (blk_cache m') h), m'))"

definition add_blk_move :: "('s, 'b) Block \<Rightarrow> ('s, 'b) mem \<Rightarrow> blkref \<times> ('s, 'b) mem" where
  "add_blk_move b m = (let (r, m1) = alloc_blk b m in add_blk r m1)"

definition find_cmd :: "uint256 \<Rightarrow> ('s, 'b) mem \<Rightarrow> CommandDummy option" where
  "find_cmd h m = map_of (cmd_cache m) h"

definition is_cmd_fetched :: "uint256 \<Rightarrow> ('s, 'b) mem \<Rightarrow> bool" where
  "is_cmd_fetched h m = (map_of (cmd_cache m) h \<noteq> None)"

definition add_cmd :: "CommandDummy \<Rightarrow> ('s, 'b) mem \<Rightarrow> CommandDummy \<times> ('s, 'b) mem" where
  "add_cmd c m =
     (let m' = m\<lparr>cmd_cache := umap_insert (cmd_hash c) c (cmd_cache m)\<rparr> in
      (the (map_of (cmd_cache m') (cmd_hash c)), m'))"

definition get_cmd_cache_size :: "('s, 'b) mem \<Rightarrow> nat" where
  "get_cmd_cache_size m = length (cmd_cache m)"

definition get_blk_cache_size :: "('s, 'b) mem \<Rightarrow> nat" where
  "get_blk_cache_size m = length (blk_cache m)"

text \<open>The reference counts are those of the counted pointer; \<open>cnt = 2\<close> means that only
  the caller and the cache refer to the object.\<close>

definition try_release_cmd :: "nat \<Rightarrow> CommandDummy \<Rightarrow> ('s, 'b) mem \<Rightarrow> bool \<times> ('s, 'b) mem" where
  "try_release_cmd cnt c m =
     (if cnt = 2 then (True, m\<lparr>cmd_cache := umap_erase (cmd_hash c) (cmd_cache m)\<rparr>) else (False, m))"

definition try_release_blk :: "nat \<Rightarrow> blkref \<Rightarrow> ('s, 'b) mem \<Rightarrow> bool \<times> ('s, 'b) mem" where
  "try_release_blk cnt r m =
     (if cnt = 2 then (True, m\<lparr>blk_cache := umap_erase (hash (heap m r)) (blk_cache m)\<rparr>) else (False, m))"


section \<open>The contract of a storage\<close>

text \<open>
  \<open>find\<close> looks a hash up, \<open>add\<close> stores an entity under its own hash unless the
  hash is taken and returns what is stored; \<open>key\<close> is the hash of an entity.
\<close>

locale entity_store =
  fixes find :: "uint256 \<Rightarrow> 'm \<Rightarrow> 'r option"
    and add :: "'r \<Rightarrow> 'm \<Rightarrow> 'r \<times> 'm"
    and key :: "'m \<Rightarrow> 'r \<Rightarrow> uint256"
    and invar :: "'m \<Rightarrow> bool"
  assumes find_key: "invar m \<Longrightarrow> find h m = Some r \<Longrightarrow> key m r = h"
    and find_add: "find h (snd (add r m)) = (if h = key m r \<and> find h m = None then Some r else find h m)"
    and add_result: "find (key m r) (snd (add r m)) = Some (fst (add r m))"
    and key_add: "key (snd (add r m)) x = key m x"
    and invar_add: "invar m \<Longrightarrow> invar (snd (add r m))"
begin

lemma add_keeps: "find h m = Some r \<Longrightarrow> find h (snd (add x m)) = Some r"
  by (simp add: find_add)

lemma add_result_key: "invar m \<Longrightarrow> key m (fst (add r m)) = key m r"
  using find_key [OF invar_add add_result] by (simp add: key_add)

lemma add_fresh: "find (key m r) m = None \<Longrightarrow> fst (add r m) = r"
  using add_result [of m r] by (simp add: find_add)

lemma add_known: "find (key m r) m = Some x \<Longrightarrow> fst (add r m) = x"
  using add_result [of m r] by (simp add: find_add)

lemma adds_keep:
  "find h m = Some r \<Longrightarrow> find h (fold (\<lambda>x m. snd (add x m)) xs m) = Some r"
  by (induction xs arbitrary: m) (simp_all add: add_keeps)

lemma add_idem: "find h (snd (add r (snd (add r m)))) = find h (snd (add r m))"
  using add_result [of m r] by (auto simp: find_add key_add)

end

definition blk_store_ok :: "('s, 'b) mem \<Rightarrow> bool" where
  "blk_store_ok m \<longleftrightarrow> (\<forall>h r. find_blk h m = Some r \<longrightarrow> hash (heap m r) = h)"

definition cmd_store_ok :: "('s, 'b) mem \<Rightarrow> bool" where
  "cmd_store_ok m \<longleftrightarrow> (\<forall>h c. find_cmd h m = Some c \<longrightarrow> cmd_hash c = h)"

interpretation blks: entity_store find_blk add_blk "\<lambda>m r. hash (heap m r)" blk_store_ok
  by unfold_locales
     (auto simp: find_blk_def add_blk_def blk_store_ok_def Let_def split: if_splits)

interpretation cs: entity_store find_cmd add_cmd "\<lambda>_. cmd_hash" cmd_store_ok
  by unfold_locales
     (auto simp: find_cmd_def add_cmd_def cmd_store_ok_def Let_def split: if_splits)

lemma add_blk_frame [simp, frame_simps]:
  "heap (snd (add_blk r m)) = heap m"
  "nxt (snd (add_blk r m)) = nxt m"
  "cmd_cache (snd (add_blk r m)) = cmd_cache m"
  by (simp_all add: add_blk_def Let_def)

lemma upd_blk_frame [simp, frame_simps]:
  "heap (upd_blk r f m) = (heap m)(r := f (heap m r))"
  "nxt (upd_blk r f m) = nxt m"
  "blk_cache (upd_blk r f m) = blk_cache m"
  "cmd_cache (upd_blk r f m) = cmd_cache m"
  "find_blk h (upd_blk r f m) = find_blk h m"
  by (simp_all add: upd_blk_def find_blk_def)

text \<open>The memory after allocating \<open>b\<close> and storing it under its hash.\<close>

lemma add_blk_move_steps:
  assumes "add_blk_move b m = (r, m')"
  shows "nxt m' = Suc (nxt m)" "heap m' = (heap m)(nxt m := b)"
    "find_blk h m' = (if h = hash b \<and> find_blk h m = None then Some (nxt m) else find_blk h m)"
    "find_blk (hash b) m' = Some r"
proof -
  let ?m = "m\<lparr>heap := (heap m)(nxt m := b), nxt := Suc (nxt m)\<rparr>"
  from assms have m': "m' = snd (add_blk (nxt m) ?m)" "r = fst (add_blk (nxt m) ?m)"
    by (simp_all add: add_blk_move_def alloc_blk_def)
  show "nxt m' = Suc (nxt m)" "heap m' = (heap m)(nxt m := b)"
    "find_blk h m' = (if h = hash b \<and> find_blk h m = None then Some (nxt m) else find_blk h m)"
    "find_blk (hash b) m' = Some r"
    using blks.find_add [of h "nxt m" ?m] blks.add_result [of ?m "nxt m"]
    by (auto simp: m' find_blk_def)
qed

section \<open>Serialized blocks\<close>

lemma get_put_len: "stream_laws E \<Longrightarrow> n < 2 ^ 32 \<Longrightarrow> get_len E (put_len E n @ s) = Inr (n, s)"
proof -
  assume E: "stream_laws E" and n: "n < 2 ^ 32"
  have "unat (htole32 E (of_nat n)) < 256 ^ 4"
    using unsigned_less [of "htole32 E (of_nat n)", where 'a = nat] by simp
  with E n show ?thesis
    by (simp add: get_len_def put_len_def stream_simps unsigned_of_nat take_bit_nat_eq_self)
qed

lemma get_put_hashes:
  "stream_laws E \<Longrightarrow> get_hashes_n E (length hs) (put_hashes E hs @ s) = Inr (hs, s)"
  by (induction hs) (simp_all add: put_hashes_def stream_simps)

lemma get_put_extra:
  assumes "stream_laws E"
  shows "(if ex = [] then Inr ([], put_data E ex @ s)
          else rd (get_data E (length ex) (put_data E ex @ s))) = Inr (ex, s)"
  using stream_simps(4) [OF assms, of ex s] stream_simps(6) [OF assms] by simp

text \<open>Certificates whose serialized form determines them: a dummy, or an aggregate with no
  pending signature and an up-to-date counter.\<close>

fun qc_exact :: "('p, 'k, 's, 'b) env \<Rightarrow> scheme \<Rightarrow> ('s, 'b) QuorumCert \<Rightarrow> bool" where
  "qc_exact E NoSig (QDummy c) = True"
| "qc_exact E AggBLS (QAgg c) = (agg_sigs c = [] \<and> agg_n c = count_bits E (agg_rids c))"
| "qc_exact E _ _ = False"

lemma parse_serialize_qc:
  assumes "stream_laws E" "sig_codec_laws E" "qc_exact E sch q" "qc_serialize E q = Inr bs"
  shows "parse_quorum_cert E sch (bs @ s) = Inr (q, s)"
  using assms by (cases "(E, sch, q)" rule: qc_exact.cases) (auto simp: dummy_roundtrip agg_roundtrip)

lemma block_roundtrip:
  assumes "stream_laws E" "sig_codec_laws E" "blk_qc b = Some q" "qc_exact E sch q"
    and "length (parent_hashes b) < 2 ^ 32" "length (cmds b) < 2 ^ 32" "length (extra b) < 2 ^ 32"
    and "block_serialize E b = Inr bs"
  shows "block_unserialize E sch (bs @ s) =
    Inr ((Block_default E)\<lparr>parent_hashes := parent_hashes b, cmds := cmds b, blk_qc := blk_qc b,
           extra := extra b, hash := sha256 E bs\<rparr>, s)"
proof -
  obtain qb where qb: "qc_serialize E q = Inr qb"
    and bs: "bs = put_len E (length (parent_hashes b)) @ put_hashes E (parent_hashes b) @
            put_len E (length (cmds b)) @ put_hashes E (cmds b) @
            qb @ put_len E (length (extra b)) @ put_data E (extra b)"
    using assms(3,8) by (auto simp: block_serialize_def block_bytes_def res_iff)
  have hash: "block_hash E (parent_hashes b) (cmds b) (Some q) (extra b) = Inr (sha256 E bs)"
    using assms(3,8) by (simp add: block_hash_def block_serialize_def)
  show ?thesis
    using assms(1-7) hash parse_serialize_qc [OF assms(1,2,4) qb]
    by (simp add: bs block_unserialize_def get_put_len get_put_hashes get_put_extra del: rd_simps)
qed

end
