(* ===== verification/Hs_Core.thy ===== *)
theory Hs_Core
  imports Hs_Entity
begin

text \<open>
  The protocol state machine \<open>HotStuffCore\<close>
  (\<^verbatim>\<open>include/hotstuff/consensus.h\<close>,
  \<^verbatim>\<open>src/consensus.cpp\<close>): its state as the record \<open>core\<close>, one definition
  per member function.

  The calls by which the class reports to its user (the virtual functions \<open>do_decide\<close>,
  \<open>do_consensus\<close>, \<open>do_broadcast_proposal\<close>, \<open>do_vote\<close>, and the
  resolution of the promises the pacemaker waits on) are its outputs: each is appended to
  \<open>outs\<close> at the point of the call. Readings of \<open>gettimeofday\<close> are arguments.
\<close>

section \<open>Messages and outputs\<close>

record Proposal =
  proposer :: ReplicaID
  prop_blk :: blkref

record 's Vote =
  voter :: ReplicaID
  v_blk_hash :: uint256
  v_cert :: "'s part_cert option"

record ('s, 'b) VoteRelay =
  vr_blk_hash :: uint256
  vr_cert :: "('s, 'b) QuorumCert option"

record Finality =
  fin_rid :: ReplicaID
  fin_decision :: u8
  fin_cmd_idx :: u32
  fin_cmd_height :: u32
  fin_cmd_hash :: uint256
  fin_blk_hash :: uint256

datatype 's out_event =
    OutDecide Finality
  | OutConsensus blkref
  | OutBroadcast Proposal
  | OutVote Proposal "'s Vote"
  | OutQcFinish blkref
  | OutHqcUpdate
  | OutPropose Proposal
  | OutReceiveProposal Proposal

section \<open>State\<close>

record ('p, 'k, 's, 'b) core =
  sch :: scheme
  my_id :: ReplicaID
  priv_key :: 'p
  config :: "'k ReplicaConfig"
  mem :: "('s, 'b) mem"
  b0 :: blkref
  b_lock :: blkref
  b_exec :: blkref
  tails :: "blkref set"
  qc_waiting :: "blkref set"
  vote_disabled :: bool
  hqc :: "(blkref \<times> ('s, 'b) QuorumCert) option"    \<comment> \<open>null until \<open>on_init\<close>\<close>
  vheight :: u32
  piped_queue :: "uint256 list"
  rdy_queue :: "uint256 list"
  b_normal_height :: u32
  stats :: "(uint256 \<times> int) list"
  piped_submitted :: bool
  last_block_time :: timeval
  numberOfChildren :: u16
  summed_latency :: u64
  processed_blocks :: u64
  proposal_time :: "(uint256 \<times> timeval) list"
  outs :: "'s out_event list"

abbreviation blk :: "('p, 'k, 's, 'b) core \<Rightarrow> blkref \<Rightarrow> ('s, 'b) Block" where
  "blk st r \<equiv> heap (mem st) r"

abbreviation emit :: "'s out_event \<Rightarrow> ('p, 'k, 's, 'b) core \<Rightarrow> ('p, 'k, 's, 'b) core" where
  "emit x st \<equiv> st\<lparr>outs := outs st @ [x]\<rparr>"

abbreviation set_blk ::
  "blkref \<Rightarrow> (('s, 'b) Block \<Rightarrow> ('s, 'b) Block) \<Rightarrow> ('p, 'k, 's, 'b) core \<Rightarrow> ('p, 'k, 's, 'b) core" where
  "set_blk r f st \<equiv> st\<lparr>mem := upd_blk r f (mem st)\<rparr>"

text \<open>The constructor does not initialise the two latency counters and the time of the last
  block: they are arguments.\<close>

definition HotStuffCore_new ::
  "('p, 'k, 's, 'b) env \<Rightarrow> scheme \<Rightarrow> ReplicaID \<Rightarrow> 'p \<Rightarrow> u64 \<Rightarrow> u64 \<Rightarrow> timeval \<Rightarrow> ('p, 'k, 's, 'b) core res" where
  "HotStuffCore_new E sc i sk lat0 cnt0 t0 =
     bind (Block_genesis E True 1) (\<lambda>g.
       let (r, m1) = alloc_blk g \<lparr>heap = (\<lambda>_. Block_default E), nxt = 0, blk_cache = [], cmd_cache = []\<rparr>;
           (_, m2) = add_blk r m1 in
       Inr \<lparr>sch = sc, my_id = i, priv_key = sk, config = ReplicaConfig_new, mem = m2,
            b0 = r, b_lock = r, b_exec = r, tails = {r}, qc_waiting = {}, vote_disabled = False,
            hqc = None, vheight = 0, piped_queue = [], rdy_queue = [], b_normal_height = 0,
            stats = [], piped_submitted = False, last_block_time = t0, numberOfChildren = 0,
            summed_latency = lat0, processed_blocks = cnt0, proposal_time = [], outs = []\<rparr>)"

section \<open>Lookups\<close>

definition sanity_check_delivered :: "blkref \<Rightarrow> ('p, 'k, 's, 'b) core \<Rightarrow> unit res" where
  "sanity_check_delivered r st = guard (delivered (blk st r)) (RuntimeError ''block not delivered'')"

definition get_potentially_not_delivered_blk :: "uint256 \<Rightarrow> ('p, 'k, 's, 'b) core \<Rightarrow> blkref res" where
  "get_potentially_not_delivered_blk h st =
     (case find_blk h (mem st) of
        None \<Rightarrow> Inl (RuntimeError ''block not delivered 1'')
      | Some r \<Rightarrow> Inr r)"

definition get_delivered_blk :: "uint256 \<Rightarrow> ('p, 'k, 's, 'b) core \<Rightarrow> blkref res" where
  "get_delivered_blk h st =
     (case find_blk h (mem st) of
        None \<Rightarrow> Inl (RuntimeError ''block not delivered '')
      | Some r \<Rightarrow> if delivered (blk st r) then Inr r else Inl (RuntimeError ''block not delivered ''))"

section \<open>Delivery\<close>

text \<open>A parent in the pipeline is taken from the storage whether it is delivered or not.\<close>

definition resolve_parent :: "('p, 'k, 's, 'b) core \<Rightarrow> uint256 \<Rightarrow> blkref res" where
  "resolve_parent st h =
     (if piped_queue st \<noteq> [] \<and> h \<in> set (piped_queue st) then deref (find_blk h (mem st))
      else get_delivered_blk h st)"

fun resolve_parents :: "('p, 'k, 's, 'b) core \<Rightarrow> uint256 list \<Rightarrow> blkref list res" where
  "resolve_parents st [] = Inr []"
| "resolve_parents st (h # hs) =
     bind (resolve_parent st h) (\<lambda>p. bind (resolve_parents st hs) (\<lambda>ps. Inr (p # ps)))"

definition resolve_qc_ref :: "blkref \<Rightarrow> ('p, 'k, 's, 'b) core \<Rightarrow> blkref option res" where
  "resolve_qc_ref r st =
     (case blk_qc (blk st r) of
        None \<Rightarrow> Inr (qc_ref (blk st r))
      | Some q \<Rightarrow>
          (case find_blk (qc_obj_hash q) (mem st) of
             None \<Rightarrow> Inl (RuntimeError ''block referred by qc not fetched'')
           | Some x \<Rightarrow> Inr (Some x)))"

text \<open>The latency statistics kept for blocks above height 50.\<close>

definition record_latency :: "blkref \<Rightarrow> timeval \<Rightarrow> ('p, 'k, 's, 'b) core \<Rightarrow> ('p, 'k, 's, 'b) core" where
  "record_latency r now st =
     (if height (blk st r) > 50 then
        let st1 = st\<lparr>proposal_time := umap_put (hash (blk st r)) now (proposal_time st)\<rparr> in
        case qc_ref (blk st1 r) of
          None \<Rightarrow> st1
        | Some q \<Rightarrow>
            (case map_of (proposal_time st1) (hash (blk st1 q)) of
               None \<Rightarrow> st1
             | Some start \<Rightarrow>
                 st1\<lparr>processed_blocks := processed_blocks st1 + 1,
                     summed_latency := summed_latency st1 + of_int (c_div (usec_between start now) 1000)\<rparr>)
      else st)"

definition on_deliver_blk ::
  "blkref \<Rightarrow> timeval \<Rightarrow> ('p, 'k, 's, 'b) core \<Rightarrow> (bool \<times> ('p, 'k, 's, 'b) core) res" where
  "on_deliver_blk r now st =
     (if delivered (blk st r) then Inr (False, st)
      else
        bind (resolve_parents st (parent_hashes (blk st r))) (\<lambda>ps.
        bind (front ps) (\<lambda>p.
        bind (resolve_qc_ref r st) (\<lambda>q.
          let st1 = set_blk r (\<lambda>b. b\<lparr>parents := ps, height := height (blk st p) + 1,
                                    qc_ref := q, delivered := True\<rparr>) st;
              st2 = st1\<lparr>tails := insert r (tails st1 - set ps)\<rparr> in
          Inr (True, record_latency r now st2)))))"

section \<open>The commit rule\<close>

definition on_hqc_update :: "('p, 'k, 's, 'b) core \<Rightarrow> ('p, 'k, 's, 'b) core" where
  "on_hqc_update st = emit OutHqcUpdate st"

definition update_hqc ::
  "blkref \<Rightarrow> ('s, 'b) QuorumCert option \<Rightarrow> ('p, 'k, 's, 'b) core \<Rightarrow> ('p, 'k, 's, 'b) core res" where
  "update_hqc r q st =
     bind (deref (hqc st)) (\<lambda>(hr, hq).
       if height (blk st r) > height (blk st hr) then
         bind (deref q) (\<lambda>c. Inr (on_hqc_update (st\<lparr>hqc := Some (r, qc_clone c)\<rparr>)))
       else Inr st)"

text \<open>The two loops that follow \<open>parents[0]\<close> down to a height.\<close>

partial_function (option) walk_down ::
  "(blkref \<Rightarrow> ('s, 'b) Block) \<Rightarrow> u32 \<Rightarrow> blkref \<Rightarrow> blkref res option" where
  "walk_down hp lim b =
     (if height (hp b) > lim then
        (case parents (hp b) of [] \<Rightarrow> Some (Inl OutOfRange) | p # _ \<Rightarrow> walk_down hp lim p)
      else Some (Inr b))"

partial_function (option) commit_loop ::
  "(blkref \<Rightarrow> ('s, 'b) Block) \<Rightarrow> u32 \<Rightarrow> blkref \<Rightarrow> blkref list \<Rightarrow> (blkref list \<times> blkref) res option" where
  "commit_loop hp lim b queue =
     (if height (hp b) > lim then
        (case parents (hp b) of
           [] \<Rightarrow> Some (Inl OutOfRange)
         | p # _ \<Rightarrow> commit_loop hp lim p (queue @ [b]))
      else Some (Inr (queue, b)))"

definition finalities :: "('p, 'k, 's, 'b) core \<Rightarrow> blkref \<Rightarrow> Finality list" where
  "finalities st r =
     map (\<lambda>i. \<lparr>fin_rid = my_id st, fin_decision = 1, fin_cmd_idx = of_nat i,
               fin_cmd_height = height (blk st r), fin_cmd_hash = cmds (blk st r) ! i,
               fin_blk_hash = hash (blk st r)\<rparr>) [0..<length (cmds (blk st r))]"

definition decide_blk :: "blkref \<Rightarrow> ('p, 'k, 's, 'b) core \<Rightarrow> ('p, 'k, 's, 'b) core" where
  "decide_blk r st =
     (let st1 = set_blk r (\<lambda>b. b\<lparr>decision := 1\<rparr>) st in
      st1\<lparr>outs := outs st1 @ [OutConsensus r] @ map OutDecide (finalities st1 r)\<rparr>)"

definition commit :: "blkref \<Rightarrow> ('p, 'k, 's, 'b) core \<Rightarrow> ('p, 'k, 's, 'b) core res" where
  "commit r st =
     bind (run_loop (commit_loop (heap (mem st)) (height (blk st (b_exec st))) r [])) (\<lambda>(queue, b).
       if b \<noteq> b_exec st then Inl (RuntimeError ''safety breached :( '')
       else Inr ((fold decide_blk (rev queue) st)\<lparr>b_exec := r\<rparr>))"

definition update :: "blkref \<Rightarrow> ('p, 'k, 's, 'b) core \<Rightarrow> ('p, 'k, 's, 'b) core res" where
  "update nblk st =
     (case qc_ref (blk st nblk) of None \<Rightarrow> Inr st | Some blk2 \<Rightarrow>
      if decision (blk st blk2) \<noteq> 0 then Inr st else
      bind (update_hqc blk2 (blk_qc (blk st nblk)) st) (\<lambda>st.
      case qc_ref (blk st blk2) of None \<Rightarrow> Inr st | Some blk1 \<Rightarrow>
      if decision (blk st blk1) \<noteq> 0 then Inr st else
      let st = (if height (blk st blk1) > height (blk st (b_lock st)) then st\<lparr>b_lock := blk1\<rparr> else st) in
      case qc_ref (blk st blk1) of None \<Rightarrow> Inr st | Some b \<Rightarrow>
      if decision (blk st b) \<noteq> 0 then Inr st else
      bind (front (parents (blk st blk2))) (\<lambda>p2.
      if p2 \<noteq> blk1 then Inr st else
      bind (front (parents (blk st blk1))) (\<lambda>p1.
      if p1 \<noteq> b then Inr st else commit b st))))"

text \<open>The two-step variant selected by \<open>HOTSTUFF_TWO_STEP\<close>.\<close>

definition update_two_step :: "blkref \<Rightarrow> ('p, 'k, 's, 'b) core \<Rightarrow> ('p, 'k, 's, 'b) core res" where
  "update_two_step nblk st =
     (case qc_ref (blk st nblk) of None \<Rightarrow> Inr st | Some blk1 \<Rightarrow>
      if decision (blk st blk1) \<noteq> 0 then Inr st else
      bind (update_hqc blk1 (blk_qc (blk st nblk)) st) (\<lambda>st.
      let st = (if height (blk st blk1) > height (blk st (b_lock st)) then st\<lparr>b_lock := blk1\<rparr> else st) in
      case qc_ref (blk st blk1) of None \<Rightarrow> Inr st | Some b \<Rightarrow>
      if decision (blk st b) \<noteq> 0 then Inr st else
      bind (front (parents (blk st blk1))) (\<lambda>p1.
      if p1 \<noteq> b then Inr st else commit b st)))"

section \<open>Votes and proposals\<close>

definition on_qc_finish :: "blkref \<Rightarrow> ('p, 'k, 's, 'b) core \<Rightarrow> ('p, 'k, 's, 'b) core" where
  "on_qc_finish r st =
     (if r \<in> qc_waiting st then emit (OutQcFinish r) (st\<lparr>qc_waiting := qc_waiting st - {r}\<rparr>) else st)"

definition nmaj :: "('p, 'k, 's, 'b) core \<Rightarrow> u32" where
  "nmaj st = ucast (nmajority (config st))"

text \<open>The quorum part of \<open>on_receive_vote\<close>, for the replica's own vote.\<close>

definition count_own_vote ::
  "('p, 'k, 's, 'b) env \<Rightarrow> blkref \<Rightarrow> ReplicaID \<Rightarrow> 's part_cert \<Rightarrow>
     ('p, 'k, 's, 'b) core \<Rightarrow> ('p, 'k, 's, 'b) core res" where
  "count_own_vote E r v pc st =
     (let q0 = (case self_qc (blk st r) of
                  None \<Rightarrow> create_quorum_cert E (sch st) (config st) (hash (blk st r))
                | Some q \<Rightarrow> q) in
      bind (qc_add_part E (config st) v pc q0) (\<lambda>q.
        if qc_has_n (nmaj st) q then
          let q' = qc_compute E q in
          bind (update_hqc r (Some q') (set_blk r (\<lambda>b. b\<lparr>self_qc := Some q'\<rparr>) st)) (\<lambda>st.
            Inr (on_qc_finish r st))
        else Inr (set_blk r (\<lambda>b. b\<lparr>self_qc := Some q\<rparr>) st)))"

definition on_receive_vote ::
  "('p, 'k, 's, 'b) env \<Rightarrow> 's Vote \<Rightarrow> ('p, 'k, 's, 'b) core \<Rightarrow> ('p, 'k, 's, 'b) core res" where
  "on_receive_vote E v st =
     bind (get_delivered_blk (v_blk_hash v) st) (\<lambda>r.
     case v_cert v of None \<Rightarrow> Inl AssertFail | Some pc \<Rightarrow>
     if voter v \<in> voted (blk st r) then Inr st else
     let st = set_blk r (\<lambda>b. b\<lparr>voted := insert (voter v) (voted b)\<rparr>) st in
     if voter v \<noteq> my_id st then Inr st else
     if (case blk_qc (blk st r) of None \<Rightarrow> False | Some q \<Rightarrow> qc_has_n (nmaj st) q) then Inr st
     else count_own_vote E r (voter v) pc st)"

definition own_vote :: "('p, 'k, 's, 'b) env \<Rightarrow> ('p, 'k, 's, 'b) core \<Rightarrow> uint256 \<Rightarrow> 's Vote" where
  "own_vote E st h = \<lparr>voter = my_id st, v_blk_hash = h,
     v_cert = Some (create_part_cert E (sch st) (priv_key st) h)\<rparr>"

definition process_block ::
  "('p, 'k, 's, 'b) env \<Rightarrow> blkref \<Rightarrow> bool \<Rightarrow> timeval \<Rightarrow> ('p, 'k, 's, 'b) core \<Rightarrow>
     (Proposal \<times> ('p, 'k, 's, 'b) core) res" where
  "process_block E r adjustHeight now st =
     (let h = hash (blk st r);
          st = (if self_qc (blk st r) = None then
                  set_blk r (\<lambda>b. b\<lparr>self_qc := Some (create_quorum_cert E (sch st) (config st) h)\<rparr>) st
                else st) in
      bind (on_deliver_blk r now st) (\<lambda>(_, st).
      bind (update r st) (\<lambda>st.
      let prop = \<lparr>proposer = my_id st, prop_blk = r\<rparr> in
      bind (if adjustHeight then
              if height (blk st r) \<le> vheight st
              then Inl (RuntimeError ''new block should be higher than vheight'')
              else Inr (st\<lparr>vheight := height (blk st r)\<rparr>)
            else Inr st) (\<lambda>st.
      bind (on_receive_vote E (own_vote E st h) st) (\<lambda>st.
        Inr (prop, emit (OutPropose prop) st))))))"

definition new_blk ::
  "('p, 'k, 's, 'b) env \<Rightarrow> blkref list \<Rightarrow> uint256 list \<Rightarrow> bytes \<Rightarrow> blkref option \<Rightarrow>
     ('p, 'k, 's, 'b) core \<Rightarrow> (blkref \<times> ('p, 'k, 's, 'b) core) res" where
  "new_blk E ps cm ex qref st =
     bind (deref (hqc st)) (\<lambda>(hr, hq).
     bind (front ps) (\<lambda>p.
     bind (Block_new E (map (\<lambda>r. (r, hash (blk st r))) ps) cm (Some (qc_clone hq)) ex
             (height (blk st p) + 1) qref None 0) (\<lambda>b.
       let (r0, m1) = alloc_blk b (mem st); (r, m2) = add_blk r0 m1 in Inr (r, st\<lparr>mem := m2\<rparr>))))"

definition on_propose ::
  "('p, 'k, 's, 'b) env \<Rightarrow> uint256 list \<Rightarrow> blkref list \<Rightarrow> bytes \<Rightarrow> timeval \<Rightarrow> timeval \<Rightarrow> timeval \<Rightarrow>
     ('p, 'k, 's, 'b) core \<Rightarrow> (blkref \<times> ('p, 'k, 's, 'b) core) res" where
  "on_propose E cm ps ex t_start t_deliver t_end st =
     (case ps of [] \<Rightarrow> Inl (RuntimeError ''empty parents'') | p # _ \<Rightarrow>
      let st = st\<lparr>tails := tails st - set ps\<rparr> in
      bind (if piped_queue st = [] then Inr ps
            else
              bind (deref (find_blk (last (piped_queue st)) (mem st))) (\<lambda>pb.
                Inr (if height (blk st p) \<le> height (blk st pb) then pb # ps else ps))) (\<lambda>nps.
      bind (new_blk E nps cm ex (map_option fst (hqc st)) st) (\<lambda>(r, st).
      let st = st\<lparr>b_normal_height := height (blk st r)\<rparr> in
      bind (process_block E r True t_deliver st) (\<lambda>(prop, st).
      let st = emit (OutBroadcast prop) st;
          st = (if my_id st = 0
                then st\<lparr>stats := umap_insert (hash (blk st r)) (usec_between t_start t_end) (stats st)\<rparr>
                else st) in
      Inr (r, st)))))"

text \<open>The opinion of \<open>on_receive_proposal\<close>: the liveness condition, else the safety
  condition that the block extends the locked branch.\<close>

definition opinion :: "blkref \<Rightarrow> ('p, 'k, 's, 'b) core \<Rightarrow> bool res" where
  "opinion r st =
     (if height (blk st r) > vheight st then
        if (case qc_ref (blk st r) of None \<Rightarrow> False
            | Some q \<Rightarrow> height (blk st q) > height (blk st (b_lock st)))
        then Inr True
        else bind (run_loop (walk_down (heap (mem st)) (height (blk st (b_lock st))) r)) (\<lambda>b.
               Inr (b = b_lock st))
      else Inr False)"

definition on_receive_proposal ::
  "('p, 'k, 's, 'b) env \<Rightarrow> Proposal \<Rightarrow> ('p, 'k, 's, 'b) core \<Rightarrow> ('p, 'k, 's, 'b) core res" where
  "on_receive_proposal E prop st =
     (let r = prop_blk prop in
      bind (sanity_check_delivered r st) (\<lambda>_.
      bind (update r st) (\<lambda>st.
      bind (opinion r st) (\<lambda>op.
      let st = (if op then st\<lparr>vheight := height (blk st r)\<rparr> else st);
          st = (case qc_ref (blk st r) of None \<Rightarrow> st | Some q \<Rightarrow> on_qc_finish q st);
          st = emit (OutReceiveProposal prop) st in
      Inr (if op \<and> \<not> vote_disabled st
           then emit (OutVote prop (own_vote E st (hash (blk st r)))) st else st)))))"

section \<open>Initialisation, configuration and waiting\<close>

definition on_init :: "('p, 'k, 's, 'b) env \<Rightarrow> u32 \<Rightarrow> ('p, 'k, 's, 'b) core \<Rightarrow> ('p, 'k, 's, 'b) core" where
  "on_init E nfaulty st =
     (let st = st\<lparr>config := (config st)\<lparr>nmajority := nreplicas (config st) - ucast nfaulty\<rparr>\<rparr>;
          q = create_quorum_cert E (sch st) (config st) (hash (blk st (b0 st)));
          st = set_blk (b0 st) (\<lambda>b. b\<lparr>blk_qc := Some q, self_qc := Some (qc_clone q),
                                     qc_ref := Some (b0 st)\<rparr>) st in
      st\<lparr>hqc := Some (b0 st, qc_clone q)\<rparr>)"

definition add_replica ::
  "ReplicaID \<Rightarrow> PeerId \<Rightarrow> 'k \<Rightarrow> ('p, 'k, 's, 'b) core \<Rightarrow> ('p, 'k, 's, 'b) core" where
  "add_replica rid peer pk st =
     set_blk (b0 st) (\<lambda>b. b\<lparr>voted := insert rid (voted b)\<rparr>)
       (st\<lparr>config := add_replica_cfg rid \<lparr>ri_id = rid, ri_peer_id = peer, ri_pubkey = pk\<rparr> (config st)\<rparr>)"

text \<open>A promise that is already resolved, or the one stored under the block.\<close>

datatype qc_promise = Resolved | WaitingFor blkref

definition async_qc_finish ::
  "blkref \<Rightarrow> ('p, 'k, 's, 'b) core \<Rightarrow> qc_promise \<times> ('p, 'k, 's, 'b) core" where
  "async_qc_finish r st =
     (if (case self_qc (blk st r) of None \<Rightarrow> False
          | Some q \<Rightarrow> qc_has_n (nmaj st) q \<and> voted (blk st r) \<noteq> {}) \<or>
         card (voted (blk st r)) \<ge> unat (nmajority (config st))
      then (Resolved, st)
      else (WaitingFor r, st\<lparr>qc_waiting := insert r (qc_waiting st)\<rparr>))"

definition set_fanout :: "32 word \<Rightarrow> ('p, 'k, 's, 'b) core \<Rightarrow> ('p, 'k, 's, 'b) core" where
  "set_fanout f st = st\<lparr>config := (config st)\<lparr>fanout := f\<rparr>\<rparr>"

definition set_piped_latency ::
  "32 word \<Rightarrow> 32 word \<Rightarrow> ('p, 'k, 's, 'b) core \<Rightarrow> ('p, 'k, 's, 'b) core" where
  "set_piped_latency lat ab st = st\<lparr>config := (config st)\<lparr>piped_latency := lat, async_blocks := ab\<rparr>\<rparr>"

definition set_vote_disabled :: "bool \<Rightarrow> ('p, 'k, 's, 'b) core \<Rightarrow> ('p, 'k, 's, 'b) core" where
  "set_vote_disabled f st = st\<lparr>vote_disabled := f\<rparr>"

end
