(* ===== verification/Hs_Sample.thy ===== *)
theory Hs_Sample
  imports Hs_Config
begin

text \<open>
  An executable instance of the third-party operations: little-endian integers, bit vectors as
  lists of booleans, a polynomial checksum for the hash and an additive signature scheme. It
  satisfies every law the development assumes of the environment, so the theorems that assume
  them are not vacuous, and runs of the model on it can be computed.
\<close>

fun sample_put :: "nat \<Rightarrow> nat \<Rightarrow> bytes" where
  "sample_put 0 v = []"
| "sample_put (Suc k) v = of_nat (v mod 256) # sample_put k (v div 256)"

fun sample_get :: "nat \<Rightarrow> bytes \<Rightarrow> (nat \<times> bytes) option" where
  "sample_get 0 s = Some (0, s)"
| "sample_get (Suc k) [] = None"
| "sample_get (Suc k) (b # s) =
     (case sample_get k s of None \<Rightarrow> None | Some (v, s') \<Rightarrow> Some (unat b + 256 * v, s'))"

fun sample_put_bits :: "bool list \<Rightarrow> bytes" where
  "sample_put_bits [] = [0]"
| "sample_put_bits (b # bs) = (if b then 1 else 2) # sample_put_bits bs"

fun sample_get_bits :: "bytes \<Rightarrow> (bool list \<times> bytes) option" where
  "sample_get_bits [] = None"
| "sample_get_bits (x # s) =
     (if x = 0 then Some ([], s)
      else case sample_get_bits s of None \<Rightarrow> None | Some (bs, s') \<Rightarrow> Some ((x = 1) # bs, s'))"

definition sample_env :: "(uint256, uint256, uint256, bool list) env" where
  "sample_env = \<lparr>bits_new = \<lambda>n. replicate n False, bits_size = length, bits_get = nth,
     bits_set = \<lambda>b i. b[i := True], u256_default = 0,
     put_int = sample_put, get_int = sample_get,
     put_u256 = \<lambda>h. sample_put 32 (unat h),
     get_u256 = \<lambda>s. map_option (\<lambda>(v, s'). (of_nat v, s')) (sample_get 32 s),
     put_data = \<lambda>d. d, get_data = \<lambda>n s. if length s < n then None else Some (take n s, drop n s),
     put_bits = sample_put_bits, get_bits = sample_get_bits,
     htole32 = \<lambda>x. x, letoh32 = \<lambda>x. x,
     sha256 = foldl (\<lambda>h b. h * 257 + ucast b + 1) 0,
     sig_sign = (+), sig_verify = \<lambda>k h s. s = k + h, sig_aggregate = sum_list,
     sig_fast_verify = \<lambda>ks h s. s = sum_list (map (\<lambda>k. k + h) ks),
     sig_size = 32, sig_ser = \<lambda>x. sample_put 32 (unat x),
     sig_des = \<lambda>s. case sample_get 32 s of None \<Rightarrow> Inl (RuntimeError ''signature'') | Some (v, _) \<Rightarrow> Inr (of_nat v)\<rparr>"

lemma sample_get_put: "v < 256 ^ k \<Longrightarrow> sample_get k (sample_put k v @ s) = Some (v, s)"
  by (induction k arbitrary: v) (simp_all add: less_mult_imp_div_less mult.commute unat_of_nat)

lemma sample_get_put_bits: "sample_get_bits (sample_put_bits b @ s) = Some (b, s)"
  by (induction b) simp_all

lemma length_sample_put: "length (sample_put k v) = k"
  by (induction k arbitrary: v) simp_all

lemma sample_get_put_u256:
  "sample_get 32 (sample_put 32 (unat (h :: uint256)) @ s) = Some (unat h, s)"
  using unsigned_less [of h, where 'a = nat] by (intro sample_get_put) simp

lemma sample_laws [simp]: "bits_laws sample_env" "stream_laws sample_env" "sig_codec_laws sample_env"
proof -
  show "bits_laws sample_env" by (simp add: bits_laws_def sample_env_def nth_list_update)
  show "stream_laws sample_env"
    by (simp add: stream_laws_def sample_env_def sample_get_put sample_get_put_u256 sample_get_put_bits)
  show "sig_codec_laws sample_env"
    using sample_get_put_u256 [where s = "[]"]
    by (simp add: sig_codec_laws_def sample_env_def length_sample_put)
qed

end
