(* ===== verification/Hs_Wire.thy ===== *)
theory Hs_Wire
  imports Hs_Core Hs_Sample
begin

text \<open>
  The messages on the wire: \<open>Proposal\<close>, \<open>Vote\<close>, \<open>VoteRelay\<close> and
  \<open>Finality\<close> (\<^verbatim>\<open>include/hotstuff/consensus.h\<close>), the network messages around them
  (\<^verbatim>\<open>include/hotstuff/hotstuff.h\<close>, \<^verbatim>\<open>src/hotstuff.cpp\<close>) and
  the client's commands and replies (\<^verbatim>\<open>include/hotstuff/client.h\<close>). A stream
  is a list of bytes; a message is the stream it serializes to, and parsing returns the value with
  the unread rest. A block that is parsed is put into the storage of the core.
\<close>

section \<open>The contract of a wire format\<close>

locale codec =
  fixes put :: "'a \<Rightarrow> bytes res" and get :: "bytes \<Rightarrow> ('a \<times> bytes) res" and ok :: "'a \<Rightarrow> bool"
  assumes get_put: "ok x \<Longrightarrow> put x = Inr bs \<Longrightarrow> get (bs @ s) = Inr (x, s)"
begin

lemma get_put_exact: "ok x \<Longrightarrow> put x = Inr bs \<Longrightarrow> get bs = Inr (x, [])"
  using get_put [of x bs "[]"] by simp

text \<open>No encoding is a proper prefix of another.\<close>

lemma put_prefix_free:
  assumes "ok x" "ok y" "put x = Inr bs" "put y = Inr (bs @ t)"
  shows "x = y \<and> t = []"
  using get_put [OF assms(1,3), of t] get_put [OF assms(2,4), of "[]"] by simp

lemma put_inj: "ok x \<Longrightarrow> ok y \<Longrightarrow> put x = Inr bs \<Longrightarrow> put y = Inr bs \<Longrightarrow> x = y"
  using put_prefix_free [of x y bs "[]"] by simp

end

section \<open>Consensus messages\<close>

definition put_rid :: "('p, 'k, 's, 'b) env \<Rightarrow> ReplicaID \<Rightarrow> bytes" where
  "put_rid E i = put_int E 2 (unat i)"

definition get_rid :: "('p, 'k, 's, 'b) env \<Rightarrow> bytes \<Rightarrow> (ReplicaID \<times> bytes) res" where
  "get_rid E s = bind (rd (get_int E 2 s)) (\<lambda>(n, s'). Inr (of_nat n, s'))"

definition proposal_serialize :: "('p, 'k, 's, 'b) env \<Rightarrow> Proposal \<Rightarrow> ('p, 'k, 's, 'b) core \<Rightarrow> bytes res" where
  "proposal_serialize E prop st =
     bind (block_serialize E (blk st (prop_blk prop))) (\<lambda>bs. Inr (put_rid E (proposer prop) @ bs))"

definition store_blk :: "('s, 'b) Block \<Rightarrow> ('p, 'k, 's, 'b) core \<Rightarrow> blkref \<times> ('p, 'k, 's, 'b) core" where
  "store_blk b st = (let (r, m) = add_blk_move b (mem st) in (r, st\<lparr>mem := m\<rparr>))"

definition proposal_unserialize ::
  "('p, 'k, 's, 'b) env \<Rightarrow> bytes \<Rightarrow> ('p, 'k, 's, 'b) core \<Rightarrow> (Proposal \<times> bytes \<times> ('p, 'k, 's, 'b) core) res" where
  "proposal_unserialize E s st =
     bind (get_rid E s) (\<lambda>(i, s1).
     bind (block_unserialize E (sch st) s1) (\<lambda>(b, s2).
       let (r, st') = store_blk b st in Inr (\<lparr>proposer = i, prop_blk = r\<rparr>, s2, st')))"

definition vote_serialize :: "('p, 'k, 's, 'b) env \<Rightarrow> 's Vote \<Rightarrow> bytes res" where
  "vote_serialize E v =
     bind (deref (v_cert v)) (\<lambda>pc. Inr (put_rid E (voter v) @ put_u256 E (v_blk_hash v) @ pc_serialize E pc))"

definition vote_unserialize :: "('p, 'k, 's, 'b) env \<Rightarrow> scheme \<Rightarrow> bytes \<Rightarrow> ('s Vote \<times> bytes) res" where
  "vote_unserialize E sc s =
     bind (get_rid E s) (\<lambda>(i, s1).
     bind (rd (get_u256 E s1)) (\<lambda>(h, s2).
     bind (parse_part_cert E sc s2) (\<lambda>(pc, s3).
       Inr (\<lparr>voter = i, v_blk_hash = h, v_cert = Some pc\<rparr>, s3))))"

definition vote_verify :: "('p, 'k, 's, 'b) env \<Rightarrow> 'k ReplicaConfig \<Rightarrow> 's Vote \<Rightarrow> bool res" where
  "vote_verify E cfg v =
     bind (get_pubkey cfg (voter v)) (\<lambda>pk.
     bind (deref (v_cert v)) (\<lambda>pc.
       Inr (pc_verify E pk pc \<and> pc_obj_hash pc = v_blk_hash v)))"

definition relay_serialize :: "('p, 'k, 's, 'b) env \<Rightarrow> ('s, 'b) VoteRelay \<Rightarrow> bytes res" where
  "relay_serialize E v =
     bind (deref (vr_cert v)) (\<lambda>q. bind (qc_serialize E q) (\<lambda>bs. Inr (put_u256 E (vr_blk_hash v) @ bs)))"

definition relay_unserialize ::
  "('p, 'k, 's, 'b) env \<Rightarrow> scheme \<Rightarrow> bytes \<Rightarrow> (('s, 'b) VoteRelay \<times> bytes) res" where
  "relay_unserialize E sc s =
     bind (rd (get_u256 E s)) (\<lambda>(h, s1).
     bind (parse_quorum_cert E sc s1) (\<lambda>(q, s2).
       Inr (\<lparr>vr_blk_hash = h, vr_cert = Some q\<rparr>, s2)))"

text \<open>The block hash of a finality is only sent with a positive decision.\<close>

definition finality_serialize :: "('p, 'k, 's, 'b) env \<Rightarrow> Finality \<Rightarrow> bytes" where
  "finality_serialize E f =
     put_rid E (fin_rid f) @ put_int E 1 (unat (fin_decision f)) @
     put_int E 4 (unat (fin_cmd_idx f)) @ put_int E 4 (unat (fin_cmd_height f)) @
     put_u256 E (fin_cmd_hash f) @ (if fin_decision f = 1 then put_u256 E (fin_blk_hash f) else [])"

definition finality_unserialize :: "('p, 'k, 's, 'b) env \<Rightarrow> bytes \<Rightarrow> (Finality \<times> bytes) res" where
  "finality_unserialize E s =
     bind (get_rid E s) (\<lambda>(i, s1).
     bind (rd (get_int E 1 s1)) (\<lambda>(d, s2).
     bind (rd (get_int E 4 s2)) (\<lambda>(idx, s3).
     bind (rd (get_int E 4 s3)) (\<lambda>(ht, s4).
     bind (rd (get_u256 E s4)) (\<lambda>(c, s5).
     let f = \<lparr>fin_rid = i, fin_decision = of_nat d, fin_cmd_idx = of_nat idx, fin_cmd_height = of_nat ht,
              fin_cmd_hash = c, fin_blk_hash = u256_default E\<rparr> in
     if fin_decision f = 1 then bind (rd (get_u256 E s5)) (\<lambda>(h, s6). Inr (f\<lparr>fin_blk_hash := h\<rparr>, s6))
     else Inr (f, s5))))))"

section \<open>Network messages\<close>

definition MsgPropose :: "('p, 'k, 's, 'b) env \<Rightarrow> Proposal \<Rightarrow> ('p, 'k, 's, 'b) core \<Rightarrow> bytes res" where
  "MsgPropose E prop st = proposal_serialize E prop st"

definition MsgPropose_parse ::
  "('p, 'k, 's, 'b) env \<Rightarrow> bytes \<Rightarrow> ('p, 'k, 's, 'b) core \<Rightarrow> (Proposal \<times> ('p, 'k, 's, 'b) core) res" where
  "MsgPropose_parse E s st = bind (proposal_unserialize E s st) (\<lambda>(p, _, st'). Inr (p, st'))"

definition MsgVote :: "('p, 'k, 's, 'b) env \<Rightarrow> 's Vote \<Rightarrow> bytes res" where
  "MsgVote E v = vote_serialize E v"

definition MsgVote_parse :: "('p, 'k, 's, 'b) env \<Rightarrow> scheme \<Rightarrow> bytes \<Rightarrow> 's Vote res" where
  "MsgVote_parse E sc s = bind (vote_unserialize E sc s) (\<lambda>(v, _). Inr v)"

definition MsgRelay :: "('p, 'k, 's, 'b) env \<Rightarrow> ('s, 'b) VoteRelay \<Rightarrow> bytes res" where
  "MsgRelay E v = relay_serialize E v"

definition MsgRelay_parse :: "('p, 'k, 's, 'b) env \<Rightarrow> scheme \<Rightarrow> bytes \<Rightarrow> ('s, 'b) VoteRelay res" where
  "MsgRelay_parse E sc s = bind (relay_unserialize E sc s) (\<lambda>(v, _). Inr v)"

definition MsgReqBlock :: "('p, 'k, 's, 'b) env \<Rightarrow> uint256 list \<Rightarrow> bytes" where
  "MsgReqBlock E hs = put_len E (length hs) @ put_hashes E hs"

definition MsgReqBlock_parse :: "('p, 'k, 's, 'b) env \<Rightarrow> bytes \<Rightarrow> uint256 list res" where
  "MsgReqBlock_parse E s = bind (get_len E s) (\<lambda>(n, s1). bind (get_hashes_n E n s1) (\<lambda>(hs, _). Inr hs))"

fun put_blocks :: "('p, 'k, 's, 'b) env \<Rightarrow> ('s, 'b) Block list \<Rightarrow> bytes res" where
  "put_blocks E [] = Inr []"
| "put_blocks E (b # bs) = bind (block_serialize E b) (\<lambda>x. bind (put_blocks E bs) (\<lambda>y. Inr (x @ y)))"

definition MsgRespBlock :: "('p, 'k, 's, 'b) env \<Rightarrow> ('s, 'b) Block list \<Rightarrow> bytes res" where
  "MsgRespBlock E bs = bind (put_blocks E bs) (\<lambda>x. Inr (put_len E (length bs) @ x))"

fun get_blocks ::
  "('p, 'k, 's, 'b) env \<Rightarrow> nat \<Rightarrow> bytes \<Rightarrow> ('p, 'k, 's, 'b) core \<Rightarrow> (blkref list \<times> ('p, 'k, 's, 'b) core) res" where
  "get_blocks E 0 s st = Inr ([], st)"
| "get_blocks E (Suc n) s st =
     bind (block_unserialize E (sch st) s) (\<lambda>(b, s1).
       let (r, st1) = store_blk b st in
       bind (get_blocks E n s1 st1) (\<lambda>(rs, st2). Inr (r # rs, st2)))"

definition MsgRespBlock_parse ::
  "('p, 'k, 's, 'b) env \<Rightarrow> bytes \<Rightarrow> ('p, 'k, 's, 'b) core \<Rightarrow> (blkref list \<times> ('p, 'k, 's, 'b) core) res" where
  "MsgRespBlock_parse E s st = bind (get_len E s) (\<lambda>(n, s1). get_blocks E n s1 st)"

section \<open>Client messages\<close>

text \<open>Built with \<open>HOTSTUFF_CMD_REQSIZE\<close> and \<open>HOTSTUFF_CMD_RESPSIZE\<close> zero.\<close>

definition command_serialize :: "('p, 'k, 's, 'b) env \<Rightarrow> u32 \<Rightarrow> u32 \<Rightarrow> bytes" where
  "command_serialize E c n = put_int E 4 (unat c) @ put_int E 4 (unat n)"

definition CommandDummy_new :: "('p, 'k, 's, 'b) env \<Rightarrow> u32 \<Rightarrow> u32 \<Rightarrow> CommandDummy" where
  "CommandDummy_new E c n = \<lparr>cid = c, cmd_n = n, cmd_hash = sha256 E (command_serialize E c n)\<rparr>"

definition command_unserialize :: "('p, 'k, 's, 'b) env \<Rightarrow> bytes \<Rightarrow> (CommandDummy \<times> bytes) res" where
  "command_unserialize E s =
     bind (rd (get_int E 4 s)) (\<lambda>(c, s1).
     bind (rd (get_int E 4 s1)) (\<lambda>(n, s2). Inr (CommandDummy_new E (of_nat c) (of_nat n), s2)))"

definition MsgReqCmd :: "('p, 'k, 's, 'b) env \<Rightarrow> CommandDummy \<Rightarrow> bytes" where
  "MsgReqCmd E c = command_serialize E (cid c) (cmd_n c)"

definition MsgRespCmd :: "('p, 'k, 's, 'b) env \<Rightarrow> Finality \<Rightarrow> bytes" where
  "MsgRespCmd E f = finality_serialize E f"

definition MsgRespCmd_parse :: "('p, 'k, 's, 'b) env \<Rightarrow> bytes \<Rightarrow> Finality res" where
  "MsgRespCmd_parse E s = bind (finality_unserialize E s) (\<lambda>(f, _). Inr f)"

section \<open>Round trips\<close>

lemma unat_bound [simp]:
  "unat (i :: ReplicaID) < 65536" "unat (d :: u8) < 256" "unat (x :: u32) < 4294967296"
  using unsigned_less [of i, where 'a = nat] unsigned_less [of d, where 'a = nat] unsigned_less [of x, where 'a = nat]
  by simp_all

lemma get_put_rid: "stream_laws E \<Longrightarrow> get_rid E (put_rid E i @ s) = Inr (i, s)"
  by (simp add: get_rid_def put_rid_def stream_simps)

interpretation vote_wire: codec "vote_serialize E" "vote_unserialize E sc"
  "\<lambda>v. stream_laws E \<and> sig_codec_laws E \<and> (case v_cert v of None \<Rightarrow> False | Some pc \<Rightarrow> pc_scheme pc = Some sc)" for E sc
  by unfold_locales
     (auto simp: vote_serialize_def vote_unserialize_def get_put_rid stream_simps parse_serialize_part_cert res_iff
       split: option.splits)

interpretation relay_wire: codec "relay_serialize E" "relay_unserialize E sc"
  "\<lambda>v. stream_laws E \<and> sig_codec_laws E \<and> (case vr_cert v of None \<Rightarrow> False | Some q \<Rightarrow> qc_exact E sc q)" for E sc
  by unfold_locales
     (auto simp: relay_serialize_def relay_unserialize_def stream_simps parse_serialize_qc res_iff split: option.splits)

interpretation finality_wire: codec "\<lambda>f. Inr (finality_serialize E f)" "finality_unserialize E"
  "\<lambda>f. stream_laws E \<and> (fin_decision f \<noteq> 1 \<longrightarrow> fin_blk_hash f = u256_default E)" for E
  by unfold_locales (auto simp: finality_serialize_def finality_unserialize_def get_put_rid stream_simps)

interpretation command_wire: codec "\<lambda>c. Inr (MsgReqCmd E c)" "command_unserialize E"
  "\<lambda>c. stream_laws E \<and> c = CommandDummy_new E (cid c) (cmd_n c)" for E
  by unfold_locales (auto simp: MsgReqCmd_def command_serialize_def command_unserialize_def stream_simps)

lemma ReqBlock_roundtrip:
  "stream_laws E \<Longrightarrow> length hs < 2 ^ 32 \<Longrightarrow> MsgReqBlock_parse E (MsgReqBlock E hs) = Inr hs"
  using get_put_hashes [of E hs "[]"] by (simp add: MsgReqBlock_def MsgReqBlock_parse_def get_put_len)

text \<open>A block can be sent when its certificate has a faithful encoding, its lists fit their
  length fields and its hash is the hash of its encoding.\<close>

definition sendable :: "('p, 'k, 's, 'b) env \<Rightarrow> scheme \<Rightarrow> ('s, 'b) Block \<Rightarrow> bool" where
  "sendable E sc b \<longleftrightarrow>
     (case blk_qc b of None \<Rightarrow> False | Some q \<Rightarrow> qc_exact E sc q) \<and>
     length (parent_hashes b) < 2 ^ 32 \<and> length (cmds b) < 2 ^ 32 \<and> length (extra b) < 2 ^ 32 \<and>
     bind (block_serialize E b) (\<lambda>bs. Inr (sha256 E bs)) = Inr (hash b)"

definition same_content :: "('s, 'b) Block \<Rightarrow> ('s, 'b) Block \<Rightarrow> bool" where
  "same_content a b \<longleftrightarrow> parent_hashes a = parent_hashes b \<and> cmds a = cmds b \<and> blk_qc a = blk_qc b \<and>
     extra a = extra b \<and> hash a = hash b"

lemma sendable_roundtrip:
  assumes "stream_laws E" "sig_codec_laws E" "sendable E sc b" "block_serialize E b = Inr bs"
  shows "\<exists>b'. block_unserialize E sc (bs @ s) = Inr (b', s) \<and> same_content b' b"
proof -
  obtain q where q: "blk_qc b = Some q" "qc_exact E sc q" "hash b = sha256 E bs"
    using assms(3,4) by (auto simp: sendable_def split: option.splits)
  with assms block_roundtrip [OF assms(1,2) q(1,2) _ _ _ assms(4), of s] show ?thesis
    by (simp add: sendable_def same_content_def)
qed

lemma store_blk_steps:
  assumes "store_blk b st = (r, st')"
  shows "find_blk (hash b) (mem st') = Some r" "sch st' = sch st"
    "find_blk h (mem st) = Some x \<Longrightarrow> find_blk h (mem st') = Some x"
    "x < nxt (mem st) \<Longrightarrow> blk st' x = blk st x"
    "find_blk (hash b) (mem st) = None \<Longrightarrow> blk st' r = b"
  using assms add_blk_move_steps [of b "mem st" r "mem st'"]
  by (auto simp: store_blk_def split: prod.splits)


lemma put_blocks_parse:
  assumes "stream_laws E" "sig_codec_laws E" "put_blocks E bs = Inr x" "\<forall>b \<in> set bs. sendable E (sch st) b"
  shows "\<exists>rs st'. get_blocks E (length bs) x st = Inr (rs, st') \<and>
    map (\<lambda>b. find_blk (hash b) (mem st')) bs = map Some rs \<and>
    (\<forall>h r. find_blk h (mem st) = Some r \<longrightarrow> find_blk h (mem st') = Some r)"
  using assms(3,4)
proof (induction bs arbitrary: x st)
  case (Cons b bs)
  obtain y z where y: "block_serialize E b = Inr y" "put_blocks E bs = Inr z" "x = y @ z"
    using Cons.prems(1) by (auto simp: res_iff)
  obtain b' where b': "block_unserialize E (sch st) (y @ z) = Inr (b', z)" "hash b' = hash b"
    using sendable_roundtrip [OF assms(1,2) _ y(1), of "sch st" z] Cons.prems(2) by (auto simp: same_content_def)
  obtain r st1 where st1: "store_blk b' st = (r, st1)" by (cases "store_blk b' st")
  note s = store_blk_steps [OF st1]
  from Cons.IH [OF y(2), of st1] Cons.prems(2) obtain rs st' where
    "get_blocks E (length bs) z st1 = Inr (rs, st')" "map (\<lambda>b. find_blk (hash b) (mem st')) bs = map Some rs"
    "\<forall>h r. find_blk h (mem st1) = Some r \<longrightarrow> find_blk h (mem st') = Some r" by (auto simp: s(2))
  with b' st1 s(1,3) y(3) show ?case by auto
qed simp

text \<open>
  Block responses arrive: parsing the bytes of \<open>MsgRespBlock\<close> yields one block per block
  sent, each found in the receiver's storage under the hash of the block sent; nothing already
  stored is lost.
\<close>

theorem RespBlock_roundtrip:
  assumes "stream_laws E" "sig_codec_laws E" "\<forall>b \<in> set bs. sendable E (sch st) b" "length bs < 2 ^ 32"
    and "MsgRespBlock E bs = Inr x"
  shows "\<exists>rs st'. MsgRespBlock_parse E x st = Inr (rs, st') \<and>
    map (\<lambda>b. find_blk (hash b) (mem st')) bs = map Some rs \<and>
    (\<forall>h r. find_blk h (mem st) = Some r \<longrightarrow> find_blk h (mem st') = Some r)"
proof -
  obtain y where y: "put_blocks E bs = Inr y" "x = put_len E (length bs) @ y"
    using assms(5) by (auto simp: MsgRespBlock_def res_iff)
  from put_blocks_parse [OF assms(1,2) y(1) assms(3)] show ?thesis
    by (auto simp: MsgRespBlock_parse_def y(2) get_put_len [OF assms(1,4)])
qed


section \<open>Examples\<close>

text \<open>A block that can be sent, and a replica that holds it.\<close>

definition sample_blk :: "(uint256, bool list) Block" where
  "sample_blk = (Block_default sample_env)\<lparr>parent_hashes := [5], cmds := [6, 7], blk_qc := Some (QDummy (dummy_new 5)),
     hash := (case block_hash sample_env [5] [6, 7] (Some (QDummy (dummy_new 5))) [] of Inl _ \<Rightarrow> 0 | Inr h \<Rightarrow> h)\<rparr>"

lemma sample_blk_sendable: "sendable sample_env NoSig sample_blk"
  by (simp add: sendable_def sample_blk_def Block_default_def block_serialize_def block_hash_def block_bytes_def)

lemma sample_sender: "\<exists>st :: (uint256, uint256, uint256, bool list) core. sch st = NoSig \<and> blk st 0 = sample_blk"
proof -
  have "\<exists>st :: (uint256, uint256, uint256, bool list) core. HotStuffCore_new sample_env NoSig 0 7 0 0 (0, 0) = Inr st"
    by (simp add: HotStuffCore_new_def Block_genesis_def block_hash_def block_bytes_def Let_def split: prod.split)
  then obtain st :: "(uint256, uint256, uint256, bool list) core" where "HotStuffCore_new sample_env NoSig 0 7 0 0 (0, 0) = Inr st" ..
  then have "sch st = NoSig"
    by (auto simp: HotStuffCore_new_def alloc_blk_def add_blk_def Let_def res_iff)
  then show ?thesis by (intro exI [of _ "st\<lparr>mem := (mem st)\<lparr>heap := (\<lambda>_. sample_blk)\<rparr>\<rparr>"]) simp
qed


theorem RespBlock_roundtrip_witness:
  "\<exists>(st :: (uint256, uint256, uint256, bool list) core) x rs st'. MsgRespBlock sample_env [sample_blk] = Inr x \<and>
     MsgRespBlock_parse sample_env x st = Inr (rs, st') \<and> [find_blk (hash sample_blk) (mem st')] = map Some rs"
proof -
  obtain st :: "(uint256, uint256, uint256, bool list) core" where st: "sch st = NoSig"
    using sample_sender by blast
  obtain x where x: "MsgRespBlock sample_env [sample_blk] = Inr x"
    by (simp add: MsgRespBlock_def sample_blk_def Block_default_def block_serialize_def block_bytes_def)
  from RespBlock_roundtrip [OF sample_laws(2,3) _ _ x, of st] st sample_blk_sendable obtain rs st' where
    "MsgRespBlock_parse sample_env x st = Inr (rs, st')" "[find_blk (hash sample_blk) (mem st')] = map Some rs" by auto
  with x show ?thesis by (intro exI [of _ st] exI [of _ x] exI [of _ rs] exI [of _ st'] conjI)
qed


end
