(* ===== verification/Hs_Tree.thy ===== *)
theory Hs_Tree
  imports Hs_Prelude
begin

text \<open>
  The dissemination tree \<open>HotStuffBase::start\<close> builds
  (\<^verbatim>\<open>src/hotstuff.cpp\<close>, lines 785 to 838): every replica runs the same loops over
  the list of replicas and picks out its parent, its children, and the size of its aggregation
  group. The theorems show that the replicas agree on one tree that reaches all of them.

  Replica indices and counts are \<open>nat\<close>; \<open>peer j\<close> is the peer id made from the
  certificate hash of \<open>replicas[j]\<close>. Moving a \<open>uint256_t\<close> out of the list leaves
  its value in place. An index outside the list is \<open>OutOfRange\<close>, a division by zero
  \<open>DivByZero\<close>.
\<close>

section \<open>The loops\<close>

record tree =
  t_i :: nat
  t_done :: bool
  t_children :: "nat set"
  t_childPeers :: "PeerId set"
  t_parentPeer :: "PeerId option"

definition tree_edge :: "nat \<Rightarrow> (nat \<Rightarrow> PeerId) \<Rightarrow> nat \<Rightarrow> PeerId \<Rightarrow> nat \<Rightarrow> tree \<Rightarrow> tree" where
  "tree_edge my peer i parent_peer j t =
     (if my = i then t\<lparr>t_children := insert j (t_children t), t_childPeers := insert (peer j) (t_childPeers t)\<rparr>
      else if my = j then t\<lparr>t_parentPeer := Some parent_peer\<rparr>
      else if parent_peer \<in> t_childPeers t then t\<lparr>t_children := insert j (t_children t)\<rparr>
      else t)"

text \<open>The innermost loop, over the children of one process.\<close>

fun tree_fan :: "nat \<Rightarrow> nat \<Rightarrow> (nat \<Rightarrow> PeerId) \<Rightarrow> PeerId \<Rightarrow> nat \<Rightarrow> nat \<Rightarrow> tree \<Rightarrow> tree" where
  "tree_fan nsize my peer parent_peer 0 j t = t"
| "tree_fan nsize my peer parent_peer (Suc n) j t =
     (if j \<ge> nsize then t\<lparr>t_done := True\<rparr>
      else tree_fan nsize my peer parent_peer n (Suc j) (tree_edge my peer (t_i t) parent_peer j t))"

text \<open>The loop over the processes of one level; after each of them the certificate hash of the
  next process is read.\<close>

fun tree_level :: "nat \<Rightarrow> nat \<Rightarrow> (nat \<Rightarrow> PeerId) \<Rightarrow> nat \<Rightarrow> nat \<Rightarrow> nat \<Rightarrow> PeerId \<Rightarrow> tree \<Rightarrow> tree res" where
  "tree_level nsize my peer curr_fanout 0 start parent_peer t = Inr t"
| "tree_level nsize my peer curr_fanout (Suc c) start parent_peer t =
     (if t_done t then Inr t
      else
        let t1 = tree_fan nsize my peer parent_peer curr_fanout start t;
            t2 = t1\<lparr>t_i := Suc (t_i t1)\<rparr> in
        bind (guard (t_i t2 < nsize) OutOfRange) (\<lambda>_.
          tree_level nsize my peer curr_fanout c (start + curr_fanout) (peer (t_i t2)) t2))"

partial_function (option) tree_loop ::
  "nat \<Rightarrow> nat \<Rightarrow> nat \<Rightarrow> (nat \<Rightarrow> PeerId) \<Rightarrow> nat \<Rightarrow> tree \<Rightarrow> tree res option" where
  "tree_loop nsize fanout my peer processesOnLevel t =
     (if t_i t < nsize then
        if t_done t then Some (Inr t)
        else if processesOnLevel = 0 then Some (Inl DivByZero)
        else
          let remaining = nsize - t_i t;
              curr_fanout = min (remaining div processesOnLevel) fanout in
          (case tree_level nsize my peer curr_fanout processesOnLevel (t_i t + processesOnLevel) (peer (t_i t)) t of
             Inl e \<Rightarrow> Some (Inl e)
           | Inr t' \<Rightarrow> tree_loop nsize fanout my peer (min (curr_fanout * processesOnLevel) remaining) t')
      else Some (Inr t))"

definition tree_build :: "nat \<Rightarrow> nat \<Rightarrow> nat \<Rightarrow> (nat \<Rightarrow> PeerId) \<Rightarrow> PeerId option \<Rightarrow> tree res" where
  "tree_build nsize fanout my peer parent0 =
     run_loop (tree_loop nsize fanout my peer 1
       \<lparr>t_i = 0, t_done = False, t_children = {}, t_childPeers = {}, t_parentPeer = parent0\<rparr>)"

definition numberOfChildren_of :: "tree \<Rightarrow> u16" where
  "numberOfChildren_of t = of_nat (card (t_children t))"

section \<open>The edges the loops visit\<close>

text \<open>What a replica keeps after visiting a list of edges.\<close>

definition visit :: "nat \<Rightarrow> (nat \<Rightarrow> PeerId) \<Rightarrow> (nat \<times> nat) list \<Rightarrow> tree \<Rightarrow> tree" where
  "visit my peer es t = fold (\<lambda>(i, j). tree_edge my peer i (peer i) j) es t"

fun level_edges :: "nat \<Rightarrow> nat \<Rightarrow> nat \<Rightarrow> nat \<Rightarrow> nat \<Rightarrow> (nat \<times> nat) list" where
  "level_edges nsize cf 0 s i = []"
| "level_edges nsize cf (Suc n) s i =
     map (Pair i) [s..<min nsize (s + cf)] @
     (if s + cf > nsize then [] else level_edges nsize cf n (s + cf) (Suc i))"

lemma visit_simps [simp]:
  "visit my peer [] t = t"
  "visit my peer ((i, j) # es) t = visit my peer es (tree_edge my peer i (peer i) j t)"
  "visit my peer (es @ fs) t = visit my peer fs (visit my peer es t)"
  by (simp_all add: visit_def)

lemma tree_edge_control [simp]:
  "t_i (tree_edge my peer i pp j t) = t_i t" "t_done (tree_edge my peer i pp j t) = t_done t"
  "tree_edge my peer i pp j (t\<lparr>t_i := a, t_done := d\<rparr>) = (tree_edge my peer i pp j t)\<lparr>t_i := a, t_done := d\<rparr>"
  by (simp_all add: tree_edge_def)

lemma visit_control [simp]:
  "t_i (visit my peer es t) = t_i t" "t_done (visit my peer es t) = t_done t"
  by (induction es arbitrary: t) auto

lemma visit_update:
  "visit my peer es (t\<lparr>t_i := a, t_done := d\<rparr>) = (visit my peer es t)\<lparr>t_i := a, t_done := d\<rparr>"
  by (induction es arbitrary: t) auto

lemma tree_update_swap: "t\<lparr>t_done := d, t_i := a\<rparr> = t\<lparr>t_i := a, t_done := d\<rparr>"
  by simp

lemma tree_fan_visit:
  assumes "j \<le> nsize"
  shows "tree_fan nsize my peer (peer (t_i t)) n j t =
    (visit my peer (map (Pair (t_i t)) [j..<min nsize (j + n)]) t)\<lparr>t_done := t_done t \<or> nsize < j + n\<rparr>"
  using assms
proof (induction n arbitrary: j t)
  case (Suc n)
  show ?case
  proof (cases "j = nsize")
    case False
    then have j: "j < nsize" using Suc.prems by simp
    then have "[j..<min nsize (j + Suc n)] = j # [Suc j..<min nsize (Suc j + n)]" by (simp add: upt_conv_Cons)
    with j Suc.IH [of "Suc j" "tree_edge my peer (t_i t) (peer (t_i t)) j t"] show ?thesis by simp
  qed simp
qed simp

lemma tree_level_visit:
  assumes "s \<le> nsize" "\<not> t_done t" and reads: "\<And>c. c < n \<Longrightarrow> s + c * cf \<le> nsize \<Longrightarrow> t_i t + c + 1 < nsize"
  shows "\<exists>a. tree_level nsize my peer cf n s (peer (t_i t)) t =
      Inr ((visit my peer (level_edges nsize cf n s (t_i t)) t)\<lparr>t_i := a, t_done := nsize < s + n * cf\<rparr>) \<and>
    a < nsize \<and> (s + n * cf \<le> nsize \<longrightarrow> a = t_i t + n) \<or> n = 0"
  using assms
proof (induction n arbitrary: s t)
  case (Suc n)
  let ?es = "map (Pair (t_i t)) [s..<min nsize (s + cf)]" and ?i = "Suc (t_i t)"
  define t1 where "t1 = visit my peer ?es t"
  have r: "?i < nsize" using Suc.prems(3) [of 0] Suc.prems(1) by simp
  have lv: "tree_level nsize my peer cf (Suc n) s (peer (t_i t)) t =
      tree_level nsize my peer cf n (s + cf) (peer ?i) (t1\<lparr>t_i := ?i, t_done := nsize < s + cf\<rparr>)"
    using Suc.prems(1,2) r by (simp add: tree_fan_visit t1_def tree_update_swap)
  show ?case
  proof (cases "nsize < s + cf")
    case True
    then have "tree_level nsize my peer cf n (s + cf) (peer ?i) (t1\<lparr>t_i := ?i, t_done := True\<rparr>) =
        Inr (t1\<lparr>t_i := ?i, t_done := True\<rparr>)" by (cases n) simp_all
    with lv True r show ?thesis by (intro disjI1 exI [of _ ?i]) (simp add: t1_def)
  next
    case False
    let ?t = "t1\<lparr>t_i := ?i, t_done := False\<rparr>"
    have rd: "c < n \<Longrightarrow> s + cf + c * cf \<le> nsize \<Longrightarrow> t_i ?t + c + 1 < nsize" for c
      using Suc.prems(3) [of "Suc c"] by (simp add: add.assoc)
    have "s + cf \<le> nsize" "\<not> t_done ?t" using False by simp_all
    with Suc.IH [of "s + cf" ?t] rd obtain a where "tree_level nsize my peer cf n (s + cf) (peer (t_i ?t)) ?t =
          Inr ((visit my peer (level_edges nsize cf n (s + cf) (t_i ?t)) ?t)\<lparr>t_i := a, t_done := nsize < s + cf + n * cf\<rparr>) \<and>
        a < nsize \<and> (s + cf + n * cf \<le> nsize \<longrightarrow> a = t_i ?t + n) \<or> n = 0" by blast
    then show ?thesis
    proof (elim disjE)
      assume a: "tree_level nsize my peer cf n (s + cf) (peer (t_i ?t)) ?t =
          Inr ((visit my peer (level_edges nsize cf n (s + cf) (t_i ?t)) ?t)\<lparr>t_i := a, t_done := nsize < s + cf + n * cf\<rparr>) \<and>
        a < nsize \<and> (s + cf + n * cf \<le> nsize \<longrightarrow> a = t_i ?t + n)"
      then show ?thesis using lv False
        by (intro disjI1 exI [of _ a]) (simp add: t1_def visit_update add.assoc)
    next
      assume "n = 0"
      then show ?thesis using lv False r by (intro disjI1 exI [of _ ?i]) (simp add: t1_def)
    qed
  qed
qed simp

section \<open>The tree\<close>

lemma upt_split: "a \<le> b \<Longrightarrow> b \<le> c \<Longrightarrow> [a..<b] @ [b..<c] = [a..<c]"
  using upt_add_eq_append [of a b "c - b"] by simp

text \<open>The edges of a level enumerate its children in order, a bounded number per parent.\<close>

lemma level_edges_children:
  "s \<le> nsize \<Longrightarrow> map snd (level_edges nsize cf n s i) = [s..<min nsize (s + n * cf)]"
proof (induction n arbitrary: s i)
  case (Suc n)
  show ?case
  proof (cases "nsize < s + cf")
    case False
    with Suc have "map snd (level_edges nsize cf (Suc n) s i) = [s..<s + cf] @ [s + cf..<min nsize (s + cf + n * cf)]"
      by (simp add: comp_def min_absorb2)
    also have "\<dots> = [s..<min nsize (s + Suc n * cf)]"
      using False by (subst upt_split) (simp_all add: add.assoc)
    finally show ?thesis .
  qed (simp add: comp_def min_absorb1)
qed simp

lemma level_edges_parents:
  "(a, b) \<in> set (level_edges nsize cf n s i) \<Longrightarrow> i \<le> a \<and> a < i + n \<and> s \<le> b \<and> b < nsize"
  by (induction n arbitrary: s i) (fastforce split: if_splits)+

lemma level_edges_fanout: "length (filter (\<lambda>e. fst e = a) (level_edges nsize cf n s i)) \<le> cf"
proof (induction n arbitrary: s i)
  case (Suc n)
  have new: "length (filter (\<lambda>e. fst e = a) (map (Pair i) [s..<min nsize (s + cf)])) = (if a = i then min nsize (s + cf) - s else 0)"
    by (auto simp: filter_map comp_def)
  have rest: "filter (\<lambda>e. fst e = i) (level_edges nsize cf n (s + cf) (Suc i)) = []"
    by (auto simp: filter_empty_conv dest: level_edges_parents)
  from new rest Suc.IH [of "s + cf" "Suc i"] show ?case by (cases "a = i") auto
qed simp

text \<open>\<open>tree_edges es from fanout\<close>: the list \<open>es\<close> gives each index above \<open>from\<close> exactly
  one parent, in order, below it and not below \<open>lo\<close>, with at most \<open>fanout\<close> children each.\<close>

definition tree_edges :: "nat \<Rightarrow> nat \<Rightarrow> nat \<Rightarrow> nat \<Rightarrow> (nat \<times> nat) list \<Rightarrow> bool" where
  "tree_edges nsize fanout lo s es \<longleftrightarrow>
     map snd es = [s..<nsize] \<and> (\<forall>(a, b) \<in> set es. lo \<le> a \<and> a < b) \<and> sorted (map fst es) \<and>
     (\<forall>a. length (filter (\<lambda>e. fst e = a) es) \<le> fanout)"

lemma level_edges_sorted: "sorted (map fst (level_edges nsize cf n s i))"
proof (induction n arbitrary: s i)
  case (Suc n)
  then show ?case
    by (auto simp: sorted_append comp_def sorted_replicate map_replicate_const dest: level_edges_parents)
qed simp

lemma level_edges_tree:
  assumes "s \<le> nsize" "nsize \<le> s + n * cf" "i + n \<le> s"
  shows "tree_edges nsize (max cf fanout) i s (level_edges nsize cf n s i)"
  using assms level_edges_children [OF assms(1), of cf n i] level_edges_fanout [of _ nsize cf n s i]
    level_edges_sorted [of nsize cf n s i]
  by (auto simp: tree_edges_def le_max_iff_disj dest!: level_edges_parents)

lemma tree_edges_append:
  assumes "s + n * cf \<le> nsize" "cf \<le> fanout" "i + n \<le> s" and es: "tree_edges nsize fanout (i + n) (s + n * cf) es"
  shows "tree_edges nsize fanout i s (level_edges nsize cf n s i @ es)"
proof -
  let ?l = "level_edges nsize cf n s i"
  have snd: "map snd (?l @ es) = [s..<nsize]"
    using assms(1) es level_edges_children [of s nsize cf n i] upt_split [of s "s + n * cf" nsize]
    by (simp add: tree_edges_def min_absorb2)
  have par: "\<forall>(a, b) \<in> set (?l @ es). i \<le> a \<and> a < b"
    using es assms(3) by (fastforce simp: tree_edges_def dest: level_edges_parents)
  have srt: "sorted (map fst (?l @ es))"
    using es level_edges_sorted [of nsize cf n s i] by (fastforce simp: sorted_append tree_edges_def dest: level_edges_parents)
  have fan: "length (filter (\<lambda>e. fst e = a) (?l @ es)) \<le> fanout" for a
  proof (cases "a < i + n")
    case True
    then have "filter (\<lambda>e. fst e = a) es = []" using es by (fastforce simp: filter_empty_conv tree_edges_def)
    then show ?thesis using level_edges_fanout [of a nsize cf n s i] assms(2) by simp
  next
    case False
    then have "filter (\<lambda>e. fst e = a) ?l = []" by (auto simp: filter_empty_conv dest: level_edges_parents)
    then show ?thesis using es by (simp add: tree_edges_def)
  qed
  from snd par srt fan show ?thesis by (simp add: tree_edges_def)
qed

text \<open>One round of the outer loop, for a level of \<open>L\<close> processes starting at \<open>i\<close>: no read
  is out of range, provided the level has two processes or its first one has two children.\<close>

lemma level_reads:
  fixes i L cf nsize :: nat
  assumes "c < L" "i + L + c * cf \<le> nsize" "1 \<le> cf" "2 \<le> L \<or> 2 \<le> nsize - i"
  shows "i + c + 1 < nsize"
proof (cases c)
  case 0
  with assms show ?thesis by auto
next
  case (Suc d)
  have "1 \<le> c * cf" using assms(3) Suc by simp
  then show ?thesis using assms(1,2) by linarith
qed

lemma tree_loop_step:
  assumes "t_i t = i" "\<not> t_done t" "1 \<le> L" "i + L \<le> nsize" "2 \<le> fanout" "2 \<le> L \<or> i = 0 \<and> 2 \<le> nsize"
  defines "cf \<equiv> min ((nsize - i) div L) fanout"
  shows "1 \<le> cf" "2 \<le> cf * L" "cf * L \<le> nsize - i"
    and "\<exists>a. tree_loop nsize fanout my peer L t =
      tree_loop nsize fanout my peer (cf * L)
        ((visit my peer (level_edges nsize cf L (i + L) i) t)\<lparr>t_i := a, t_done := nsize < i + L + L * cf\<rparr>) \<and>
      a < nsize \<and> (i + L + L * cf \<le> nsize \<longrightarrow> a = i + L)"
proof -
  show cf: "1 \<le> cf" using assms(3-5) by (simp add: cf_def div_greater_zero_iff Suc_le_eq)
  have le: "cf * L \<le> nsize - i"
    using order.trans [OF mult_le_mono1 [of cf "(nsize - i) div L" L] div_times_less_eq_dividend]
    by (simp add: cf_def)
  then show "cf * L \<le> nsize - i" .
  show "2 \<le> cf * L"
  proof (cases "2 \<le> L")
    case True
    then show ?thesis using cf by (metis mult_le_mono nat_mult_1)
  next
    case False
    then have "L = 1" using assms(3) by simp
    then show ?thesis using assms(5,6) by (simp add: cf_def)
  qed
  have reads: "c < L \<Longrightarrow> i + L + c * cf \<le> nsize \<Longrightarrow> t_i t + c + 1 < nsize" for c
    using level_reads [of c L i cf nsize] cf assms(1,6) by auto
  from tree_level_visit [where n = L and my = my and peer = peer and cf = cf, OF assms(4,2)] reads assms(3)
  obtain a where a: "tree_level nsize my peer cf L (i + L) (peer i) t =
      Inr ((visit my peer (level_edges nsize cf L (i + L) i) t)\<lparr>t_i := a, t_done := nsize < i + L + L * cf\<rparr>)"
    "a < nsize" "i + L + L * cf \<le> nsize \<longrightarrow> a = i + L"
    by (auto simp: assms(1))
  have "min (cf * L) (nsize - i) = cf * L" using le by simp
  then show "\<exists>a. tree_loop nsize fanout my peer L t =
      tree_loop nsize fanout my peer (cf * L)
        ((visit my peer (level_edges nsize cf L (i + L) i) t)\<lparr>t_i := a, t_done := nsize < i + L + L * cf\<rparr>) \<and>
      a < nsize \<and> (i + L + L * cf \<le> nsize \<longrightarrow> a = i + L)"
    using a assms(1-4) by (intro exI [of _ a]) (subst tree_loop.simps, simp add: Let_def cf_def [symmetric])
qed

text \<open>All replicas visit the same edges, which form one tree.\<close>

lemma tree_loop_edges:
  assumes "1 \<le> L" "i + L \<le> nsize" "2 \<le> fanout" "2 \<le> L \<or> i = 0 \<and> 2 \<le> nsize"
  shows "\<exists>es. tree_edges nsize fanout i (i + L) es \<and>
    (\<forall>my peer t. t_i t = i \<and> \<not> t_done t \<longrightarrow>
      (\<exists>a. tree_loop nsize fanout my peer L t = Some (Inr ((visit my peer es t)\<lparr>t_i := a, t_done := True\<rparr>))))"
  using assms
proof (induction "nsize - i" arbitrary: i L rule: less_induct)
  case less
  define cf where "cf = min ((nsize - i) div L) fanout"
  let ?l = "level_edges nsize cf L (i + L) i"
  note step = tree_loop_step [where i = i and L = L and nsize = nsize and fanout = fanout, folded cf_def]
  have cf: "1 \<le> cf" "2 \<le> cf * L" "cf * L \<le> nsize - i"
    using step(1-3) [of "\<lparr>t_i = i, t_done = False, t_children = {}, t_childPeers = {}, t_parentPeer = None\<rparr>"] less.prems by simp_all
  show ?case
  proof (cases "nsize < i + L + L * cf")
    case True
    have "tree_edges nsize (max cf fanout) i (i + L) ?l"
      using less.prems True by (intro level_edges_tree) simp_all
    then have "tree_edges nsize fanout i (i + L) ?l" by (simp add: cf_def max_absorb2)
    moreover have "\<exists>a. tree_loop nsize fanout my peer L t = Some (Inr ((visit my peer ?l t)\<lparr>t_i := a, t_done := True\<rparr>))"
      if "t_i t = i" "\<not> t_done t" for my peer t
    proof -
      from step(4) [OF that less.prems, of my peer] True obtain a where
        "tree_loop nsize fanout my peer L t =
         tree_loop nsize fanout my peer (cf * L) ((visit my peer ?l t)\<lparr>t_i := a, t_done := True\<rparr>)" "a < nsize" by auto
      then show ?thesis by (intro exI [of _ a]) (simp, subst tree_loop.simps, simp)
    qed
    ultimately show ?thesis by blast
  next
    case False
    then have le: "i + L + L * cf \<le> nsize" by simp
    have dec: "nsize - (i + L) < nsize - i" "i + L + cf * L \<le> nsize" using less.prems(1,2) le by (simp_all add: mult.commute)
    from less.hyps [OF dec(1) _ dec(2)] cf(2) less.prems(3) obtain es where
      es: "tree_edges nsize fanout (i + L) (i + L + cf * L) es"
      and run: "\<And>my peer t. t_i t = i + L \<Longrightarrow> \<not> t_done t \<Longrightarrow>
        \<exists>a. tree_loop nsize fanout my peer (cf * L) t = Some (Inr ((visit my peer es t)\<lparr>t_i := a, t_done := True\<rparr>))"
      by fastforce
    have "tree_edges nsize fanout i (i + L) (?l @ es)"
      using es le by (intro tree_edges_append) (simp_all add: cf_def mult.commute)
    moreover have "\<exists>a. tree_loop nsize fanout my peer L t = Some (Inr ((visit my peer (?l @ es) t)\<lparr>t_i := a, t_done := True\<rparr>))"
      if "t_i t = i" "\<not> t_done t" for my peer t
    proof -
      let ?t = "(visit my peer ?l t)\<lparr>t_i := i + L, t_done := False\<rparr>"
      from step(4) [OF that less.prems, of my peer] le have
        "tree_loop nsize fanout my peer L t = tree_loop nsize fanout my peer (cf * L) ?t" by auto
      with run [of ?t my peer] show ?thesis by (auto simp: visit_update)
    qed
    ultimately show ?thesis by blast
  qed
qed

text \<open>What a replica has recorded after visiting a tree: its parent, its children, and the
  replicas in its aggregation group, which are its children and grandchildren.\<close>

lemma visit_parent:
  assumes "distinct (map snd es)" "\<And>a b. (a, b) \<in> set es \<Longrightarrow> a \<noteq> b"
  shows "t_parentPeer (visit my peer es t) =
    (if \<exists>i. (i, my) \<in> set es then Some (peer (THE i. (i, my) \<in> set es)) else t_parentPeer t)"
  using assms
proof (induction es arbitrary: t)
  case (Cons e es)
  obtain i j where e: "e = (i, j)" by (cases e)
  have ij: "i \<noteq> j" using Cons.prems(2) by (simp add: e)
  have fresh: "(k, j) \<notin> set es" for k
    using Cons.prems(1) by (force simp: e)
  show ?case
  proof (cases "my = j")
    case True
    have "(THE k. k = i \<or> (k, j) \<in> set es) = i" using fresh by blast
    moreover have "tree_edge my peer i (peer i) j t = t\<lparr>t_parentPeer := Some (peer i)\<rparr>"
      using True ij by (simp add: tree_edge_def)
    then have "t_parentPeer (visit my peer es (tree_edge my peer i (peer i) j t)) = Some (peer i)"
      using Cons.IH [of "t\<lparr>t_parentPeer := Some (peer i)\<rparr>"] Cons.prems fresh True by (simp add: e)
    ultimately show ?thesis using True by (auto simp: e)
  next
    case False
    then have "t_parentPeer (tree_edge my peer i (peer i) j t) = t_parentPeer t" by (simp add: tree_edge_def)
    with False Cons.IH [of "tree_edge my peer i (peer i) j t"] Cons.prems show ?thesis by (simp add: e)
  qed
qed simp

lemma visit_childPeers:
  "t_childPeers (visit my peer es t) = t_childPeers t \<union> peer ` {j. (my, j) \<in> set es}"
proof (induction es arbitrary: t)
  case (Cons e es)
  obtain i j where e: "e = (i, j)" by (cases e)
  have "t_childPeers (tree_edge my peer i (peer i) j t) = t_childPeers t \<union> (if my = i then {peer j} else {})"
    by (simp add: tree_edge_def)
  with Cons.IH [of "tree_edge my peer i (peer i) j t"] show ?case by (auto simp: e)
qed simp

lemma visit_children:
  assumes "sorted (map fst es)" "\<And>a b. (a, b) \<in> set es \<Longrightarrow> a < b \<and> a \<in> S \<and> b \<in> S" "inj_on peer S" "my \<in> S"
    and "t_children t = {}" "t_childPeers t = {}"
  shows "t_children (visit my peer es t) = {j. (my, j) \<in> set es \<or> (\<exists>k. (my, k) \<in> set es \<and> (k, j) \<in> set es)}"
  using assms(1,2)
proof (induction es rule: rev_induct)
  case Nil
  then show ?case using assms(5) by simp
next
  case (snoc e es)
  obtain i j where e: "e = (i, j)" by (cases e)
  let ?v = "visit my peer es t"
  have IH: "t_children ?v = {j. (my, j) \<in> set es \<or> (\<exists>k. (my, k) \<in> set es \<and> (k, j) \<in> set es)}"
    using snoc.prems by (intro snoc.IH) (auto simp: sorted_append)
  have ij: "i < j" "i \<in> S" "j \<in> S" using snoc.prems(2) [of i j] by (simp_all add: e)
  have le: "a \<le> i" if "(a, b) \<in> set es" for a b using snoc.prems(1) that by (force simp: e sorted_append)
  have mem: "peer i \<in> t_childPeers ?v \<longleftrightarrow> (my, i) \<in> set es"
  proof
    assume "peer i \<in> t_childPeers ?v"
    then obtain k where k: "(my, k) \<in> set es" "peer i = peer k" using assms(6) by (auto simp: visit_childPeers)
    then have "k \<in> S" using snoc.prems(2) [of my k] by simp
    then show "(my, i) \<in> set es" using k ij(2) assms(3) by (metis inj_onD)
  qed (auto simp: visit_childPeers)
  consider "my = i" | "my = j" "my \<noteq> i" | "my \<noteq> i" "my \<noteq> j" by blast
  then show ?case
  proof cases
    case 1
    then have "(j, x) \<notin> set es" for x using le ij(1) by fastforce
    with 1 IH show ?thesis using ij by (auto simp: e tree_edge_def)
  next
    case 2
    have no: "(my, k) \<notin> set es" for k using le ij(1) 2 by fastforce
    then show ?thesis using IH 2 ij(1) by (auto simp: e tree_edge_def)
  next
    case 3
    then show ?thesis using IH mem by (auto simp: e tree_edge_def)
  qed
qed

section \<open>The topology every replica agrees on\<close>

text \<open>
  C13: The tree. For at least two replicas and a fanout of at least two there is one list of edges
  that names every replica but the first exactly once as a child, of a parent with a smaller index
  and at most \<open>fanout\<close> children; on every replica \<open>my\<close> the construction ends without an error and
  records exactly this tree: its parent is the parent in the list, its child peers are its
  children, and its aggregation group is its children and grandchildren.
\<close>

theorem tree_topology:
  assumes "2 \<le> nsize" "2 \<le> fanout" "inj_on peer {..<nsize}"
  shows "\<exists>es. map snd es = [1..<nsize] \<and> (\<forall>(a, b) \<in> set es. a < b) \<and>
    (\<forall>a. length (filter (\<lambda>e. fst e = a) es) \<le> fanout) \<and>
    (\<forall>my < nsize. \<exists>t. tree_build nsize fanout my peer None = Inr t \<and>
      t_parentPeer t = (if my = 0 then None else Some (peer (THE i. (i, my) \<in> set es))) \<and>
      t_childPeers t = peer ` {j. (my, j) \<in> set es} \<and>
      t_children t = {j. (my, j) \<in> set es \<or> (\<exists>k. (my, k) \<in> set es \<and> (k, j) \<in> set es)})"
proof -
  obtain es where es: "tree_edges nsize fanout 0 1 es" and run: "\<And>my peer t. t_i t = 0 \<Longrightarrow> \<not> t_done t \<Longrightarrow>
      \<exists>a. tree_loop nsize fanout my peer 1 t = Some (Inr ((visit my peer es t)\<lparr>t_i := a, t_done := True\<rparr>))"
    using tree_loop_edges [of 1 0 nsize fanout] assms(1,2) by auto
  have e: "map snd es = [1..<nsize]" "\<And>a b. (a, b) \<in> set es \<Longrightarrow> a < b" "sorted (map fst es)"
    "\<And>a. length (filter (\<lambda>e. fst e = a) es) \<le> fanout"
    using es by (auto simp: tree_edges_def)
  have b: "b \<in> set [1..<nsize]" if "(a, b) \<in> set es" for a b
    using that e(1) by (metis image_eqI list.set_map snd_conv)
  have range: "a < b \<and> a \<in> {..<nsize} \<and> b \<in> {..<nsize}" if "(a, b) \<in> set es" for a b
    using b [OF that] e(2) [OF that] by auto
  let ?t = "\<lparr>t_i = 0, t_done = False, t_children = {}, t_childPeers = {}, t_parentPeer = None\<rparr>"
  have "\<exists>t. tree_build nsize fanout my peer None = Inr t \<and>
      t_parentPeer t = (if my = 0 then None else Some (peer (THE i. (i, my) \<in> set es))) \<and>
      t_childPeers t = peer ` {j. (my, j) \<in> set es} \<and>
      t_children t = {j. (my, j) \<in> set es \<or> (\<exists>k. (my, k) \<in> set es \<and> (k, j) \<in> set es)}" if my: "my < nsize" for my
  proof -
    from run [of ?t my peer] obtain a where
      r: "tree_build nsize fanout my peer None = Inr ((visit my peer es ?t)\<lparr>t_i := a, t_done := True\<rparr>)"
      by (auto simp: tree_build_def)
    have ex: "(\<exists>i. (i, my) \<in> set es) \<longleftrightarrow> my \<noteq> 0"
    proof
      assume "my \<noteq> 0"
      then have "my \<in> snd ` set es" using e(1) my by (metis atLeastLessThan_iff list.set_map not_less_eq_eq One_nat_def not_gr_zero set_upt Suc_leI)
      then show "\<exists>i. (i, my) \<in> set es" by auto
    qed (use e(2) in fastforce)
    have "t_parentPeer (visit my peer es ?t) = (if my = 0 then None else Some (peer (THE i. (i, my) \<in> set es)))"
      using visit_parent [of es my peer ?t] e(1,2) ex by (metis distinct_upt nat_neq_iff select_convs(5) tree.select_convs(5))
    with r visit_childPeers [of my peer es ?t] visit_children [OF e(3) range assms(3), of my ?t] my show ?thesis by auto
  qed
  with e show ?thesis by (intro exI [of _ es]) auto
qed

theorem tree_topology_witness:
  "\<exists>es. map snd es = [1..<7] \<and> (\<forall>(a, b) \<in> set es. a < b) \<and>
    (\<forall>my < 7. \<exists>t. tree_build 7 2 my (\<lambda>i. of_nat i) None = Inr t \<and> t_childPeers t = of_nat ` {j. (my, j) \<in> set es})"
proof -
  have "inj_on (\<lambda>i. of_nat i :: PeerId) {..<7}"
    by (auto simp: inj_on_def of_nat_inverse dest: arg_cong [where f = unat])
  from tree_topology [OF _ _ this, of 2] obtain es where
    "map snd es = [1..<7]" "\<forall>(a, b) \<in> set es. a < b" and
    t: "\<forall>my < 7. \<exists>t. tree_build 7 2 my (\<lambda>i. of_nat i) None = Inr t \<and>
      t_parentPeer t = (if my = 0 then None else Some (of_nat (THE i. (i, my) \<in> set es))) \<and>
      t_childPeers t = of_nat ` {j. (my, j) \<in> set es} \<and>
      t_children t = {j. (my, j) \<in> set es \<or> (\<exists>k. (my, k) \<in> set es \<and> (k, j) \<in> set es)}" by auto
  moreover from t have "\<forall>my < 7. \<exists>t. tree_build 7 2 my (\<lambda>i. of_nat i) None = Inr t \<and>
      t_childPeers t = of_nat ` {j. (my, j) \<in> set es}" by meson
  ultimately show ?thesis by (intro exI [of _ es] conjI)
qed

section \<open>Configurations the construction cannot handle\<close>

lemma tree_loop_chain:
  assumes "t_i t < nsize" "\<not> t_done t"
  shows "tree_loop nsize 1 my peer 1 t = Some (Inl OutOfRange)"
  using assms
proof (induction "nsize - t_i t" arbitrary: t rule: less_induct)
  case less
  define t1 where "t1 = tree_fan nsize my peer (peer (t_i t)) 1 (t_i t + 1) t"
  have t1: "t_i t1 = t_i t" "t_done t1 \<longleftrightarrow> nsize < t_i t + 2"
    using less.prems by (simp_all add: t1_def tree_fan_visit del: tree_fan.simps)
  have lv: "tree_level nsize my peer 1 1 (t_i t + 1) (peer (t_i t)) t =
    (if Suc (t_i t) < nsize then Inr (t1\<lparr>t_i := Suc (t_i t)\<rparr>) else Inl OutOfRange)"
    using less.prems t1(1) by (simp add: t1_def [symmetric] One_nat_def [symmetric] del: One_nat_def tree_fan.simps)
       (simp add: t1_def)
  have cf: "min ((nsize - t_i t) div 1) 1 = 1" using less.prems(1) by simp
  show ?case
  proof (cases "Suc (t_i t) < nsize")
    case True
    then have "tree_loop nsize 1 my peer 1 (t1\<lparr>t_i := Suc (t_i t)\<rparr>) = Some (Inl OutOfRange)"
      using t1(2) by (intro less.hyps) auto
    moreover have "min (1 * 1) (nsize - t_i t) = 1" using less.prems(1) by simp
    ultimately show ?thesis using less.prems lv True cf
      by (subst tree_loop.simps) (simp only: Let_def cf, simp)
  next
    case False
    then show ?thesis using less.prems lv cf by (subst tree_loop.simps) (simp only: Let_def cf, simp)
  qed
qed

text \<open>
  C18: With a fanout of one, or a single replica and a positive fanout, the construction reads
  \<open>replicas[size]\<close>, past the end of the list; with a fanout of zero and at least two
  replicas it divides by zero.
\<close>

theorem tree_degenerate:
  shows "(1 \<le> nsize \<longrightarrow> tree_build nsize 1 my peer p0 = Inl OutOfRange) \<and>
    (1 \<le> fanout \<longrightarrow> tree_build 1 fanout my peer p0 = Inl OutOfRange) \<and>
    (2 \<le> nsize \<longrightarrow> tree_build nsize 0 my peer p0 = Inl DivByZero)"
proof (intro conjI impI)
  let ?t = "\<lparr>t_i = 0, t_done = False, t_children = {}, t_childPeers = {}, t_parentPeer = p0\<rparr>"
  show "1 \<le> nsize \<Longrightarrow> tree_build nsize 1 my peer p0 = Inl OutOfRange"
    using tree_loop_chain [of ?t nsize my peer] by (simp add: tree_build_def)
  show "1 \<le> fanout \<Longrightarrow> tree_build 1 fanout my peer p0 = Inl OutOfRange"
  proof -
    assume "1 \<le> fanout"
    then have "min ((1 - 0) div 1) fanout = 1" by simp
    then show ?thesis by (simp add: tree_build_def) (subst tree_loop.simps, simp)
  qed
  show "2 \<le> nsize \<Longrightarrow> tree_build nsize 0 my peer p0 = Inl DivByZero"
    by (simp add: tree_build_def) (subst tree_loop.simps, simp, subst tree_loop.simps, simp)
qed

theorem tree_degenerate_witness:
  "tree_build 5 1 2 (\<lambda>i. of_nat i) None = Inl OutOfRange \<and> tree_build 1 10 0 (\<lambda>i. of_nat i) None = Inl OutOfRange \<and>
   tree_build 4 0 3 (\<lambda>i. of_nat i) None = Inl DivByZero"
  using tree_degenerate [of 5 2 "\<lambda>i. of_nat i" None 1] tree_degenerate [of 5 0 "\<lambda>i. of_nat i" None 10]
    tree_degenerate [of 4 3 "\<lambda>i. of_nat i" None 1] by simp

end
