(* ===== verification/Hs_Base.thy ===== *)
theory Hs_Base
  imports Hs_Wire Hs_Tree
begin

text \<open>
  The network layer \<open>HotStuffBase\<close> (\<^verbatim>\<open>include/hotstuff/hotstuff.h\<close>,
  \<^verbatim>\<open>src/hotstuff.cpp\<close>): block fetching and delivery, the message handlers, the
  command queue, and the start of a replica.

  A lambda passed to \<open>then\<close> is a job: the handler that creates it appends it to \<open>jobs\<close>
  with what it captures, and its body is a definition of its own that may run once the promises it
  waits for are resolved (\<open>job_ready\<close>). The answer of the verification pool is computed when the
  task is queued. Messages sent are appended to \<open>net\<close>, calls into the application and the
  pacemaker to \<open>app\<close>. What the pacemaker answers (\<open>get_proposer\<close>,
  \<open>get_parents\<close>, \<open>get_current_proposal\<close>) and readings of the clock are arguments.
\<close>

section \<open>State\<close>

datatype netmsg =
    NetPropose "PeerId set" bytes
  | NetVote "PeerId option" bytes
  | NetRelay "PeerId option" bytes
  | NetReqBlock PeerId bytes
  | NetRespBlock PeerId bytes

datatype ('s, 'b) job =
    JobProposal Proposal
  | JobVote blkref "'s Vote" bool
  | JobRelay blkref "('s, 'b) VoteRelay" bool
  | JobFetched uint256 PeerId
  | JobDeliver blkref bool
  | JobResp PeerId "uint256 list"
  | JobDoVote Proposal "'s Vote"
  | JobBeat

text \<open>The callback of a command is identified by a number.\<close>

datatype app_event =
    AppExecute Finality
  | AppCallback nat Finality
  | AppConsensus blkref
  | AppNotify

record ('p, 'k, 's, 'b) base =
  hsc :: "('p, 'k, 's, 'b) core"
  blk_size :: nat
  peers :: "PeerId list"
  valid_tls_certs :: "uint256 set"
  blk_fetch_waiting :: "(uint256 \<times> PeerId list) list"
  blk_delivery_waiting :: "uint256 set"
  decision_waiting :: "(uint256 \<times> nat) list"
  cmd_pending :: "(uint256 \<times> nat) list"
  cmd_pending_buffer :: "uint256 list"
  final_buffer :: "uint256 list"
  n_fetched :: u64
  n_delivered :: u64
  part_parent_size :: u32
  part_fetched :: u32
  part_delivered :: u32
  part_decided :: u32
  part_fetched_replica :: "(PeerId \<times> u32) list"
  parentPeer :: "PeerId option"
  childPeers :: "PeerId set"
  jobs :: "('s, 'b) job list"
  net :: "netmsg list"
  app :: "app_event list"

abbreviation send :: "netmsg \<Rightarrow> ('p, 'k, 's, 'b) base \<Rightarrow> ('p, 'k, 's, 'b) base" where
  "send m b \<equiv> b\<lparr>net := net b @ [m]\<rparr>"

abbreviation later :: "('s, 'b) job \<Rightarrow> ('p, 'k, 's, 'b) base \<Rightarrow> ('p, 'k, 's, 'b) base" where
  "later j b \<equiv> b\<lparr>jobs := jobs b @ [j]\<rparr>"

abbreviation bblk :: "('p, 'k, 's, 'b) base \<Rightarrow> blkref \<Rightarrow> ('s, 'b) Block" where
  "bblk b r \<equiv> blk (hsc b) r"

abbreviation on_hsc ::
  "(('p, 'k, 's, 'b) core \<Rightarrow> ('p, 'k, 's, 'b) core) \<Rightarrow> ('p, 'k, 's, 'b) base \<Rightarrow> ('p, 'k, 's, 'b) base" where
  "on_hsc f b \<equiv> b\<lparr>hsc := f (hsc b)\<rparr>"

section \<open>Outputs of the core\<close>

definition do_broadcast_proposal ::
  "('p, 'k, 's, 'b) env \<Rightarrow> Proposal \<Rightarrow> ('p, 'k, 's, 'b) base \<Rightarrow> ('p, 'k, 's, 'b) base res" where
  "do_broadcast_proposal E prop b =
     bind (MsgPropose E prop (hsc b)) (\<lambda>m. Inr (send (NetPropose (childPeers b) m) b))"

definition do_vote :: "Proposal \<Rightarrow> 's Vote \<Rightarrow> ('p, 'k, 's, 'b) base \<Rightarrow> ('p, 'k, 's, 'b) base" where
  "do_vote prop v b = later (JobDoVote prop v) b"

definition do_consensus :: "blkref \<Rightarrow> ('p, 'k, 's, 'b) base \<Rightarrow> ('p, 'k, 's, 'b) base" where
  "do_consensus r b = b\<lparr>app := app b @ [AppConsensus r]\<rparr>"

definition do_decide :: "Finality \<Rightarrow> ('p, 'k, 's, 'b) base \<Rightarrow> ('p, 'k, 's, 'b) base" where
  "do_decide f b =
     (let b = b\<lparr>part_decided := part_decided b + 1, app := app b @ [AppExecute f]\<rparr> in
      case map_of (decision_waiting b) (fin_cmd_hash f) of
        None \<Rightarrow> b
      | Some cb \<Rightarrow> b\<lparr>app := app b @ [AppCallback cb f],
                       decision_waiting := umap_erase (fin_cmd_hash f) (decision_waiting b)\<rparr>)"

fun dispatch ::
  "('p, 'k, 's, 'b) env \<Rightarrow> 's out_event \<Rightarrow> ('p, 'k, 's, 'b) base \<Rightarrow> ('p, 'k, 's, 'b) base res" where
  "dispatch E (OutBroadcast p) b = do_broadcast_proposal E p b"
| "dispatch E (OutVote p v) b = Inr (do_vote p v b)"
| "dispatch E (OutDecide f) b = Inr (do_decide f b)"
| "dispatch E (OutConsensus r) b = Inr (do_consensus r b)"
| "dispatch E _ b = Inr (b\<lparr>app := app b @ [AppNotify]\<rparr>)"

text \<open>A call into the core, followed by the calls it makes back into this class.\<close>

definition run_core ::
  "('p, 'k, 's, 'b) env \<Rightarrow> (('p, 'k, 's, 'b) core \<Rightarrow> ('p, 'k, 's, 'b) core res) \<Rightarrow>
     ('p, 'k, 's, 'b) base \<Rightarrow> ('p, 'k, 's, 'b) base res" where
  "run_core E f b =
     bind (f (hsc b)) (\<lambda>st.
       fold_res (dispatch E) (drop (length (outs (hsc b))) (outs st)) (b\<lparr>hsc := st\<rparr>))"

section \<open>Fetching blocks\<close>

definition fetch_send ::
  "('p, 'k, 's, 'b) env \<Rightarrow> uint256 \<Rightarrow> PeerId \<Rightarrow> ('p, 'k, 's, 'b) base \<Rightarrow> ('p, 'k, 's, 'b) base" where
  "fetch_send E h peer b =
     send (NetReqBlock peer (MsgReqBlock E [h]))
       (b\<lparr>part_fetched_replica := umap_put peer
            ((case map_of (part_fetched_replica b) peer of None \<Rightarrow> 0 | Some n \<Rightarrow> n) + 1) (part_fetched_replica b)\<rparr>)"

definition fetch_add_replica ::
  "('p, 'k, 's, 'b) env \<Rightarrow> uint256 \<Rightarrow> PeerId \<Rightarrow> bool \<Rightarrow> ('p, 'k, 's, 'b) base \<Rightarrow> ('p, 'k, 's, 'b) base" where
  "fetch_add_replica E h peer fetch_now b =
     (let rs = (case map_of (blk_fetch_waiting b) h of None \<Rightarrow> [] | Some rs \<Rightarrow> rs);
          b = (if rs = [] \<and> fetch_now then fetch_send E h peer b else b) in
      b\<lparr>blk_fetch_waiting := umap_put h (if peer \<in> set rs then rs else rs @ [peer]) (blk_fetch_waiting b)\<rparr>)"

definition fetch_timeout_cb ::
  "('p, 'k, 's, 'b) env \<Rightarrow> uint256 \<Rightarrow> ('p, 'k, 's, 'b) base \<Rightarrow> ('p, 'k, 's, 'b) base" where
  "fetch_timeout_cb E h b =
     (case map_of (blk_fetch_waiting b) h of None \<Rightarrow> b | Some rs \<Rightarrow> fold (fetch_send E h) rs b)"

definition async_fetch_blk ::
  "('p, 'k, 's, 'b) env \<Rightarrow> uint256 \<Rightarrow> PeerId option \<Rightarrow> bool \<Rightarrow> ('p, 'k, 's, 'b) base \<Rightarrow> ('p, 'k, 's, 'b) base" where
  "async_fetch_blk E h peer fetch_now b =
     (if is_blk_fetched h (mem (hsc b)) then b
      else
        let b = b\<lparr>blk_fetch_waiting := umap_insert h [] (blk_fetch_waiting b)\<rparr> in
        case peer of None \<Rightarrow> b | Some p \<Rightarrow> fetch_add_replica E h p fetch_now b)"

definition on_fetch_blk :: "blkref \<Rightarrow> ('p, 'k, 's, 'b) base \<Rightarrow> ('p, 'k, 's, 'b) base" where
  "on_fetch_blk r b =
     b\<lparr>part_fetched := part_fetched b + 1, n_fetched := n_fetched b + 1,
       blk_fetch_waiting := umap_erase (hash (bblk b r)) (blk_fetch_waiting b)\<rparr>"

section \<open>Delivering blocks\<close>

definition async_deliver_blk ::
  "('p, 'k, 's, 'b) env \<Rightarrow> uint256 \<Rightarrow> PeerId \<Rightarrow> ('p, 'k, 's, 'b) base \<Rightarrow> ('p, 'k, 's, 'b) base" where
  "async_deliver_blk E h peer b =
     (if is_blk_delivered h (mem (hsc b)) \<or> h \<in> blk_delivery_waiting b then b
      else
        later (JobFetched h peer)
          (async_fetch_blk E h (Some peer) True
            (b\<lparr>blk_delivery_waiting := insert h (blk_delivery_waiting b)\<rparr>)))"

text \<open>The lambda that runs when the block is fetched: its certificate is verified, the block its
  certificate refers to is fetched, its parents are delivered.\<close>

definition fetched_cont ::
  "('p, 'k, 's, 'b) env \<Rightarrow> uint256 \<Rightarrow> PeerId \<Rightarrow> ('p, 'k, 's, 'b) base \<Rightarrow> ('p, 'k, 's, 'b) base res" where
  "fetched_cont E h peer b =
     bind (deref (find_blk h (mem (hsc b)))) (\<lambda>r.
     case blk_qc (bblk b r) of None \<Rightarrow> Inl AssertFail | Some q \<Rightarrow>
     bind (if r = b0 (hsc b) then Inr True
           else block_verify_pool E (config (hsc b)) (hash (bblk b (b0 (hsc b)))) (bblk b r)) (\<lambda>ok.
       let b = async_fetch_blk E (qc_obj_hash q) (Some peer) True b;
           b = fold (\<lambda>ph. async_deliver_blk E ph peer) (parent_hashes (bblk b r)) b in
       Inr (later (JobDeliver r ok) b)))"

text \<open>Jobs that wait for the delivery of a block are dropped when its promise is rejected.\<close>

fun waits_delivery :: "('p, 'k, 's, 'b) core \<Rightarrow> uint256 \<Rightarrow> ('s, 'b) job \<Rightarrow> bool" where
  "waits_delivery st h (JobProposal p) = (hash (blk st (prop_blk p)) = h)"
| "waits_delivery st h (JobVote r v ok) = (v_blk_hash v = h)"
| "waits_delivery st h (JobRelay r v ok) = (vr_blk_hash v = h)"
| "waits_delivery st h (JobDeliver r ok) = (h \<in> set (parent_hashes (blk st r)))"
| "waits_delivery st h _ = False"

definition base_on_deliver_blk ::
  "('p, 'k, 's, 'b) env \<Rightarrow> blkref \<Rightarrow> timeval \<Rightarrow> ('p, 'k, 's, 'b) base \<Rightarrow> (bool \<times> ('p, 'k, 's, 'b) base) res" where
  "base_on_deliver_blk E r now b =
     (let h = hash (bblk b r) in
      if \<not> list_all (\<lambda>p. is_blk_delivered p (mem (hsc b))) (parent_hashes (bblk b r)) then Inl AssertFail
      else bind (on_deliver_blk r now (hsc b)) (\<lambda>(valid, st).
        let b = b\<lparr>hsc := st\<rparr>;
            b = (if valid then b\<lparr>part_parent_size := part_parent_size b + of_nat (length (parent_hashes (bblk b r))),
                                part_delivered := part_delivered b + 1, n_delivered := n_delivered b + 1\<rparr>
                 else b) in
        if h \<in> blk_delivery_waiting b then
          let b = b\<lparr>blk_delivery_waiting := blk_delivery_waiting b - {h}\<rparr> in
          if valid then Inr (True, b)
          else Inr (False, b\<lparr>jobs := filter (\<lambda>j. \<not> waits_delivery (hsc b) h j) (jobs b)\<rparr>)
        else Inr (True, b)))"

definition deliver_cont ::
  "('p, 'k, 's, 'b) env \<Rightarrow> blkref \<Rightarrow> bool \<Rightarrow> timeval \<Rightarrow> ('p, 'k, 's, 'b) base \<Rightarrow> ('p, 'k, 's, 'b) base res" where
  "deliver_cont E r ok now b =
     (if ok then bind (base_on_deliver_blk E r now b) (\<lambda>(_, b). Inr b) else Inr b)"

section \<open>Proposals\<close>

definition propose_handler ::
  "('p, 'k, 's, 'b) env \<Rightarrow> bytes \<Rightarrow> PeerId option \<Rightarrow> ('p, 'k, 's, 'b) base \<Rightarrow> ('p, 'k, 's, 'b) base res" where
  "propose_handler E msg peer b =
     (case peer of None \<Rightarrow> Inr b | Some p \<Rightarrow>
      let b = (if childPeers b \<noteq> {} then send (NetPropose (childPeers b) msg) b else b) in
      bind (MsgPropose_parse E msg (hsc b)) (\<lambda>(prop, st).
        let b = b\<lparr>hsc := st\<rparr> in
        Inr (later (JobProposal prop) (async_deliver_blk E (hash (bblk b (prop_blk prop))) p b))))"

definition proposal_cont ::
  "('p, 'k, 's, 'b) env \<Rightarrow> Proposal \<Rightarrow> ('p, 'k, 's, 'b) base \<Rightarrow> ('p, 'k, 's, 'b) base res" where
  "proposal_cont E prop b = run_core E (on_receive_proposal E prop) b"

section \<open>Votes\<close>

text \<open>The first part of both vote handlers: a block of the pipeline is processed when its first
  vote arrives, and a block that is not delivered gets a certificate with the own part.\<close>

definition normalise_piped ::
  "('p, 'k, 's, 'b) env \<Rightarrow> ReplicaID \<Rightarrow> uint256 \<Rightarrow> timeval \<Rightarrow> ('p, 'k, 's, 'b) base \<Rightarrow> ('p, 'k, 's, 'b) base res" where
  "normalise_piped E prid h now b =
     (if my_id (hsc b) = prid \<and> piped_queue (hsc b) \<noteq> [] \<and> h \<in> set (piped_queue (hsc b)) then
        bind (deref (find_blk h (mem (hsc b)))) (\<lambda>r.
          if \<not> delivered (bblk b r)
          then run_core E (\<lambda>st. bind (process_block E r False now st) (\<lambda>(_, st). Inr st)) b
          else Inr b)
      else Inr b)"

definition ensure_cert ::
  "('p, 'k, 's, 'b) env \<Rightarrow> blkref \<Rightarrow> ('p, 'k, 's, 'b) core \<Rightarrow> ('p, 'k, 's, 'b) core res" where
  "ensure_cert E r st =
     (if \<not> delivered (blk st r) \<and> self_qc (blk st r) = None then
        let h = hash (blk st r) in
        bind (qc_add_part E (config st) (my_id st) (create_part_cert E (sch st) (priv_key st) h)
               (create_quorum_cert E (sch st) (config st) h)) (\<lambda>q.
          Inr (set_blk r (\<lambda>b. b\<lparr>self_qc := Some q\<rparr>) st))
      else Inr st)"

definition vote_handler ::
  "('p, 'k, 's, 'b) env \<Rightarrow> ReplicaID \<Rightarrow> bytes \<Rightarrow> PeerId option \<Rightarrow> timeval \<Rightarrow>
     ('p, 'k, 's, 'b) base \<Rightarrow> ('p, 'k, 's, 'b) base res" where
  "vote_handler E prid msg peer now b =
     (case peer of None \<Rightarrow> Inr b | Some p \<Rightarrow>
      bind (MsgVote_parse E (sch (hsc b)) msg) (\<lambda>v.
      bind (normalise_piped E prid (v_blk_hash v) now b) (\<lambda>b.
      bind (get_potentially_not_delivered_blk (v_blk_hash v) (hsc b)) (\<lambda>r.
      bind (ensure_cert E r (hsc b)) (\<lambda>st.
      let b = b\<lparr>hsc := st\<rparr> in
      bind (deref (self_qc (bblk b r))) (\<lambda>q.
      if qc_has_n (nmaj (hsc b)) q then Inr b
      else
        let b = async_deliver_blk E (v_blk_hash v) p b in
        bind (vote_verify E (config (hsc b)) v) (\<lambda>ok. Inr (later (JobVote r v ok) b))))))))"

definition group_size :: "('p, 'k, 's, 'b) core \<Rightarrow> u32" where
  "group_size st = ucast (numberOfChildren st) + 1"

text \<open>The walk over the pipeline that erases confirmed blocks. Erasing invalidates the iterator
  the loop goes on with.\<close>

fun scan_piped :: "('p, 'k, 's, 'b) core \<Rightarrow> uint256 list \<Rightarrow> unit res" where
  "scan_piped st [] = Inr ()"
| "scan_piped st (h # hs) =
     bind (deref (find_blk h (mem st))) (\<lambda>r.
     if delivered (blk st r) then
       bind (deref (blk_qc (blk st r))) (\<lambda>q.
         if qc_has_n (nmaj st) q then Inl OutOfRange else scan_piped st hs)
     else scan_piped st hs)"

definition pop_piped :: "blkref \<Rightarrow> ('p, 'k, 's, 'b) core \<Rightarrow> ('p, 'k, 's, 'b) core res" where
  "pop_piped r st =
     (if piped_queue st = [] then Inr st
      else bind (scan_piped st (piped_queue st)) (\<lambda>_.
        bind (front (piped_queue st)) (\<lambda>h.
          Inr (if hash (blk st r) = h then st\<lparr>piped_queue := tl (piped_queue st)\<rparr> else st))))"

abbreviation put_cert ::
  "blkref \<Rightarrow> ('s, 'b) QuorumCert \<Rightarrow> ('p, 'k, 's, 'b) core \<Rightarrow> ('p, 'k, 's, 'b) core" where
  "put_cert r q st \<equiv> set_blk r (\<lambda>b. b\<lparr>self_qc := Some q\<rparr>) st"

definition send_relay ::
  "('p, 'k, 's, 'b) env \<Rightarrow> uint256 \<Rightarrow> ('s, 'b) QuorumCert \<Rightarrow> ('p, 'k, 's, 'b) base \<Rightarrow> ('p, 'k, 's, 'b) base res" where
  "send_relay E h q b =
     bind (MsgRelay E \<lparr>vr_blk_hash = h, vr_cert = Some (qc_clone q)\<rparr>) (\<lambda>m.
       Inr (send (NetRelay (parentPeer b) m) b))"

text \<open>The lambda of \<open>vote_handler\<close> on an inner node: once the whole group has voted, the
  aggregate is checked and relayed to the parent.\<close>

definition inner_vote ::
  "('p, 'k, 's, 'b) env \<Rightarrow> blkref \<Rightarrow> 's Vote \<Rightarrow> 's part_cert \<Rightarrow> ('s, 'b) QuorumCert \<Rightarrow>
     ('p, 'k, 's, 'b) base \<Rightarrow> ('p, 'k, 's, 'b) base res" where
  "inner_vote E r v pc q b =
     (if qc_has_n (group_size (hsc b)) q then Inr b
      else
        bind (qc_add_part E (config (hsc b)) (voter v) pc q) (\<lambda>q1.
        if \<not> qc_has_n (group_size (hsc b)) q1 then Inr (on_hsc (put_cert r q1) b)
        else
          bind (pop_piped r (hsc b)) (\<lambda>st.
          let q2 = qc_compute E q1; b = b\<lparr>hsc := put_cert r q2 st\<rparr> in
          bind (qc_verify E (config (hsc b)) q2) (\<lambda>ok.
          if \<not> ok then Inr b else send_relay E (v_blk_hash v) q2 b))))"

text \<open>The lambda of \<open>vote_handler\<close> on the proposer.\<close>

definition root_vote ::
  "('p, 'k, 's, 'b) env \<Rightarrow> blkref \<Rightarrow> 's Vote \<Rightarrow> 's part_cert \<Rightarrow> ('s, 'b) QuorumCert \<Rightarrow>
     ('p, 'k, 's, 'b) core \<Rightarrow> ('p, 'k, 's, 'b) core res" where
  "root_vote E r v pc q st =
     bind (qc_add_part E (config st) (voter v) pc q) (\<lambda>q1.
     if qc_obj_hash q1 = hash (blk st r) \<and> qc_has_n (nmaj st) q1 then
       let q2 = qc_compute E q1; st = put_cert r q2 st in
       bind (if my_id st \<noteq> 0 then qc_verify E (config st) q2 else Inr True) (\<lambda>ok.
       if \<not> ok then Inl (RuntimeError ''Invalid Sigs in intermediate signature!'')
       else bind (update_hqc r (Some q2) st) (\<lambda>st. Inr (on_qc_finish r st)))
     else Inr (put_cert r q1 st))"

definition vote_cont ::
  "('p, 'k, 's, 'b) env \<Rightarrow> ReplicaID \<Rightarrow> blkref \<Rightarrow> 's Vote \<Rightarrow> bool \<Rightarrow>
     ('p, 'k, 's, 'b) base \<Rightarrow> ('p, 'k, 's, 'b) base res" where
  "vote_cont E prid r v ok b =
     bind (deref (self_qc (bblk b r))) (\<lambda>q.
     bind (deref (v_cert v)) (\<lambda>pc.
       if my_id (hsc b) \<noteq> prid then inner_vote E r v pc q b
       else run_core E (root_vote E r v pc q) b))"

section \<open>Vote relays\<close>

text \<open>The first block of the ready queue whose first parent is \<open>ch\<close>.\<close>

fun find_ready :: "('p, 'k, 's, 'b) core \<Rightarrow> uint256 \<Rightarrow> uint256 list \<Rightarrow> (uint256 \<times> blkref) option res" where
  "find_ready st ch [] = Inr None"
| "find_ready st ch (h # hs) =
     bind (deref (find_blk h (mem st))) (\<lambda>r.
     bind (front (parent_hashes (blk st r))) (\<lambda>ph.
       if ph = ch then Inr (Some (h, r)) else find_ready st ch hs))"

text \<open>
  The loop that finishes the blocks of the ready queue that extend a finished block. The loop
  variable refers to an element of the queue that has just been erased: \<open>stale\<close> is what the
  reference reads then. Erasing the end iterator is an error. Each round removes an element of the
  queue, so its length bounds the rounds (\<open>fuel\<close>).
\<close>

fun resolve_ready ::
  "(uint256 \<Rightarrow> uint256) \<Rightarrow> nat \<Rightarrow> uint256 \<Rightarrow> ('p, 'k, 's, 'b) core \<Rightarrow> ('p, 'k, 's, 'b) core res" where
  "resolve_ready stale 0 ch st = Inr st"
| "resolve_ready stale (Suc fuel) ch st =
     bind (find_ready st ch (rdy_queue st)) (\<lambda>found.
     case found of None \<Rightarrow> Inr st | Some (h, r) \<Rightarrow>
       let st = st\<lparr>rdy_queue := remove1 h (rdy_queue st)\<rparr>; h' = stale h in
       bind (guard (h' \<in> set (piped_queue st)) OutOfRange) (\<lambda>_.
       let st = st\<lparr>piped_queue := remove1 h' (piped_queue st)\<rparr> in
       bind (update_hqc r (self_qc (blk st r)) st) (\<lambda>st.
       resolve_ready stale fuel (hash (blk st r)) (on_qc_finish r st))))"

text \<open>The block at the front of the pipeline is popped, and the ready blocks above it are
  finished.\<close>

definition pop_and_resolve ::
  "(uint256 \<Rightarrow> uint256) \<Rightarrow> blkref \<Rightarrow> ('p, 'k, 's, 'b) core \<Rightarrow> ('p, 'k, 's, 'b) core res" where
  "pop_and_resolve stale r st =
     resolve_ready stale (length (rdy_queue st)) (hash (blk st r)) st"

definition vote_relay_handler ::
  "('p, 'k, 's, 'b) env \<Rightarrow> ReplicaID \<Rightarrow> (uint256 \<Rightarrow> uint256) \<Rightarrow> bytes \<Rightarrow> PeerId option \<Rightarrow> timeval \<Rightarrow>
     ('p, 'k, 's, 'b) base \<Rightarrow> ('p, 'k, 's, 'b) base res" where
  "vote_relay_handler E prid stale msg peer now b =
     (case peer of None \<Rightarrow> Inr b | Some p \<Rightarrow>
      bind (MsgRelay_parse E (sch (hsc b)) msg) (\<lambda>v.
      bind (normalise_piped E prid (vr_blk_hash v) now b) (\<lambda>b.
      bind (get_potentially_not_delivered_blk (vr_blk_hash v) (hsc b)) (\<lambda>r.
      bind (ensure_cert E r (hsc b)) (\<lambda>st.
      let b = b\<lparr>hsc := st\<rparr> in
      bind (deref (self_qc (bblk b r))) (\<lambda>q.
      if qc_has_n (nmaj (hsc b)) q then
        if my_id (hsc b) = prid then
          bind (front (piped_queue (hsc b))) (\<lambda>h.
            if hash (bblk b r) = h then
              run_core E (pop_and_resolve stale r)
                (on_hsc (\<lambda>st. st\<lparr>piped_queue := tl (piped_queue st)\<rparr>) b)
            else Inr b)
        else Inr b
      else
        let b = async_deliver_blk E (vr_blk_hash v) p b in
        bind (deref (vr_cert v)) (\<lambda>c.
        bind (qc_verify_pool E (config (hsc b)) c) (\<lambda>ok. Inr (later (JobRelay r v ok) b)))))))))"

text \<open>The lambda of \<open>vote_relay_handler\<close> on the proposer, with a certificate that reached a
  quorum and verified.\<close>

definition finish_relay ::
  "(uint256 \<Rightarrow> uint256) \<Rightarrow> blkref \<Rightarrow> ('s, 'b) QuorumCert \<Rightarrow> ('p, 'k, 's, 'b) core \<Rightarrow> ('p, 'k, 's, 'b) core res" where
  "finish_relay stale r q st =
     (case piped_queue st of
        [] \<Rightarrow> bind (update_hqc r (Some q) st) (\<lambda>st. Inr (on_qc_finish r st))
      | h # hs \<Rightarrow>
          if hash (blk st r) = h then
            bind (update_hqc r (Some q) (st\<lparr>piped_queue := hs\<rparr>)) (\<lambda>st.
              pop_and_resolve stale r (on_qc_finish r st))
          else if hash (blk st r) \<in> set (piped_queue st) then
            Inr (st\<lparr>rdy_queue := rdy_queue st @ [hash (blk st r)]\<rparr>)
          else bind (update_hqc r (Some q) st) (\<lambda>st. Inr (on_qc_finish r st)))"

definition relay_cont ::
  "('p, 'k, 's, 'b) env \<Rightarrow> ReplicaID \<Rightarrow> (uint256 \<Rightarrow> uint256) \<Rightarrow> blkref \<Rightarrow> ('s, 'b) VoteRelay \<Rightarrow> bool \<Rightarrow>
     ('p, 'k, 's, 'b) base \<Rightarrow> ('p, 'k, 's, 'b) base res" where
  "relay_cont E prid stale r v ok b =
     (case self_qc (bblk b r) of None \<Rightarrow> Inr b | Some q \<Rightarrow>
      if qc_obj_hash q \<noteq> hash (bblk b r) \<or> qc_has_n (nmaj (hsc b)) q then Inr b
      else if my_id (hsc b) \<noteq> prid \<and> qc_has_n (group_size (hsc b)) q then Inr b
      else
        bind (deref (vr_cert v)) (\<lambda>c.
        bind (qc_merge_quorum E c q) (\<lambda>q1.
        let b = on_hsc (put_cert r q1) b in
        if my_id (hsc b) \<noteq> prid then
          if \<not> qc_has_n (group_size (hsc b)) q1 then Inr b
          else
            let q2 = qc_compute E q1; b = on_hsc (put_cert r q2) b in
            bind (qc_verify E (config (hsc b)) q2) (\<lambda>good.
            if \<not> good then Inl (RuntimeError ''Invalid Sigs in intermediate signature!'')
            else send_relay E (vr_blk_hash v) q2 b)
        else if \<not> qc_has_n (nmaj (hsc b)) q1 then Inr b
        else
          let q2 = qc_compute E q1; b = on_hsc (put_cert r q2) b in
          bind (qc_verify E (config (hsc b)) q2) (\<lambda>good.
          if \<not> good then Inr b else run_core E (finish_relay stale r q2) b))))"

section \<open>Block requests and connections\<close>

definition req_blk_handler ::
  "('p, 'k, 's, 'b) env \<Rightarrow> bytes \<Rightarrow> PeerId option \<Rightarrow> ('p, 'k, 's, 'b) base \<Rightarrow> ('p, 'k, 's, 'b) base res" where
  "req_blk_handler E msg peer b =
     (case peer of None \<Rightarrow> Inr b | Some p \<Rightarrow>
      bind (MsgReqBlock_parse E msg) (\<lambda>hs.
        Inr (later (JobResp p hs) (fold (\<lambda>h. async_fetch_blk E h None True) hs b))))"

definition resp_cont ::
  "('p, 'k, 's, 'b) env \<Rightarrow> PeerId \<Rightarrow> uint256 list \<Rightarrow> ('p, 'k, 's, 'b) base \<Rightarrow> ('p, 'k, 's, 'b) base res" where
  "resp_cont E p hs b =
     bind (fold_res (\<lambda>h rs. bind (deref (find_blk h (mem (hsc b)))) (\<lambda>r. Inr (rs @ [r]))) hs []) (\<lambda>rs.
     bind (MsgRespBlock E (map (bblk b) rs)) (\<lambda>m. Inr (send (NetRespBlock p m) b)))"

definition resp_blk_handler ::
  "('p, 'k, 's, 'b) env \<Rightarrow> bytes \<Rightarrow> ('p, 'k, 's, 'b) base \<Rightarrow> ('p, 'k, 's, 'b) base res" where
  "resp_blk_handler E msg b =
     bind (MsgRespBlock_parse E msg (hsc b)) (\<lambda>(rs, st). Inr (fold on_fetch_blk rs (b\<lparr>hsc := st\<rparr>)))"

definition conn_handler ::
  "('p, 'k, 's, 'b) env \<Rightarrow> bytes option \<Rightarrow> bool \<Rightarrow> ('p, 'k, 's, 'b) base \<Rightarrow> bool" where
  "conn_handler E der connected b =
     (connected \<longrightarrow> (case der of None \<Rightarrow> True | Some d \<Rightarrow> sha256 E d \<in> valid_tls_certs b))"

section \<open>Sending the own vote\<close>

definition do_vote_cont ::
  "('p, 'k, 's, 'b) env \<Rightarrow> Proposal \<Rightarrow> 's Vote \<Rightarrow> ReplicaID \<Rightarrow> ('p, 'k, 's, 'b) base \<Rightarrow> ('p, 'k, 's, 'b) base res" where
  "do_vote_cont E prop v prid b =
     (if prid = my_id (hsc b) then Inl (HotStuffError ''unreachable line'')
      else if childPeers b = {} then bind (MsgVote E v) (\<lambda>m. Inr (send (NetVote (parentPeer b) m) b))
      else
        bind (get_delivered_blk (v_blk_hash v) (hsc b)) (\<lambda>r.
        if self_qc (bblk b r) \<noteq> None then Inr b
        else
          bind (deref (v_cert v)) (\<lambda>pc.
          bind (qc_add_part E (config (hsc b)) (voter v) pc
                 (create_quorum_cert E (sch (hsc b)) (config (hsc b)) (hash (bblk b (prop_blk prop))))) (\<lambda>q.
            Inr (on_hsc (put_cert r q) b)))))"

section \<open>Commands and proposing\<close>

definition exec_command :: "uint256 \<Rightarrow> nat \<Rightarrow> ('p, 'k, 's, 'b) base \<Rightarrow> ('p, 'k, 's, 'b) base" where
  "exec_command h cb b = b\<lparr>cmd_pending := cmd_pending b @ [(h, cb)]\<rparr>"

definition pending_reply :: "('p, 'k, 's, 'b) env \<Rightarrow> uint256 \<Rightarrow> ('p, 'k, 's, 'b) core \<Rightarrow> Finality" where
  "pending_reply E h st = \<lparr>fin_rid = my_id st, fin_decision = 0, fin_cmd_idx = 0, fin_cmd_height = 0,
     fin_cmd_hash = h, fin_blk_hash = u256_default E\<rparr>"

definition accept_command ::
  "('p, 'k, 's, 'b) env \<Rightarrow> uint256 \<Rightarrow> nat \<Rightarrow> ('p, 'k, 's, 'b) base \<Rightarrow> ('p, 'k, 's, 'b) base" where
  "accept_command E h cb b =
     (let reply = AppCallback cb (pending_reply E h (hsc b)) in
      if length (cmd_pending_buffer b) < blk_size b \<and> final_buffer b = [] then
        b\<lparr>decision_waiting := umap_insert h cb (decision_waiting b), app := app b @ [reply],
          cmd_pending_buffer := cmd_pending_buffer b @ [h]\<rparr>
      else b\<lparr>app := app b @ [reply]\<rparr>)"

text \<open>The handler of the command queue; the result says whether it stopped with a beat.\<close>

fun cmd_loop ::
  "('p, 'k, 's, 'b) env \<Rightarrow> ReplicaID \<Rightarrow> (uint256 \<times> nat) list \<Rightarrow> ('p, 'k, 's, 'b) base \<Rightarrow>
     bool \<times> ('p, 'k, 's, 'b) base" where
  "cmd_loop E prid [] b = (False, b\<lparr>cmd_pending := []\<rparr>)"
| "cmd_loop E prid ((h, cb) # q) b =
     (if prid \<noteq> my_id (hsc b) then cmd_loop E prid q b
      else
        let b = accept_command E h cb b in
        if blk_size b \<le> length (cmd_pending_buffer b) \<or> final_buffer b \<noteq> [] then
          let b = (if final_buffer b = [] then b\<lparr>final_buffer := cmd_pending_buffer b, cmd_pending_buffer := []\<rparr> else b) in
          (True, later JobBeat (b\<lparr>cmd_pending := q\<rparr>))
        else cmd_loop E prid q b)"

definition cmd_handler ::
  "('p, 'k, 's, 'b) env \<Rightarrow> ReplicaID \<Rightarrow> ('p, 'k, 's, 'b) base \<Rightarrow> bool \<times> ('p, 'k, 's, 'b) base" where
  "cmd_handler E prid b = cmd_loop E prid (cmd_pending b) b"

text \<open>The highest block of the pipeline, starting from the current proposal.\<close>

definition highest_piped :: "('p, 'k, 's, 'b) core \<Rightarrow> blkref \<Rightarrow> blkref res" where
  "highest_piped st current =
     fold_res (\<lambda>h best. bind (deref (find_blk h (mem st))) (\<lambda>r.
        Inr (if height (blk st r) > height (blk st best) then r else best))) (piped_queue st) current"

definition propose_piped ::
  "('p, 'k, 's, 'b) env \<Rightarrow> uint256 list \<Rightarrow> blkref list \<Rightarrow> blkref \<Rightarrow> timeval \<Rightarrow>
     ('p, 'k, 's, 'b) core \<Rightarrow> ('p, 'k, 's, 'b) core res" where
  "propose_piped E cm ps current now st =
     bind (highest_piped st current) (\<lambda>hi.
     bind (front ps) (\<lambda>p.
     let ps = (if height (blk st p) < height (blk st hi) then hi # ps else ps) in
     bind (new_blk E ps cm [] (Some current) st) (\<lambda>(r, st).
     let st = st\<lparr>piped_queue := piped_queue st @ [hash (blk st r)], last_block_time := now\<rparr> in
     Inr (emit (OutBroadcast \<lparr>proposer = my_id st, prop_blk = r\<rparr>) st\<lparr>piped_submitted := False\<rparr>))))"

text \<open>The lambda of \<open>beat\<close>. The size of the pipeline is compared with \<open>async_blocks\<close> as an
  unsigned 64-bit number.\<close>

definition async_blocks64 :: "('p, 'k, 's, 'b) core \<Rightarrow> nat" where
  "async_blocks64 st = unat (scast (async_blocks (config st)) :: u64)"

definition async_limit :: "('p, 'k, 's, 'b) core \<Rightarrow> nat" where
  "async_limit st = unat (scast (async_blocks (config st) + 1) :: u64)"

definition beat_cont ::
  "('p, 'k, 's, 'b) env \<Rightarrow> ReplicaID \<Rightarrow> blkref list \<Rightarrow> blkref \<Rightarrow> timeval \<Rightarrow> timeval \<Rightarrow> timeval \<Rightarrow> timeval \<Rightarrow>
     ('p, 'k, 's, 'b) base \<Rightarrow> ('p, 'k, 's, 'b) base res" where
  "beat_cont E prid parents0 current now t1 t2 t3 b =
     (let st = hsc b in
      if async_limit st < length (piped_queue st) then Inr b
      else if prid \<noteq> my_id st then Inr b
      else if length (piped_queue st) < async_blocks64 st \<and> current \<noteq> b0 st then
        if piped_queue st = [] \<and>
           c_div (usec_between (last_block_time st) now) 1000 < sint (piped_latency (config st))
        then Inr b
        else run_core E (propose_piped E (final_buffer b) parents0 current t1) b
      else
        run_core E (\<lambda>st. bind (on_propose E (final_buffer b) parents0 [] t1 t2 t3 (st\<lparr>last_block_time := now\<rparr>))
          (\<lambda>(_, st). Inr st)) b)"

section \<open>Starting a replica\<close>

definition HotStuffBase_new ::
  "('p, 'k, 's, 'b) env \<Rightarrow> scheme \<Rightarrow> u32 \<Rightarrow> ReplicaID \<Rightarrow> 'p \<Rightarrow> u64 \<Rightarrow> u64 \<Rightarrow> timeval \<Rightarrow> ('p, 'k, 's, 'b) base res" where
  "HotStuffBase_new E sc bs i sk lat0 cnt0 t0 =
     bind (HotStuffCore_new E sc i sk lat0 cnt0 t0) (\<lambda>st.
       Inr \<lparr>hsc = st, blk_size = unat bs, peers = [], valid_tls_certs = {}, blk_fetch_waiting = [],
            blk_delivery_waiting = {}, decision_waiting = [], cmd_pending = [], cmd_pending_buffer = [],
            final_buffer = [], n_fetched = 0, n_delivered = 0, part_parent_size = 0, part_fetched = 0,
            part_delivered = 0, part_decided = 0, part_fetched_replica = [], parentPeer = None,
            childPeers = {}, jobs = [], net = [], app = []\<rparr>)"

record 'k replica_entry =
  re_addr :: nat
  re_pubkey :: 'k
  re_cert :: uint256

definition add_peer :: "nat \<Rightarrow> nat \<times> 'k replica_entry \<Rightarrow> ('p, 'k, 's, 'b) base \<Rightarrow> ('p, 'k, 's, 'b) base" where
  "add_peer listen_addr e b =
     (let b = on_hsc (add_replica (of_nat (fst e)) (re_cert (snd e)) (re_pubkey (snd e)))
                (b\<lparr>valid_tls_certs := insert (re_cert (snd e)) (valid_tls_certs b)\<rparr>) in
      if re_addr (snd e) \<noteq> listen_addr then b\<lparr>peers := peers b @ [re_cert (snd e)]\<rparr> else b)"

definition start ::
  "('p, 'k, 's, 'b) env \<Rightarrow> nat \<Rightarrow> 'k replica_entry list \<Rightarrow> ('p, 'k, 's, 'b) base \<Rightarrow> ('p, 'k, 's, 'b) base res" where
  "start E listen_addr rs b =
     (let b = fold (add_peer listen_addr) (zip [0..<length rs] rs) (b\<lparr>childPeers := {}\<rparr>) in
      bind (tree_build (length rs) (unat (scast (fanout (config (hsc b))) :: u64)) (unat (my_id (hsc b)))
              (\<lambda>j. re_cert (rs ! j)) (parentPeer b)) (\<lambda>t.
      let b = b\<lparr>childPeers := t_childPeers t, parentPeer := t_parentPeer t\<rparr>;
          b = on_hsc (\<lambda>st. st\<lparr>numberOfChildren := numberOfChildren_of t\<rparr>) b in
      Inr (on_hsc (on_init E (of_nat (length (peers b) div 3))) b)))"

section \<open>Ready jobs\<close>

fun job_ready :: "('p, 'k, 's, 'b) core \<Rightarrow> ('s, 'b) job \<Rightarrow> bool" where
  "job_ready st (JobProposal p) = is_blk_delivered (hash (blk st (prop_blk p))) (mem st)"
| "job_ready st (JobVote r v ok) = is_blk_delivered (v_blk_hash v) (mem st)"
| "job_ready st (JobRelay r v ok) = is_blk_delivered (vr_blk_hash v) (mem st)"
| "job_ready st (JobFetched h p) = is_blk_fetched h (mem st)"
| "job_ready st (JobDeliver r ok) =
     ((case blk_qc (blk st r) of None \<Rightarrow> False | Some q \<Rightarrow> is_blk_fetched (qc_obj_hash q) (mem st)) \<and>
      list_all (\<lambda>h. is_blk_delivered h (mem st)) (parent_hashes (blk st r)))"
| "job_ready st (JobResp p hs) = list_all (\<lambda>h. is_blk_fetched h (mem st)) hs"
| "job_ready st (JobDoVote p v) = True"
| "job_ready st JobBeat = True"

end
