(* ===== verification/Hs_Chain.thy ===== *)
theory Hs_Chain
  imports Hs_Core
begin

text \<open>
  The block graph \<open>HotStuffCore\<close> keeps: when it is well formed, the paths that follow
  \<open>parents[0]\<close>, and the two loops of \<^verbatim>\<open>src/consensus.cpp\<close> that walk
  it. On a well-formed graph both loops end, neither reads \<open>parents[0]\<close> of a block
  without parents, and their results are characterised by paths.
\<close>

section \<open>Paths\<close>

text \<open>\<open>is_path hp a xs b\<close>: starting above \<open>a\<close>, the blocks \<open>xs\<close> are each
  the first-parent child of the one before, and the last is \<open>b\<close>.\<close>

fun is_path :: "(blkref \<Rightarrow> ('s, 'b) Block) \<Rightarrow> blkref \<Rightarrow> blkref list \<Rightarrow> blkref \<Rightarrow> bool" where
  "is_path hp a [] b = (a = b)"
| "is_path hp a (x # xs) b = ((\<exists>ps. parents (hp x) = a # ps) \<and> is_path hp x xs b)"

lemma is_path_append [simp]:
  "is_path hp a (xs @ ys) b \<longleftrightarrow> (\<exists>m. is_path hp a xs m \<and> is_path hp m ys b)"
  by (induction xs arbitrary: a) auto

lemma is_path_snoc: "is_path hp a (xs @ [x]) b \<longleftrightarrow> x = b \<and> (\<exists>p ps. parents (hp x) = p # ps \<and> is_path hp a xs p)"
  by auto

lemma is_path_cong:
  assumes "\<And>x. x \<in> set xs \<Longrightarrow> parents (hp x) \<noteq> [] \<Longrightarrow> parents (hp' x) = parents (hp x)"
    and "is_path hp a xs b"
  shows "is_path hp' a xs b"
  using assms by (induction xs arbitrary: a) auto

section \<open>Well-formed block graphs\<close>

text \<open>A block is rooted when its parent pointers are filled in, or it is the genesis block.\<close>

definition rooted :: "('s, 'b) mem \<Rightarrow> blkref \<Rightarrow> blkref \<Rightarrow> bool" where
  "rooted m g r \<longleftrightarrow> r = g \<or> parents (heap m r) \<noteq> []"

definition parent_ok :: "('s, 'b) mem \<Rightarrow> blkref \<Rightarrow> blkref \<Rightarrow> bool" where
  "parent_ok m g p \<longleftrightarrow> p < nxt m \<and> find_blk (hash (heap m p)) m = Some p \<and> rooted m g p"

definition blk_ok :: "('s, 'b) mem \<Rightarrow> blkref \<Rightarrow> blkref \<Rightarrow> bool" where
  "blk_ok m g r \<longleftrightarrow>
     list_all (parent_ok m g) (parents (heap m r)) \<and>
     (case parents (heap m r) of
        [] \<Rightarrow> height (heap m r) = 0
      | p # _ \<Rightarrow> parent_hashes (heap m r) = map (\<lambda>p. hash (heap m p)) (parents (heap m r)) \<and>
                 height (heap m r) = height (heap m p) + 1 \<and> height (heap m p) < height (heap m r)) \<and>
     (delivered (heap m r) \<longrightarrow> rooted m g r) \<and> blk_qc (heap m r) \<noteq> None \<and>
     (case qc_ref (heap m r) of None \<Rightarrow> True | Some q \<Rightarrow> q < nxt m \<and> rooted m g r)"

definition heap_ok :: "('s, 'b) mem \<Rightarrow> blkref \<Rightarrow> bool" where
  "heap_ok m g \<longleftrightarrow>
     g < nxt m \<and> height (heap m g) = 0 \<and> delivered (heap m g) \<and> parents (heap m g) = [] \<and>
     (\<forall>r < nxt m. blk_ok m g r) \<and>
     (\<forall>h r. find_blk h m = Some r \<longrightarrow> r < nxt m \<and> hash (heap m r) = h)"

lemma heap_okD:
  assumes "heap_ok m g"
  shows "g < nxt m" "height (heap m g) = 0" "delivered (heap m g)" "parents (heap m g) = []"
    and "r < nxt m \<Longrightarrow> blk_ok m g r"
    and "find_blk h m = Some r \<Longrightarrow> r < nxt m \<and> hash (heap m r) = h"
  using assms unfolding heap_ok_def by blast+

lemma heap_ok_store: "heap_ok m g \<Longrightarrow> blk_store_ok m"
  by (simp add: heap_ok_def blk_store_ok_def)

lemma blk_ok_parent:
  assumes "blk_ok m g r" "parents (heap m r) = p # ps"
  shows "p < nxt m" "height (heap m p) < height (heap m r)"
    "height (heap m r) = height (heap m p) + 1" "rooted m g p"
  using assms by (auto simp: blk_ok_def parent_ok_def)

lemma blk_ok_high:
  assumes "blk_ok m g r" "height (heap m r) > lim"
  obtains p ps where "parents (heap m r) = p # ps"
  using assms by (cases "parents (heap m r)") (auto simp: blk_ok_def)

lemma blk_ok_qc_ref:
  assumes "blk_ok m g r" "qc_ref (heap m r) = Some q"
  shows "q < nxt m" "rooted m g r"
  using assms by (auto simp: blk_ok_def)

text \<open>Heights grow by one along a path, so a path between two blocks is unique.\<close>

lemma is_path_height:
  assumes "heap_ok m g" "is_path (heap m) a xs b" "b < nxt m"
  shows "a < nxt m \<and> (\<forall>x \<in> set xs. x < nxt m) \<and>
    (\<forall>x \<in> set xs. height (heap m a) < height (heap m x)) \<and>
    unat (height (heap m b)) = unat (height (heap m a)) + length xs"
  using assms(2,3)
proof (induction xs arbitrary: b rule: rev_induct)
  case Nil
  then show ?case by simp
next
  case (snoc x xs)
  then obtain p ps where x: "x = b" "parents (heap m b) = p # ps" "is_path (heap m) a xs p"
    unfolding is_path_snoc by auto
  note bp = blk_ok_parent [OF heap_okD(5) [OF assms(1) snoc.prems(2)] x(2)]
  have "unat (height (heap m b)) = Suc (unat (height (heap m p)))"
    using bp(2,3) unat_plus_1_less by simp
  moreover note IH = snoc.IH [OF x(3) bp(1)]
  moreover from this have "height (heap m a) \<le> height (heap m p)"
    by (simp add: word_le_nat_alt)
  ultimately show ?case using x(1) bp(1,2) snoc.prems(2) by auto
qed

lemma is_path_sorted:
  assumes "heap_ok m g" "is_path (heap m) a xs b" "b < nxt m"
  shows "sorted_wrt (\<lambda>x y. height (heap m x) < height (heap m y)) (a # xs)"
  using assms(2)
proof (induction xs arbitrary: a)
  case Nil
  then show ?case by simp
next
  case (Cons x xs)
  then have "is_path (heap m) x xs b" by simp
  from Cons.IH [OF this] is_path_height [OF assms(1) Cons.prems assms(3)] show ?case
    by simp
qed

lemma is_path_distinct:
  assumes "heap_ok m g" "is_path (heap m) a xs b" "b < nxt m"
  shows "distinct (a # xs)"
proof -
  have "sorted_wrt (<) (map (\<lambda>x. height (heap m x)) (a # xs))"
    using is_path_sorted [OF assms] by (simp only: sorted_wrt_map)
  then show ?thesis by (metis distinct_map strict_sorted_iff)
qed

lemma is_path_unique:
  assumes "heap_ok m g" "is_path (heap m) a xs c" "is_path (heap m) b ys c" "c < nxt m"
    and "height (heap m a) = height (heap m b)"
  shows "a = b \<and> xs = ys"
proof -
  have "length xs = length ys"
    using is_path_height [OF assms(1,2,4)] is_path_height [OF assms(1,3,4)] assms(5) by simp
  then show ?thesis using assms(2,3)
  proof (induction xs ys arbitrary: c rule: rev_induct2)
    case 1
    then show ?case by simp
  next
    case (4 x xs y ys)
    then show ?case unfolding is_path_snoc by auto
  qed auto
qed

section \<open>The loops that walk the graph\<close>

lemma commit_loop_ok:
  assumes "heap_ok m g" "r < nxt m"
  shows "\<exists>q b. commit_loop (heap m) lim r acc = Some (Inr (acc @ q, b)) \<and>
    is_path (heap m) b (rev q) r \<and> height (heap m b) \<le> lim \<and> b < nxt m \<and>
    (\<forall>x \<in> set q. lim < height (heap m x) \<and> x < nxt m)"
  using assms(2)
proof (induction "unat (height (heap m r))" arbitrary: r acc rule: less_induct)
  case less
  show ?case
  proof (cases "lim < height (heap m r)")
    case False
    then show ?thesis using less.prems by (subst commit_loop.simps) simp
  next
    case True
    from heap_okD(5) [OF assms(1) less.prems] have ok: "blk_ok m g r" .
    then obtain p ps where p: "parents (heap m r) = p # ps" using True by (rule blk_ok_high)
    note bp = blk_ok_parent [OF ok p]
    from less.hyps [of p "acc @ [r]"] bp obtain q b where
      "commit_loop (heap m) lim p (acc @ [r]) = Some (Inr ((acc @ [r]) @ q, b))"
      "is_path (heap m) b (rev q) p" "height (heap m b) \<le> lim" "b < nxt m"
      "\<forall>x \<in> set q. lim < height (heap m x) \<and> x < nxt m"
      by (auto simp: word_less_nat_alt)
    then show ?thesis using True p less.prems
      by (intro exI [of _ "r # q"] exI [of _ b]) (subst commit_loop.simps, simp)
  qed
qed

text \<open>The opinion's loop visits the same blocks without keeping them.\<close>

lemma walk_down_commit_loop:
  assumes "commit_loop hp lim r acc = Some (Inr (q, b))"
  shows "walk_down hp lim r = Some (Inr b)"
proof -
  have "\<forall>hp lim r acc. commit_loop hp lim r acc = Some z \<longrightarrow>
      (\<forall>q b. z = Inr (q, b) \<longrightarrow> walk_down hp lim r = Some (Inr b))" for z
  proof (intro allI impI, rule commit_loop.raw_induct [of "\<lambda>hp lim r acc z. \<forall>q b. z = Inr (q, b) \<longrightarrow> walk_down hp lim r = Some (Inr b)", rule_format], goal_cases)
    case (1 cl hp lim r acc z q b)
    then show ?case
      by (subst walk_down.simps) (fastforce split: if_splits list.splits)
  qed auto
  then show ?thesis using assms by blast
qed

text \<open>Where the two loops stop: at an ancestor of the start that is not above the limit. The
  block of the limit's own height is reached exactly when it is an ancestor.\<close>

lemma commit_loop_target:
  assumes ok: "heap_ok m g" and r: "r < nxt m" and t: "t < nxt m"
    and loop: "commit_loop (heap m) (height (heap m t)) r [] = Some (Inr (q, b))"
  shows "b = t \<longleftrightarrow> (\<exists>xs. is_path (heap m) t xs r)" and "b = t \<Longrightarrow> is_path (heap m) t (rev q) r"
proof -
  from commit_loop_ok [OF ok r, of "height (heap m t)" "[]"] loop have
    P: "is_path (heap m) b (rev q) r" and H: "height (heap m b) \<le> height (heap m t)"
    and Q: "\<forall>x \<in> set q. height (heap m t) < height (heap m x)" by auto
  show "b = t \<Longrightarrow> is_path (heap m) t (rev q) r" using P by simp
  show "b = t \<longleftrightarrow> (\<exists>xs. is_path (heap m) t xs r)"
  proof
    show "b = t \<Longrightarrow> \<exists>xs. is_path (heap m) t xs r" using P by auto
  next
    assume "\<exists>xs. is_path (heap m) t xs r"
    then obtain xs where xs: "is_path (heap m) t xs r" by auto
    note hx = is_path_height [OF ok xs r] and hq = is_path_height [OF ok P r]
    from H hx hq have "length xs \<le> length (rev q)" by (simp add: word_le_nat_alt)
    then obtain ys zs where yz: "rev q = ys @ zs" "length zs = length xs"
      by (metis append_take_drop_id diff_diff_cancel length_drop)
    with P obtain c where c: "is_path (heap m) b ys c" "is_path (heap m) c zs r" by auto
    from is_path_height [OF ok c(2) r] hx yz(2) have "height (heap m c) = height (heap m t)"
      by (simp add: word_unat_eq_iff)
    with is_path_unique [OF ok c(2) xs r] have "c = t" by simp
    show "b = t"
    proof (cases "ys = []")
      case False
      then obtain us where "ys = us @ [c]" using c(1) by (metis is_path_snoc rev_exhaust)
      then have "c \<in> set q" using yz(1) by (metis in_set_conv_decomp set_rev append.assoc append_Cons)
      then show ?thesis using Q \<open>c = t\<close> by auto
    qed (use c(1) \<open>c = t\<close> in simp)
  qed
qed

lemma walk_down_ok:
  assumes "heap_ok m g" "r < nxt m" "t < nxt m"
  shows "\<exists>b. walk_down (heap m) (height (heap m t)) r = Some (Inr b) \<and>
    (b = t \<longleftrightarrow> (\<exists>xs. is_path (heap m) t xs r))"
  using commit_loop_ok [OF assms(1,2), of "height (heap m t)" "[]"]
    walk_down_commit_loop commit_loop_target(1) [OF assms] by fastforce

end
