(* ===== verification/Hs_Core_Inv.thy ===== *)
theory Hs_Core_Inv
  imports Hs_Chain
begin

text \<open>
  The invariant of \<open>HotStuffCore\<close> and its preservation by every operation of
  \<^verbatim>\<open>src/consensus.cpp\<close>: the block graph stays well formed, the blocks reported
  to \<open>do_consensus\<close> form one path from the genesis block to \<open>b_exec\<close>, and the
  heights of the blocks voted for grow strictly.
\<close>

section \<open>What the outputs say\<close>

fun executed :: "'s out_event list \<Rightarrow> blkref list" where
  "executed [] = []"
| "executed (OutConsensus r # es) = r # executed es"
| "executed (_ # es) = executed es"

fun decided :: "'s out_event list \<Rightarrow> Finality list" where
  "decided [] = []"
| "decided (OutDecide f # es) = f # decided es"
| "decided (_ # es) = decided es"

fun votes :: "'s out_event list \<Rightarrow> blkref list" where
  "votes [] = []"
| "votes (OutVote p _ # es) = prop_blk p # votes es"
| "votes (_ # es) = votes es"

lemma executed_append [simp]: "executed (xs @ ys) = executed xs @ executed ys"
  by (induction xs rule: executed.induct) auto

lemma decided_append [simp]: "decided (xs @ ys) = decided xs @ decided ys"
  by (induction xs rule: decided.induct) auto

lemma votes_append [simp]: "votes (xs @ ys) = votes xs @ votes ys"
  by (induction xs rule: votes.induct) auto

lemma outputs_decide [simp]:
  "executed (map OutDecide fs) = []" "decided (map OutDecide fs) = fs" "votes (map OutDecide fs) = []"
  by (induction fs) auto

section \<open>The invariant\<close>

definition ref_ok :: "('p, 'k, 's, 'b) core \<Rightarrow> blkref \<Rightarrow> bool" where
  "ref_ok st r \<longleftrightarrow> r < nxt (mem st) \<and> rooted (mem st) (b0 st) r"

definition refs_ok :: "('p, 'k, 's, 'b) core \<Rightarrow> bool" where
  "refs_ok st \<longleftrightarrow> ref_ok st (b_lock st) \<and> ref_ok st (b_exec st) \<and>
     (case hqc st of None \<Rightarrow> False | Some (r, _) \<Rightarrow> ref_ok st r) \<and>
     (\<forall>h \<in> set (piped_queue st). case find_blk h (mem st) of None \<Rightarrow> False | Some r \<Rightarrow> ref_ok st r)"

definition log_ok :: "('p, 'k, 's, 'b) core \<Rightarrow> bool" where
  "log_ok st \<longleftrightarrow>
     is_path (heap (mem st)) (b0 st) (executed (outs st)) (b_exec st) \<and>
     decided (outs st) = concat (map (finalities st) (executed (outs st))) \<and>
     (\<forall>r < nxt (mem st). decision (blk st r) \<noteq> 0 \<longleftrightarrow> r = b0 st \<or> r \<in> set (executed (outs st)))"

definition vote_ok :: "('p, 'k, 's, 'b) core \<Rightarrow> bool" where
  "vote_ok st \<longleftrightarrow>
     sorted_wrt (<) (map (\<lambda>r. height (blk st r)) (votes (outs st))) \<and>
     (\<forall>r \<in> set (votes (outs st)). ref_ok st r \<and> height (blk st r) \<le> vheight st)"

definition core_inv :: "('p, 'k, 's, 'b) core \<Rightarrow> bool" where
  "core_inv st \<longleftrightarrow> heap_ok (mem st) (b0 st) \<and> refs_ok st \<and> log_ok st \<and> vote_ok st"

lemma core_invD:
  assumes "core_inv st"
  shows "heap_ok (mem st) (b0 st)" "refs_ok st" "log_ok st" "vote_ok st"
    and "ref_ok st (b_lock st)" "ref_ok st (b_exec st)" "hqc st = Some (r, q) \<Longrightarrow> ref_ok st r"
    and "hqc st \<noteq> None" "r < nxt (mem st) \<Longrightarrow> blk_qc (blk st r) \<noteq> None"
  using assms by (auto simp: core_inv_def refs_ok_def heap_ok_def blk_ok_def split: option.splits)

lemma executed_ref_ok:
  assumes "core_inv st" "r \<in> set (executed (outs st))"
  shows "ref_ok st r" "r \<noteq> b0 st"
proof -
  note inv = core_invD [OF assms(1)]
  have P: "is_path (heap (mem st)) (b0 st) (executed (outs st)) (b_exec st)"
    and L: "b_exec st < nxt (mem st)"
    using inv(3,6) by (auto simp: log_ok_def ref_ok_def)
  from is_path_height [OF inv(1) P L] is_path_distinct [OF inv(1) P L] assms(2)
  have "r < nxt (mem st)" "height (blk st (b0 st)) < height (blk st r)" "r \<noteq> b0 st" by auto
  then show "ref_ok st r" "r \<noteq> b0 st"
    using blk_ok_high [OF heap_okD(5) [OF inv(1)]] unfolding ref_ok_def rooted_def by (metis list.distinct(1))+
qed

section \<open>Steps that leave the graph alone\<close>

text \<open>The fields of a block that its creation and its delivery fill in.\<close>

definition blk_view :: "('s, 'b) Block \<Rightarrow> uint256 list \<times> uint256 list \<times> uint256 \<times> blkref list \<times>
    blkref option \<times> u32 \<times> bool \<times> bool" where
  "blk_view b = (parent_hashes b, cmds b, hash b, parents b, qc_ref b, height b, delivered b, blk_qc b = None)"

definition graph_eq :: "('s, 'b) mem \<Rightarrow> ('s, 'b) mem \<Rightarrow> bool" where
  "graph_eq m m' \<longleftrightarrow> nxt m' = nxt m \<and> blk_cache m' = blk_cache m \<and>
     (\<forall>r. blk_view (heap m' r) = blk_view (heap m r))"

lemma graph_eqD:
  assumes "graph_eq m m'"
  shows "nxt m' = nxt m" "find_blk h m' = find_blk h m"
    "parent_hashes (heap m' r) = parent_hashes (heap m r)" "cmds (heap m' r) = cmds (heap m r)"
    "hash (heap m' r) = hash (heap m r)" "parents (heap m' r) = parents (heap m r)"
    "qc_ref (heap m' r) = qc_ref (heap m r)" "height (heap m' r) = height (heap m r)"
    "delivered (heap m' r) = delivered (heap m r)" "(blk_qc (heap m' r) = None) = (blk_qc (heap m r) = None)"
  using assms by (auto simp: graph_eq_def blk_view_def find_blk_def)

lemma rooted_graph_eq: "graph_eq m m' \<Longrightarrow> rooted m' g r = rooted m g r"
  by (simp add: rooted_def graph_eqD)

lemma heap_ok_graph_eq:
  assumes "graph_eq m m'"
  shows "heap_ok m' g = heap_ok m g"
proof -
  have "parent_ok m' g = parent_ok m g"
    by (rule ext) (simp add: parent_ok_def graph_eqD [OF assms] rooted_graph_eq [OF assms])
  then have "blk_ok m' g r = blk_ok m g r" for r
    by (simp add: blk_ok_def graph_eqD [OF assms] rooted_graph_eq [OF assms] split: list.split option.split)
  then show ?thesis by (simp add: heap_ok_def graph_eqD [OF assms])
qed

lemma is_path_graph_eq: "graph_eq m m' \<Longrightarrow> is_path (heap m') a xs b = is_path (heap m) a xs b"
  by (induction xs arbitrary: a) (simp_all add: graph_eqD)

definition mem_eq :: "('s, 'b) mem \<Rightarrow> ('s, 'b) mem \<Rightarrow> bool" where
  "mem_eq m m' \<longleftrightarrow> graph_eq m m' \<and> (\<forall>r. decision (heap m' r) = decision (heap m r))"

lemma mem_eq_refl [simp]: "mem_eq m m"
  by (simp add: mem_eq_def graph_eq_def)

lemma mem_eq_graph: "mem_eq m m' \<Longrightarrow> graph_eq m m'"
  by (simp add: mem_eq_def)

lemmas mem_eqD = graph_eqD [OF mem_eq_graph]
lemmas rooted_mem_eq = rooted_graph_eq [OF mem_eq_graph]
lemmas heap_ok_mem_eq = heap_ok_graph_eq [OF mem_eq_graph]
lemmas is_path_mem_eq = is_path_graph_eq [OF mem_eq_graph]

lemma mem_eq_decision: "mem_eq m m' \<Longrightarrow> decision (heap m' r) = decision (heap m r)"
  by (simp add: mem_eq_def)

lemma mem_eq_upd:
  assumes "\<And>b. blk_view (f b) = blk_view b" "\<And>b. decision (f b) = decision b"
  shows "mem_eq m (upd_blk r f m)"
  using assms by (simp add: mem_eq_def graph_eq_def)

text \<open>A quiet step changes certificates, vote sets, queues of waiting promises and counters; it
  may raise the locked block and the highest certified block, and executes and votes for
  nothing.\<close>

definition quiet :: "('p, 'k, 's, 'b) core \<Rightarrow> ('p, 'k, 's, 'b) core \<Rightarrow> bool" where
  "quiet st st' \<longleftrightarrow>
     mem_eq (mem st) (mem st') \<and> b0 st' = b0 st \<and> b_exec st' = b_exec st \<and> my_id st' = my_id st \<and>
     vheight st' = vheight st \<and> piped_queue st' = piped_queue st \<and>
     executed (outs st') = executed (outs st) \<and> decided (outs st') = decided (outs st) \<and>
     votes (outs st') = votes (outs st) \<and>
     (b_lock st' = b_lock st \<or>
      b_lock st' < nxt (mem st) \<and> height (blk st (b_lock st)) < height (blk st (b_lock st'))) \<and>
     (case hqc st of None \<Rightarrow> hqc st' = None | Some (r, _) \<Rightarrow>
       (case hqc st' of None \<Rightarrow> False | Some (r', _) \<Rightarrow>
         r' = r \<or> r' < nxt (mem st) \<and> height (blk st r) < height (blk st r')))"

lemma quiet_refl [simp]: "quiet st st"
  by (auto simp: quiet_def split: option.splits)

lemma quietD:
  assumes "quiet st st'"
  shows "mem_eq (mem st) (mem st')" "b0 st' = b0 st" "b_exec st' = b_exec st" "my_id st' = my_id st"
    "vheight st' = vheight st" "piped_queue st' = piped_queue st"
    "executed (outs st') = executed (outs st)" "decided (outs st') = decided (outs st)"
    "votes (outs st') = votes (outs st)"
  using assms by (simp_all add: quiet_def)

lemma quiet_trans:
  assumes "quiet st st'" "quiet st' st''"
  shows "quiet st st''"
proof -
  have "mem_eq (mem st) (mem st'')"
    using assms by (simp add: quiet_def mem_eq_def graph_eq_def)
  moreover have "nxt (mem st') = nxt (mem st)" "\<And>r. height (blk st' r) = height (blk st r)"
    using quietD(1) [OF assms(1)] by (simp_all add: mem_eqD)
  ultimately show ?thesis using assms
    by (auto simp: quiet_def split: option.splits)
qed

lemma finalities_cong:
  assumes "my_id st' = my_id st" "height (blk st' r) = height (blk st r)"
    "cmds (blk st' r) = cmds (blk st r)" "hash (blk st' r) = hash (blk st r)"
  shows "finalities st' r = finalities st r"
  using assms by (simp add: finalities_def)

lemma ref_ok_quiet: "quiet st st' \<Longrightarrow> ref_ok st' r = ref_ok st r"
  by (simp add: ref_ok_def quietD mem_eqD [OF quietD(1)] rooted_mem_eq [OF quietD(1)])

lemma ref_ok_high:
  assumes "heap_ok (mem st) (b0 st)" "r < nxt (mem st)" "height (blk st r) > h"
  shows "ref_ok st r"
  using blk_ok_high [OF heap_okD(5) [OF assms(1,2)] assms(3)] assms(2)
  by (metis list.distinct(1) ref_ok_def rooted_def)

lemma core_inv_quiet [inv_intros]:
  assumes "core_inv st" and q: "quiet st st'"
  shows "core_inv st'"
proof -
  note me = mem_eqD [OF quietD(1) [OF q]] and qd = quietD [OF q]
  note inv = core_invD [OF assms(1)]
  have "refs_ok st'"
    using inv(2) q ref_ok_high [OF inv(1)]
    by (auto simp: refs_ok_def ref_ok_quiet [OF q] qd(3,6) me(2) quiet_def split: option.splits)
  moreover have "log_ok st'"
    using inv(3) finalities_cong [OF qd(4) me(8) me(4) me(5)]
    by (simp add: log_ok_def qd is_path_mem_eq [OF qd(1)] me mem_eq_decision [OF qd(1)] cong: map_cong)
  moreover have "vote_ok st'"
    using inv(4) by (simp add: vote_ok_def qd me ref_ok_quiet [OF q])
  ultimately show ?thesis
    using inv(1) by (simp add: core_inv_def qd(2) heap_ok_mem_eq [OF qd(1)])
qed

section \<open>The quiet operations\<close>

lemma quiet_set_blk:
  assumes "\<And>b. blk_view (f b) = blk_view b" "\<And>b. decision (f b) = decision b"
  shows "quiet st (set_blk r f st)"
  using mem_eq_upd [of f, OF assms] by (auto simp: quiet_def split: option.splits)

lemma quiet_self_qc [simp]: "quiet st (set_blk r (\<lambda>b. b\<lparr>self_qc := q\<rparr>) st)"
  by (rule quiet_set_blk) (simp_all add: blk_view_def)

lemma quiet_voted [simp]: "quiet st (set_blk r (\<lambda>b. b\<lparr>voted := insert v (voted b)\<rparr>) st)"
  by (rule quiet_set_blk) (simp_all add: blk_view_def)

lemma quiet_on_qc_finish [simp]: "quiet st (on_qc_finish r st)"
  by (auto simp: on_qc_finish_def quiet_def split: option.splits)

lemma quiet_record_latency [simp]: "quiet st (record_latency r now st)"
  by (auto simp: record_latency_def quiet_def Let_def split: option.splits)

lemma quiet_update_hqc:
  assumes "update_hqc r q st = Inr st'" "r < nxt (mem st)"
  shows "quiet st st'"
  using assms by (auto simp: update_hqc_def quiet_def on_hqc_update_def res_iff split: if_splits option.splits)

lemma quiet_count_own_vote:
  assumes "count_own_vote E r v pc st = Inr st'" "r < nxt (mem st)"
  shows "quiet st st'"
  using assms
  by (auto simp: count_own_vote_def Let_def res_iff quiet_self_qc split: if_splits
        intro: quiet_trans [OF quiet_self_qc quiet_trans [OF quiet_update_hqc quiet_on_qc_finish]])

lemma get_delivered_blk_ok:
  assumes "heap_ok (mem st) (b0 st)" "get_delivered_blk h st = Inr r"
  shows "ref_ok st r" "delivered (blk st r)" "find_blk h (mem st) = Some r" "hash (blk st r) = h"
proof -
  have f: "find_blk h (mem st) = Some r" and d: "delivered (blk st r)"
    using assms(2) by (auto simp: get_delivered_blk_def split: option.splits if_splits)
  from heap_okD(6) [OF assms(1) f] have "r < nxt (mem st)" "hash (blk st r) = h" by auto
  with heap_okD(5) [OF assms(1)] f d
  show "ref_ok st r" "delivered (blk st r)" "find_blk h (mem st) = Some r" "hash (blk st r) = h"
    by (auto simp: ref_ok_def blk_ok_def)
qed

lemma quiet_on_receive_vote:
  assumes "on_receive_vote E v st = Inr st'" "heap_ok (mem st) (b0 st)"
  shows "quiet st st'"
proof -
  from assms(1) obtain r where r: "get_delivered_blk (v_blk_hash v) st = Inr r"
    by (auto simp: on_receive_vote_def res_iff)
  then have "r < nxt (mem st)" using get_delivered_blk_ok(1) [OF assms(2)] by (simp add: ref_ok_def)
  with assms(1) r show ?thesis
    by (auto simp: on_receive_vote_def Let_def split: option.splits if_splits
          intro: quiet_trans [OF quiet_voted quiet_count_own_vote])
qed

section \<open>Committing\<close>

lemma finalities_decide [simp]:
  "finalities (set_blk x (\<lambda>b. b\<lparr>decision := d\<rparr>) st) = finalities st"
  by (rule ext) (simp add: finalities_def)

lemma decide_blk_fields [simp]:
  "heap (mem (decide_blk x st)) = (heap (mem st))(x := (blk st x)\<lparr>decision := 1\<rparr>)"
  "nxt (mem (decide_blk x st)) = nxt (mem st)" "find_blk h (mem (decide_blk x st)) = find_blk h (mem st)"
  "outs (decide_blk x st) = outs st @ [OutConsensus x] @ map OutDecide (finalities st x)"
  "finalities (decide_blk x st) = finalities st"
  by (simp_all add: decide_blk_def Let_def fun_eq_iff finalities_def)

text \<open>Committing a list of blocks sets their decision, and reports each with its commands.\<close>

lemma fold_decide_blk:
  fixes st :: "('p, 'k, 's, 'b) core"
  defines "st' xs \<equiv> fold decide_blk xs st"
  shows "st' xs = st\<lparr>mem := (mem st)\<lparr>heap := (\<lambda>r. if r \<in> set xs then (blk st r)\<lparr>decision := 1\<rparr> else blk st r)\<rparr>,
      outs := outs st @ concat (map (\<lambda>r. OutConsensus r # map OutDecide (finalities st r)) xs)\<rparr>"
proof (induction xs rule: rev_induct)
  case Nil
  then show ?case by (simp add: st'_def)
next
  case (snoc x xs)
  have "finalities (st' xs) = finalities st"
    by (rule ext) (simp add: snoc finalities_def)
  moreover have "st' (xs @ [x]) = decide_blk x (st' xs)" by (simp add: st'_def)
  ultimately show ?case
    by (simp add: snoc decide_blk_def Let_def upd_blk_def fun_eq_iff finalities_def)
qed

lemma executed_concat [simp]:
  "executed (concat (map (\<lambda>r. OutConsensus r # map OutDecide (f r)) xs)) = xs"
  "decided (concat (map (\<lambda>r. OutConsensus r # map OutDecide (f r)) xs)) = concat (map f xs)"
  "votes (concat (map (\<lambda>r. OutConsensus r # map OutDecide (f r)) xs)) = []"
  by (induction xs) auto

text \<open>\<open>commit\<close> succeeds exactly on the descendants of the last executed block; then it
  executes the blocks of the path between them, in order.\<close>

definition execute_path :: "blkref list \<Rightarrow> blkref \<Rightarrow> ('p, 'k, 's, 'b) core \<Rightarrow> ('p, 'k, 's, 'b) core" where
  "execute_path xs r st =
     st\<lparr>mem := (mem st)\<lparr>heap := (\<lambda>x. if x \<in> set xs then (blk st x)\<lparr>decision := 1\<rparr> else blk st x)\<rparr>,
        outs := outs st @ concat (map (\<lambda>x. OutConsensus x # map OutDecide (finalities st x)) xs),
        b_exec := r\<rparr>"

lemma commit_result:
  assumes "heap_ok (mem st) (b0 st)" "r < nxt (mem st)" "b_exec st < nxt (mem st)"
  shows "is_path (heap (mem st)) (b_exec st) xs r \<Longrightarrow> commit r st = Inr (execute_path xs r st)"
    and "\<nexists>xs. is_path (heap (mem st)) (b_exec st) xs r \<Longrightarrow>
      commit r st = Inl (RuntimeError ''safety breached :( '')"
proof -
  obtain q b where loop: "commit_loop (heap (mem st)) (height (blk st (b_exec st))) r [] = Some (Inr (q, b))"
    using commit_loop_ok [OF assms(1,2), of "height (blk st (b_exec st))" "[]"] by auto
  note tgt = commit_loop_target [OF assms loop]
  show "\<nexists>xs. is_path (heap (mem st)) (b_exec st) xs r \<Longrightarrow>
      commit r st = Inl (RuntimeError ''safety breached :( '')"
    using tgt(1) by (simp add: commit_def loop)
  assume xs: "is_path (heap (mem st)) (b_exec st) xs r"
  then have "b = b_exec st" using tgt(1) by auto
  moreover from this have "rev q = xs" using is_path_unique [OF assms(1) tgt(2) xs assms(2)] by simp
  ultimately show "commit r st = Inr (execute_path xs r st)"
    by (simp add: commit_def loop fold_decide_blk execute_path_def)
qed

lemma commit_cases:
  assumes "commit r st = Inr st'" "heap_ok (mem st) (b0 st)" "r < nxt (mem st)" "b_exec st < nxt (mem st)"
  obtains xs where "is_path (heap (mem st)) (b_exec st) xs r" "st' = execute_path xs r st"
  using commit_result [OF assms(2-4)] assms(1) by fastforce

lemma execute_path_graph: "graph_eq (mem st) (mem (execute_path xs r st))"
  by (auto simp: execute_path_def graph_eq_def blk_view_def)

lemma execute_path_fields [simp]:
  "b0 (execute_path xs r st) = b0 st" "b_lock (execute_path xs r st) = b_lock st"
  "b_exec (execute_path xs r st) = r" "hqc (execute_path xs r st) = hqc st"
  "my_id (execute_path xs r st) = my_id st" "vheight (execute_path xs r st) = vheight st"
  "piped_queue (execute_path xs r st) = piped_queue st"
  "vote_disabled (execute_path xs r st) = vote_disabled st"
  "qc_waiting (execute_path xs r st) = qc_waiting st"
  "executed (outs (execute_path xs r st)) = executed (outs st) @ xs"
  "decided (outs (execute_path xs r st)) = decided (outs st) @ concat (map (finalities st) xs)"
  "votes (outs (execute_path xs r st)) = votes (outs st)"
  "decision (blk (execute_path xs r st) x) = (if x \<in> set xs then 1 else decision (blk st x))"
  by (simp_all add: execute_path_def)

lemma finalities_execute_path [simp]: "finalities (execute_path xs r st) = finalities st"
  by (rule ext, rule finalities_cong) (simp_all add: graph_eqD [OF execute_path_graph])

lemma ref_ok_execute_path [simp]: "ref_ok (execute_path xs r st) = ref_ok st"
  by (rule ext) (simp add: ref_ok_def graph_eqD(1) [OF execute_path_graph] rooted_graph_eq [OF execute_path_graph])

lemma core_inv_execute_path [inv_intros]:
  assumes "core_inv st" "ref_ok st r" and xs: "is_path (heap (mem st)) (b_exec st) xs r"
  shows "core_inv (execute_path xs r st)"
proof -
  note ge = graph_eqD [OF execute_path_graph] and inv = core_invD [OF assms(1)]
  have "refs_ok (execute_path xs r st)"
    using inv(2) assms(2) by (auto simp: refs_ok_def ge(2) split: option.splits)
  moreover have "log_ok (execute_path xs r st)"
    using inv(3) xs by (auto simp: log_ok_def ge(1) is_path_graph_eq [OF execute_path_graph])
  moreover have "vote_ok (execute_path xs r st)"
    using inv(4) by (simp add: vote_ok_def ge)
  ultimately show ?thesis
    using inv(1) by (simp add: core_inv_def heap_ok_graph_eq [OF execute_path_graph])
qed

section \<open>The update of the protocol state\<close>

text \<open>\<open>update\<close> either commits nothing, or finds a chain of three certified blocks, each
  the first parent of the next, and commits the lowest of them.\<close>

definition three_chain :: "('s, 'b) mem \<Rightarrow> blkref \<Rightarrow> blkref \<Rightarrow> bool" where
  "three_chain m nblk b \<longleftrightarrow>
     (case qc_ref (heap m nblk) of None \<Rightarrow> False | Some b2 \<Rightarrow>
      case qc_ref (heap m b2) of None \<Rightarrow> False | Some b1 \<Rightarrow>
        qc_ref (heap m b1) = Some b \<and> decision (heap m b2) = 0 \<and> decision (heap m b1) = 0 \<and>
        decision (heap m b) = 0 \<and> is_path (heap m) b [b1, b2] b2)"

lemma three_chain_quiet: "quiet st st' \<Longrightarrow> three_chain (mem st') n b = three_chain (mem st) n b"
  by (simp add: three_chain_def mem_eqD [OF quietD(1)] mem_eq_decision [OF quietD(1)] split: option.split)

lemma undecided_ref_ok:
  assumes "core_inv st" "r < nxt (mem st)" "decision (blk st r) = 0" "qc_ref (blk st r) = Some q"
  shows "ref_ok st r" "q < nxt (mem st)" "parents (blk st r) \<noteq> []"
proof -
  note inv = core_invD [OF assms(1)]
  note q = blk_ok_qc_ref [OF heap_okD(5) [OF inv(1) assms(2)] assms(4)]
  have "decision (blk st (b0 st)) \<noteq> 0" using inv(1,3) by (simp add: log_ok_def heap_okD)
  with assms(3) have "r \<noteq> b0 st" by auto
  with q assms(2) show "ref_ok st r" "q < nxt (mem st)" "parents (blk st r) \<noteq> []"
    by (auto simp: ref_ok_def rooted_def)
qed

text \<open>The stages of \<open>update\<close> after the highest certificate has been raised.\<close>

definition raise_lock :: "blkref \<Rightarrow> ('p, 'k, 's, 'b) core \<Rightarrow> ('p, 'k, 's, 'b) core" where
  "raise_lock r st = (if height (blk st r) > height (blk st (b_lock st)) then st\<lparr>b_lock := r\<rparr> else st)"

definition commit_if_chain :: "blkref \<Rightarrow> blkref \<Rightarrow> ('p, 'k, 's, 'b) core \<Rightarrow> ('p, 'k, 's, 'b) core res" where
  "commit_if_chain b2 b1 st =
     (case qc_ref (blk st b1) of None \<Rightarrow> Inr st | Some b \<Rightarrow>
      if decision (blk st b) \<noteq> 0 then Inr st else
      bind (front (parents (blk st b2))) (\<lambda>p2.
      if p2 \<noteq> b1 then Inr st else
      bind (front (parents (blk st b1))) (\<lambda>p1.
      if p1 \<noteq> b then Inr st else commit b st)))"

lemma update_stages:
  "update nblk st =
     (case qc_ref (blk st nblk) of None \<Rightarrow> Inr st | Some b2 \<Rightarrow>
      if decision (blk st b2) \<noteq> 0 then Inr st else
      bind (update_hqc b2 (blk_qc (blk st nblk)) st) (\<lambda>st.
      case qc_ref (blk st b2) of None \<Rightarrow> Inr st | Some b1 \<Rightarrow>
      if decision (blk st b1) \<noteq> 0 then Inr st else commit_if_chain b2 b1 (raise_lock b1 st)))"
  unfolding update_def commit_if_chain_def raise_lock_def Let_def ..

lemma quiet_raise_lock:
  assumes "r < nxt (mem st)"
  shows "quiet st (raise_lock r st)"
  using assms by (auto simp: raise_lock_def quiet_def split: option.splits)

lemma update_hqc_result:
  assumes "hqc st \<noteq> None" "q \<noteq> None" "r < nxt (mem st)"
  obtains st' where "update_hqc r q st = Inr st'" "quiet st st'"
proof -
  have "\<exists>st'. update_hqc r q st = Inr st'"
    using assms(1,2) by (auto simp: update_hqc_def)
  with quiet_update_hqc [OF _ assms(3)] that show ?thesis by blast
qed

lemma commit_if_chain_result:
  assumes inv: "core_inv st" and b2: "b2 < nxt (mem st)" "decision (blk st b2) = 0" "qc_ref (blk st b2) = Some b1"
    and d1: "decision (blk st b1) = 0" and n: "qc_ref (blk st n) = Some b2"
  shows "commit_if_chain b2 b1 st = Inr st \<and> (\<nexists>b. three_chain (mem st) n b) \<or>
    (\<exists>b. three_chain (mem st) n b \<and> ref_ok st b \<and> commit_if_chain b2 b1 st = commit b st)"
proof (cases "qc_ref (blk st b1)")
  case None
  with b2 n show ?thesis by (simp add: three_chain_def commit_if_chain_def)
next
  case b: (Some b)
  note r2 = undecided_ref_ok [OF inv b2]
  note r1 = undecided_ref_ok [OF inv r2(2) d1 b]
  obtain p1 ps1 p2 ps2 where p: "parents (blk st b1) = p1 # ps1" "parents (blk st b2) = p2 # ps2"
    using r1(3) r2(3) by (metis list.exhaust)
  have "ref_ok st p1"
    using blk_ok_parent [OF heap_okD(5) [OF core_invD(1) [OF inv] r2(2)] p(1)] by (simp add: ref_ok_def)
  then show ?thesis
    using n b2 b d1 p by (auto simp: three_chain_def commit_if_chain_def)
qed

lemma update_result:
  assumes inv: "core_inv st" and n: "n < nxt (mem st)"
  shows "\<exists>st1. quiet st st1 \<and>
    (update n st = Inr st1 \<and> (\<nexists>b. three_chain (mem st) n b) \<or>
     (\<exists>b. three_chain (mem st) n b \<and> ref_ok st b \<and> update n st = commit b st1))"
proof (cases "\<exists>b2. qc_ref (blk st n) = Some b2 \<and> decision (blk st b2) = 0")
  case False
  then show ?thesis
    by (intro exI [of _ st]) (auto simp: update_stages three_chain_def split: option.split)
next
  case True
  then obtain b2 where b2: "qc_ref (blk st n) = Some b2" "decision (blk st b2) = 0" by auto
  have b2n: "b2 < nxt (mem st)"
    using blk_ok_qc_ref(1) [OF heap_okD(5) [OF core_invD(1) [OF inv] n] b2(1)] .
  obtain s1 where s1: "update_hqc b2 (blk_qc (blk st n)) st = Inr s1" and q1: "quiet st s1"
    using update_hqc_result [OF core_invD(8) [OF inv] core_invD(9) [OF inv n] b2n] .
  note m1 = mem_eqD [OF quietD(1) [OF q1]] mem_eq_decision [OF quietD(1) [OF q1]]
  show ?thesis
  proof (cases "\<exists>b1. qc_ref (blk st b2) = Some b1 \<and> decision (blk st b1) = 0")
    case False
    with b2 s1 q1 m1 show ?thesis
      by (intro exI [of _ s1]) (auto simp: update_stages three_chain_def split: option.split)
  next
    case True
    then obtain b1 where b1: "qc_ref (blk st b2) = Some b1" "decision (blk st b1) = 0" by auto
    have q2: "quiet st (raise_lock b1 s1)"
      using quiet_trans [OF q1 quiet_raise_lock] undecided_ref_ok(2) [OF inv b2n b2(2) b1(1)] m1(1) by simp
    note m2 = mem_eqD [OF quietD(1) [OF q2]] mem_eq_decision [OF quietD(1) [OF q2]]
    have "update n st = commit_if_chain b2 b1 (raise_lock b1 s1)"
      using b1 b2 s1 m1 by (simp add: update_stages)
    then show ?thesis
      using commit_if_chain_result [OF core_inv_quiet [OF inv q2], of b2 b1 n] b1 b2 b2n m2 q2
      by (auto simp: three_chain_quiet [OF q2] ref_ok_quiet [OF q2])
  qed
qed

lemma commit_quiet_result:
  assumes "core_inv st" "quiet st st1" "ref_ok st b"
  shows "is_path (heap (mem st)) (b_exec st) xs b \<Longrightarrow> commit b st1 = Inr (execute_path xs b st1)"
    and "\<nexists>xs. is_path (heap (mem st)) (b_exec st) xs b \<Longrightarrow>
      commit b st1 = Inl (RuntimeError ''safety breached :( '')"
proof -
  note inv = core_invD [OF core_inv_quiet [OF assms(1,2)]]
  have "b < nxt (mem st1)" "b_exec st1 < nxt (mem st1)"
    using assms(3) inv(6) mem_eqD(1) [OF quietD(1) [OF assms(2)]] by (simp_all add: ref_ok_def)
  from commit_result [OF inv(1) this] show "is_path (heap (mem st)) (b_exec st) xs b \<Longrightarrow> commit b st1 = Inr (execute_path xs b st1)"
    "\<nexists>xs. is_path (heap (mem st)) (b_exec st) xs b \<Longrightarrow> commit b st1 = Inl (RuntimeError ''safety breached :( '')"
    by (simp_all add: is_path_mem_eq [OF quietD(1) [OF assms(2)]] quietD(3) [OF assms(2)])
qed

text \<open>Every outcome of \<open>update\<close>: nothing to commit, a commit along the path from the last
  executed block, or the exception when there is no such path.\<close>

lemma update_cases [consumes 2]:
  assumes "core_inv st" "n < nxt (mem st)"
  obtains (quiet) st1 where "update n st = Inr st1" "quiet st st1" "\<nexists>b. three_chain (mem st) n b"
  | (commit) st1 b xs where "update n st = Inr (execute_path xs b st1)" "quiet st st1"
      "three_chain (mem st) n b" "ref_ok st b" "is_path (heap (mem st)) (b_exec st) xs b"
  | (breach) b where "update n st = Inl (RuntimeError ''safety breached :( '')"
      "three_chain (mem st) n b" "\<nexists>xs. is_path (heap (mem st)) (b_exec st) xs b"
  using update_result [OF assms] commit_quiet_result [OF assms(1)] by metis

text \<open>What a successful \<open>update\<close> does to the state: a quiet step, then possibly the
  execution of a path.\<close>

lemma update_steps:
  assumes "update n st = Inr st'" "core_inv st" "n < nxt (mem st)"
  obtains st1 where "quiet st st1" "st' = st1"
  | st1 b xs where "quiet st st1" "three_chain (mem st) n b" "ref_ok st b"
      "is_path (heap (mem st)) (b_exec st) xs b" "st' = execute_path xs b st1"
  using assms(2,3) by (cases rule: update_cases) (use assms(1) that in auto)

lemma core_inv_update [inv_intros]:
  assumes "update n st = Inr st'" "core_inv st" "n < nxt (mem st)"
  shows "core_inv st'"
  using assms
proof (cases rule: update_steps)
  case (2 st1 b xs)
  then show ?thesis
    using core_inv_execute_path [OF core_inv_quiet [OF assms(2) 2(1)], of b xs]
    by (simp add: ref_ok_quiet is_path_mem_eq [OF quietD(1) [OF 2(1)]] quietD)
qed (use assms core_inv_quiet in auto)

lemma update_frame:
  assumes "update n st = Inr st'" "core_inv st" "n < nxt (mem st)"
  shows "graph_eq (mem st) (mem st')" "vheight st' = vheight st" "b0 st' = b0 st" "my_id st' = my_id st"
    "votes (outs st') = votes (outs st)" "piped_queue st' = piped_queue st" "ref_ok st' = ref_ok st"
proof -
  have trans: "graph_eq (mem st) (mem st1) \<Longrightarrow> graph_eq (mem st) (mem (execute_path xs b st1))" for st1 xs b
    using execute_path_graph [of st1 xs b] by (simp add: graph_eq_def)
  from assms show "graph_eq (mem st) (mem st')" "vheight st' = vheight st" "b0 st' = b0 st" "my_id st' = my_id st"
    "votes (outs st') = votes (outs st)" "piped_queue st' = piped_queue st" "ref_ok st' = ref_ok st"
    by (cases rule: update_steps; simp add: quietD trans mem_eq_graph ref_ok_quiet fun_eq_iff)+
qed

section \<open>The opinion on a proposal\<close>

lemma opinion_result:
  assumes "core_inv st" "r < nxt (mem st)"
  shows "opinion r st = Inr (vheight st < height (blk st r) \<and>
    ((\<exists>q. qc_ref (blk st r) = Some q \<and> height (blk st (b_lock st)) < height (blk st q)) \<or>
     (\<exists>xs. is_path (heap (mem st)) (b_lock st) xs r)))"
  using walk_down_ok [OF core_invD(1) [OF assms(1)] assms(2), of "b_lock st"] core_invD(5) [OF assms(1)]
  by (auto simp: opinion_def ref_ok_def split: option.splits)

section \<open>Receiving a proposal\<close>

lemma core_inv_emit:
  assumes "core_inv st" "executed [x] = []" "decided [x] = []" "votes [x] = []"
  shows "core_inv (emit x st)"
  using assms by (intro core_inv_quiet [OF assms(1)]) (auto simp: quiet_def split: option.splits)

text \<open>Raising the voted height to that of a higher block, and reporting the vote.\<close>

lemma core_inv_vheight:
  assumes "core_inv st" "vheight st \<le> h"
  shows "core_inv (st\<lparr>vheight := h\<rparr>)"
proof -
  note inv = core_invD [OF assms(1)]
  have "vote_ok (st\<lparr>vheight := h\<rparr>)" using inv(4) assms(2) by (auto simp: vote_ok_def ref_ok_def)
  moreover have "refs_ok (st\<lparr>vheight := h\<rparr>)" using inv(2) by (auto simp: refs_ok_def ref_ok_def split: option.splits)
  moreover have "finalities (st\<lparr>vheight := h\<rparr>) = finalities st" by (simp add: fun_eq_iff finalities_def)
  then have "log_ok (st\<lparr>vheight := h\<rparr>)" using inv(3) by (simp add: log_ok_def)
  ultimately show ?thesis using inv(1) by (simp add: core_inv_def)
qed

lemma core_inv_vote:
  assumes "core_inv st" "prop_blk p < nxt (mem st)"
    and h: "vheight st = height (blk st (prop_blk p))"
    and above: "\<And>r. r \<in> set (votes (outs st)) \<Longrightarrow> height (blk st r) < vheight st"
    and pos: "0 < vheight st"
  shows "core_inv (emit (OutVote p v) st)"
proof -
  note inv = core_invD [OF assms(1)]
  let ?st = "emit (OutVote p v) st"
  have fin: "finalities ?st = finalities st" by (simp add: fun_eq_iff finalities_def)
  have "ref_ok st (prop_blk p)" using ref_ok_high [OF inv(1) assms(2)] pos h by metis
  then have "vote_ok ?st" using inv(4) h above
    by (auto simp: vote_ok_def ref_ok_def sorted_wrt_append)
  moreover have "refs_ok ?st" using inv(2) by (auto simp: refs_ok_def ref_ok_def split: option.splits)
  moreover have "log_ok ?st" using inv(3) fin by (simp add: log_ok_def)
  ultimately show ?thesis using inv(1) by (simp add: core_inv_def)
qed

lemma finish_qc_frame [simp]:
  "mem (on_qc_finish q st) = mem st" "vheight (on_qc_finish q st) = vheight st"
  "votes (outs (on_qc_finish q st)) = votes (outs st)" "vote_disabled (on_qc_finish q st) = vote_disabled st"
  by (simp_all add: on_qc_finish_def)

text \<open>The last part of \<open>on_receive_proposal\<close>, after the opinion \<open>op\<close> is formed.\<close>

definition answer_proposal ::
  "('p, 'k, 's, 'b) env \<Rightarrow> Proposal \<Rightarrow> bool \<Rightarrow> ('p, 'k, 's, 'b) core \<Rightarrow> ('p, 'k, 's, 'b) core" where
  "answer_proposal E prop op st =
     (let r = prop_blk prop;
          st = (if op then st\<lparr>vheight := height (blk st r)\<rparr> else st);
          st = (case qc_ref (blk st r) of None \<Rightarrow> st | Some q \<Rightarrow> on_qc_finish q st);
          st = emit (OutReceiveProposal prop) st in
      if op \<and> \<not> vote_disabled st
      then emit (OutVote prop (own_vote E st (hash (blk st r)))) st else st)"

lemma on_receive_proposal_stages:
  "on_receive_proposal E prop st =
     bind (sanity_check_delivered (prop_blk prop) st) (\<lambda>_.
     bind (update (prop_blk prop) st) (\<lambda>st.
     bind (opinion (prop_blk prop) st) (\<lambda>op. Inr (answer_proposal E prop op st))))"
  unfolding on_receive_proposal_def answer_proposal_def Let_def ..

lemma answer_proposal_fields [simp]:
  "votes (outs (answer_proposal E prop op st)) = votes (outs st) @ (if op \<and> \<not> vote_disabled st then [prop_blk prop] else [])"
  "vheight (answer_proposal E prop op st) = (if op then height (blk st (prop_blk prop)) else vheight st)"
  "mem (answer_proposal E prop op st) = mem st"
  by (simp_all add: answer_proposal_def Let_def split: option.split)

lemma core_inv_answer_proposal:
  assumes inv: "core_inv st" and r: "prop_blk prop < nxt (mem st)"
    and op: "op \<Longrightarrow> vheight st < height (blk st (prop_blk prop))"
  shows "core_inv (answer_proposal E prop op st)"
proof -
  let ?r = "prop_blk prop"
  define s1 where "s1 = (if op then st\<lparr>vheight := height (blk st ?r)\<rparr> else st)"
  define s2 where "s2 = emit (OutReceiveProposal prop)
    (case qc_ref (blk s1 ?r) of None \<Rightarrow> s1 | Some q \<Rightarrow> on_qc_finish q s1)"
  have s1: "core_inv s1" using inv op core_inv_vheight [OF inv order.strict_implies_order] by (simp add: s1_def)
  then have s2: "core_inv s2"
    unfolding s2_def by (intro core_inv_emit) (simp_all add: core_inv_quiet split: option.split)
  have eq: "mem s2 = mem st" "vheight s2 = (if op then height (blk st ?r) else vheight st)"
    "votes (outs s2) = votes (outs st)" by (simp_all add: s2_def s1_def split: option.split)
  have "core_inv (emit (OutVote prop v) s2)" if op for v
  proof (rule core_inv_vote [OF s2])
    show "height (blk s2 x) < vheight s2" if "x \<in> set (votes (outs s2))" for x
      using core_invD(4) [OF inv] op \<open>op\<close> that by (auto simp: eq vote_ok_def)
    show "0 < vheight s2" using op \<open>op\<close> by (auto simp: eq intro: le_less_trans)
  qed (use r that in \<open>simp_all add: eq\<close>)
  moreover have "answer_proposal E prop op st = (if op \<and> \<not> vote_disabled s2
      then emit (OutVote prop (own_vote E s2 (hash (blk s2 ?r)))) s2 else s2)"
    unfolding answer_proposal_def Let_def s2_def s1_def ..
  ultimately show ?thesis using s2 by presburger
qed

lemma core_inv_on_receive_proposal [inv_intros]:
  assumes "on_receive_proposal E prop st = Inr st'" "core_inv st" "prop_blk prop < nxt (mem st)"
  shows "core_inv st'"
proof -
  from assms(1) obtain st1 op where u: "update (prop_blk prop) st = Inr st1"
    and o: "opinion (prop_blk prop) st1 = Inr op" and st': "st' = answer_proposal E prop op st1"
    by (auto simp: on_receive_proposal_stages res_iff)
  note inv1 = core_inv_update [OF u assms(2,3)] and fr = update_frame [OF u assms(2,3)]
  have r: "prop_blk prop < nxt (mem st1)" using assms(3) graph_eqD(1) [OF fr(1)] by simp
  show ?thesis
    unfolding st' using core_inv_answer_proposal [OF inv1 r, of op] o opinion_result [OF inv1 r] by auto
qed

end
