(* ===== verification/Hs_Deliver.thy ===== *)
theory Hs_Deliver
  imports Hs_Core_Inv
begin

text \<open>
  The operations of \<open>HotStuffCore\<close> that add blocks to the graph or fill in the pointers of
  a block: delivery, block creation and the arrival of a fetched block. They extend the graph
  without changing the parents and heights of the blocks already connected to it, so the
  invariant survives them.
\<close>

section \<open>Extensions of the graph\<close>

definition mem_extends :: "blkref \<Rightarrow> ('s, 'b) mem \<Rightarrow> ('s, 'b) mem \<Rightarrow> bool" where
  "mem_extends g m m' \<longleftrightarrow>
     nxt m \<le> nxt m' \<and>
     (\<forall>h r. find_blk h m = Some r \<longrightarrow> find_blk h m' = Some r) \<and>
     (\<forall>r < nxt m. hash (heap m' r) = hash (heap m r) \<and> cmds (heap m' r) = cmds (heap m r) \<and>
        decision (heap m' r) = decision (heap m r) \<and>
        (rooted m g r \<longrightarrow> parents (heap m' r) = parents (heap m r) \<and>
           height (heap m' r) = height (heap m r))) \<and>
     (\<forall>r. nxt m \<le> r \<and> r < nxt m' \<longrightarrow> decision (heap m' r) = 0)"

lemma mem_extD:
  assumes "mem_extends g m m'"
  shows "nxt m \<le> nxt m'" "find_blk h m = Some r \<Longrightarrow> find_blk h m' = Some r"
    and "r < nxt m \<Longrightarrow> hash (heap m' r) = hash (heap m r)" "r < nxt m \<Longrightarrow> cmds (heap m' r) = cmds (heap m r)"
    and "r < nxt m \<Longrightarrow> decision (heap m' r) = decision (heap m r)"
    and "r < nxt m \<Longrightarrow> rooted m g r \<Longrightarrow> parents (heap m' r) = parents (heap m r)"
    and "r < nxt m \<Longrightarrow> rooted m g r \<Longrightarrow> height (heap m' r) = height (heap m r)"
    and "nxt m \<le> r \<Longrightarrow> r < nxt m' \<Longrightarrow> decision (heap m' r) = 0"
  using assms by (auto simp: mem_extends_def)

lemma rooted_mem_ext: "mem_extends g m m' \<Longrightarrow> r < nxt m \<Longrightarrow> rooted m g r \<Longrightarrow> rooted m' g r"
  using mem_extD(6) by (fastforce simp: rooted_def)

lemma ref_ok_mem_ext:
  assumes "mem_extends (b0 st) (mem st) m'" "ref_ok st r"
  shows "ref_ok (st\<lparr>mem := m'\<rparr>) r"
  using assms rooted_mem_ext mem_extD(1) by (fastforce simp: ref_ok_def)

lemma core_inv_mem_ext:
  assumes inv: "core_inv st" and ext: "mem_extends (b0 st) (mem st) m'" and ok: "heap_ok m' (b0 st)"
  shows "core_inv (st\<lparr>mem := m'\<rparr>)"
proof -
  let ?st = "st\<lparr>mem := m'\<rparr>" and ?ex = "executed (outs st)"
  note i = core_invD [OF inv] and rx = ref_ok_mem_ext [OF ext]
  have same: "parents (heap m' r) = parents (blk st r)" "height (heap m' r) = height (blk st r)"
    if "ref_ok st r" for r
    using that mem_extD(6,7) [OF ext] by (auto simp: ref_ok_def)
  have fin: "finalities ?st r = finalities st r" if "ref_ok st r" for r
    using that mem_extD(3,4,7) [OF ext] by (auto simp: finalities_def ref_ok_def)
  have "refs_ok ?st"
    using i(2) rx mem_extD(2) [OF ext] unfolding refs_ok_def by (fastforce split: option.splits)
  moreover have "log_ok ?st"
  proof -
    have "is_path (heap m') (b0 st) ?ex (b_exec st)"
      by (rule is_path_cong [of _ "heap (mem st)"])
         (use i(3) executed_ref_ok(1) [OF inv] same in \<open>auto simp: log_ok_def\<close>)
    moreover have "concat (map (finalities ?st) ?ex) = concat (map (finalities st) ?ex)"
      by (intro arg_cong [of _ _ concat] map_cong) (simp_all add: fin executed_ref_ok(1) [OF inv])
    moreover have "decision (heap m' r) \<noteq> 0 \<longleftrightarrow> r = b0 st \<or> r \<in> set ?ex" if "r < nxt m'" for r
    proof (cases "r < nxt (mem st)")
      case True
      then show ?thesis using i(3) mem_extD(5) [OF ext] by (simp add: log_ok_def)
    next
      case False
      then show ?thesis using that mem_extD(8) [OF ext] heap_okD(1) [OF i(1)] executed_ref_ok(1) [OF inv]
        by (auto simp: ref_ok_def)
    qed
    ultimately show ?thesis using i(3) by (simp add: log_ok_def)
  qed
  moreover have "vote_ok ?st"
    using i(4) rx same(2) by (simp add: vote_ok_def cong: map_cong)
  ultimately show ?thesis using ok by (simp add: core_inv_def)
qed

section \<open>Delivery\<close>

lemma resolve_parent_ok:
  assumes "core_inv st" "resolve_parent st h = Inr p"
  shows "find_blk h (mem st) = Some p \<and> parent_ok (mem st) (b0 st) p \<and> hash (blk st p) = h"
proof -
  note i = core_invD [OF assms(1)]
  have "find_blk h (mem st) = Some p \<and> ref_ok st p"
    using assms(2) i(2) get_delivered_blk_ok [OF i(1)]
    by (fastforce simp: resolve_parent_def refs_ok_def res_iff split: if_splits option.splits)
  then show ?thesis using heap_okD(6) [OF i(1)] by (auto simp: parent_ok_def ref_ok_def)
qed

lemma resolve_parents_ok:
  assumes "core_inv st" "resolve_parents st hs = Inr ps"
  shows "list_all (parent_ok (mem st) (b0 st)) ps \<and> map (\<lambda>p. hash (blk st p)) ps = hs \<and>
    map Some ps = map (\<lambda>h. find_blk h (mem st)) hs"
  using assms(2)
  by (induction hs arbitrary: ps) (use resolve_parent_ok [OF assms(1)] in \<open>auto simp: res_iff\<close>)

text \<open>The pointers of a connected block are found again by delivery.\<close>

lemma resolve_parents_known:
  assumes "core_inv st" "r < nxt (mem st)" "parents (blk st r) \<noteq> []"
    and "resolve_parents st (parent_hashes (blk st r)) = Inr ps"
  shows "ps = parents (blk st r)"
proof -
  have ok: "blk_ok (mem st) (b0 st) r" using heap_okD(5) [OF core_invD(1) [OF assms(1)] assms(2)] .
  then have ph: "parent_hashes (blk st r) = map (\<lambda>p. hash (blk st p)) (parents (blk st r))"
    using assms(3) by (auto simp: blk_ok_def split: list.splits)
  have "map (\<lambda>h. find_blk h (mem st)) (parent_hashes (blk st r)) = map Some (parents (blk st r))"
    using ok by (simp add: ph blk_ok_def list_all_iff parent_ok_def)
  then have "map Some ps = map Some (parents (blk st r))"
    using resolve_parents_ok [OF assms(1,4)] by simp
  then show ?thesis by (simp add: inj_map_eq_map)
qed

lemma resolve_qc_ref_ok:
  assumes "core_inv st" "r < nxt (mem st)" "resolve_qc_ref r st = Inr q"
  shows "case q of None \<Rightarrow> True | Some x \<Rightarrow> x < nxt (mem st)"
  using assms(3) heap_okD(6) [OF core_invD(1) [OF assms(1)]] core_invD(9) [OF assms(1,2)]
  by (auto simp: resolve_qc_ref_def split: option.splits)

text \<open>The block graph after the pointers of \<open>r\<close> have been set.\<close>

definition connect :: "blkref \<Rightarrow> blkref list \<Rightarrow> blkref option \<Rightarrow> ('s, 'b) mem \<Rightarrow> ('s, 'b) mem" where
  "connect r ps q m = upd_blk r (\<lambda>b. b\<lparr>parents := ps, height := height (heap m (hd ps)) + 1,
     qc_ref := q, delivered := True\<rparr>) m"

lemma connect_ext:
  assumes ok: "heap_ok m g" and "r < nxt m" "r \<noteq> g" "ps \<noteq> []"
    and known: "parents (heap m r) \<noteq> [] \<Longrightarrow> ps = parents (heap m r)"
  shows "mem_extends g m (connect r ps q m)"
proof -
  have "height (heap m r) = height (heap m (hd ps)) + 1" if "parents (heap m r) \<noteq> []"
    using heap_okD(5) [OF ok assms(2)] that known by (auto simp: blk_ok_def split: list.splits)
  then show ?thesis using known assms(3) by (auto simp: mem_extends_def connect_def rooted_def)
qed

lemma parent_ok_mem_ext:
  assumes "mem_extends g m m'" "parent_ok m g p"
  shows "parent_ok m' g p"
  using assms mem_extD(1,2,3) [OF assms(1)] rooted_mem_ext [OF assms(1)]
  by (auto simp: parent_ok_def)

text \<open>A block that an extension leaves as it was, or whose parents are known, stays well formed.\<close>

lemma blk_ok_mem_ext:
  assumes ext: "mem_extends g m m'" and ok: "blk_ok m g r"
    and same: "parents (heap m' r) = parents (heap m r)" "parent_hashes (heap m' r) = parent_hashes (heap m r)"
      "height (heap m' r) = height (heap m r)" "delivered (heap m' r) = delivered (heap m r)"
      "qc_ref (heap m' r) = qc_ref (heap m r)" "blk_qc (heap m' r) = None \<longleftrightarrow> blk_qc (heap m r) = None"
  shows "blk_ok m' g r"
proof -
  have P: "list_all (parent_ok m' g) (parents (heap m r))" and
    H: "\<forall>p \<in> set (parents (heap m r)). height (heap m' p) = height (heap m p) \<and> hash (heap m' p) = hash (heap m p)"
    using ok parent_ok_mem_ext [OF ext] mem_extD(3,7) [OF ext]
    by (auto simp: blk_ok_def list_all_iff parent_ok_def)
  have R: "rooted m' g r \<longleftrightarrow> rooted m g r" by (simp add: rooted_def same)
  show ?thesis
    using ok P H mem_extD(1) [OF ext] by (auto simp: blk_ok_def same R split: list.splits option.splits)
qed

lemma heap_ok_connect:
  assumes ok: "heap_ok m g" and r: "r < nxt m" "r \<noteq> g" and ps: "ps \<noteq> []" "list_all (parent_ok m g) ps"
    and ph: "parent_hashes (heap m r) = map (\<lambda>p. hash (heap m p)) ps"
    and known: "parents (heap m r) \<noteq> [] \<Longrightarrow> ps = parents (heap m r)"
    and q: "case q of None \<Rightarrow> True | Some x \<Rightarrow> x < nxt m"
    and nooverflow: "height (heap m (hd ps)) + 1 \<noteq> 0"
  shows "heap_ok (connect r ps q m) g"
proof -
  let ?m = "connect r ps q m"
  note ext = connect_ext [OF ok r ps(1) known, of q]
  have nxt: "nxt ?m = nxt m" and find: "find_blk h ?m = find_blk h m" for h by (simp_all add: connect_def)
  have hd: "parent_ok m g (hd ps)" using ps by (cases ps) auto
  have h: "height (heap ?m (hd ps)) = height (heap m (hd ps))"
    using mem_extD(7) [OF ext] hd by (auto simp: parent_ok_def)
  have lt: "height (heap m (hd ps)) < height (heap m (hd ps)) + 1"
    using nooverflow by (intro word_less_Suc) auto
  have hash: "hash (heap ?m x) = hash (heap m x)" for x by (simp add: connect_def)
  have at_r: "parents (heap ?m r) = ps" "height (heap ?m r) = height (heap m (hd ps)) + 1"
    "qc_ref (heap ?m r) = q" "parent_hashes (heap ?m r) = parent_hashes (heap m r)"
    "blk_qc (heap ?m r) = blk_qc (heap m r)" by (simp_all add: connect_def)
  have "blk_qc (heap m r) \<noteq> None" using heap_okD(5) [OF ok r(1)] by (simp add: blk_ok_def)
  moreover have "list_all (parent_ok ?m g) ps"
    using ps(2) parent_ok_mem_ext [OF ext] by (auto simp: list_all_iff)
  moreover have "rooted ?m g r" using ps(1) by (simp add: rooted_def at_r)
  ultimately have "blk_ok ?m g r"
    unfolding blk_ok_def at_r hash nxt ph using ps(1) h lt q by (cases ps; cases q) simp_all
  moreover have "blk_ok ?m g x" if "x < nxt m" "x \<noteq> r" for x
    by (rule blk_ok_mem_ext [OF ext heap_okD(5) [OF ok that(1)]]) (use that in \<open>simp_all add: connect_def\<close>)
  ultimately have "\<forall>x < nxt m. blk_ok ?m g x" by blast
  moreover have "heap ?m g = heap m g" using r(2) by (simp add: connect_def)
  ultimately show ?thesis
    using ok unfolding heap_ok_def nxt find hash by simp
qed

lemma on_deliver_blk_steps:
  assumes "on_deliver_blk r now st = Inr (b, st')" "core_inv st" "r < nxt (mem st)"
  obtains "\<not> b" "st' = st" "delivered (blk st r)"
  | ps q where "b" "\<not> delivered (blk st r)"
      "resolve_parents st (parent_hashes (blk st r)) = Inr ps" "ps \<noteq> []" "resolve_qc_ref r st = Inr q"
      "mem st' = connect r ps q (mem st)"
      "quiet (st\<lparr>mem := connect r ps q (mem st)\<rparr>) st'" "tails st' = insert r (tails st - set ps)"
proof (cases "delivered (blk st r)")
  case True
  then show ?thesis using assms(1) that(1) by (simp add: on_deliver_blk_def)
next
  case False
  with assms(1) obtain p ps q where *: "resolve_parents st (parent_hashes (blk st r)) = Inr (p # ps)"
    "resolve_qc_ref r st = Inr q" b
    and st': "st' = record_latency r now (st\<lparr>mem := connect r (p # ps) q (mem st),
      tails := insert r (tails st - set (p # ps))\<rparr>)"
    by (auto simp: on_deliver_blk_def connect_def Let_def res_iff)
  let ?s = "st\<lparr>mem := connect r (p # ps) q (mem st)\<rparr>"
  have "quiet ?s (?s\<lparr>tails := insert r (tails st - set (p # ps))\<rparr>)"
    by (auto simp: quiet_def split: option.splits)
  then have "quiet ?s st'" unfolding st' by (auto intro: quiet_trans)
  then show ?thesis
    using that(2) [of "p # ps" q] * False by (auto simp: st' record_latency_def Let_def split: option.splits)
qed

text \<open>No block has reached the last height a \<open>uint32_t\<close> can count.\<close>

definition low :: "('p, 'k, 's, 'b) core \<Rightarrow> bool" where
  "low st \<longleftrightarrow> (\<forall>r < nxt (mem st). height (blk st r) \<noteq> - 1)"

lemma low_graph_eq: "graph_eq (mem st) (mem st') \<Longrightarrow> low st' = low st"
  by (simp add: low_def graph_eqD)

lemma word_plus_1_nz: "(h :: u32) \<noteq> - 1 \<Longrightarrow> h + 1 \<noteq> 0"
  by (metis add_eq_0_iff2)

lemma core_inv_on_deliver_blk:
  assumes d: "on_deliver_blk r now st = Inr (b, st')" and inv: "core_inv st" and r: "r < nxt (mem st)"
    and low: "low st'"
  shows "core_inv st'" "mem_extends (b0 st) (mem st) (mem st')" "ref_ok st' r" "delivered (blk st' r)"
proof -
  note i = core_invD [OF inv]
  have "core_inv st' \<and> mem_extends (b0 st) (mem st) (mem st') \<and> ref_ok st' r \<and> delivered (blk st' r)"
    using d inv r
  proof (cases rule: on_deliver_blk_steps)
    case 1
    then show ?thesis using inv r heap_okD(5) [OF i(1) r]
      by (auto simp: mem_extends_def ref_ok_def blk_ok_def)
  next
    case (2 ps q)
    let ?m = "connect r ps q (mem st)"
    have g: "r \<noteq> b0 st" using 2(2) heap_okD(3) [OF i(1)] by auto
    note rp = resolve_parents_ok [OF inv 2(3)]
    have known: "parents (blk st r) \<noteq> [] \<Longrightarrow> ps = parents (blk st r)"
      using resolve_parents_known [OF inv r _ 2(3)] by simp
    have ext: "mem_extends (b0 st) (mem st) ?m" using connect_ext [OF i(1) r g 2(4) known] .
    have "parent_ok (mem st) (b0 st) (hd ps)" using rp 2(4) by (cases ps) auto
    then have h: "height (blk st (hd ps)) + 1 \<noteq> 0"
      using low mem_extD(7) [OF ext, of "hd ps"] mem_extD(1) [OF ext]
      by (intro word_plus_1_nz) (auto simp: low_def parent_ok_def 2(6))
    have "heap_ok ?m (b0 st)"
      by (rule heap_ok_connect [OF i(1) r g 2(4) _ _ known resolve_qc_ref_ok [OF inv r 2(5)] h]) (use rp in auto)
    from core_inv_quiet [OF core_inv_mem_ext [OF inv ext this] 2(7)] ext 2(4,6) r quietD(2) [OF 2(7)]
    show ?thesis by (simp add: ref_ok_def rooted_def connect_def)
  qed
  then show "core_inv st'" "mem_extends (b0 st) (mem st) (mem st')" "ref_ok st' r" "delivered (blk st' r)" by auto
qed

section \<open>New blocks\<close>

lemma add_blk_move_ext:
  assumes "add_blk_move b m = (r, m')" "decision b = 0"
  shows "mem_extends g m m'"
  using assms(2) by (auto simp: mem_extends_def add_blk_move_steps [OF assms(1)])

text \<open>A new block may join a well-formed graph when it has no parent pointers, or its pointers
  name connected blocks under the hashes it lists and its height is right.\<close>

definition joinable :: "('s, 'b) mem \<Rightarrow> blkref \<Rightarrow> ('s, 'b) Block \<Rightarrow> bool" where
  "joinable m g b \<longleftrightarrow>
     \<not> delivered b \<and> decision b = 0 \<and> blk_qc b \<noteq> None \<and> list_all (parent_ok m g) (parents b) \<and>
     (case parents b of
        [] \<Rightarrow> height b = 0 \<and> qc_ref b = None
      | p # _ \<Rightarrow> parent_hashes b = map (\<lambda>p. hash (heap m p)) (parents b) \<and>
                 height b = height (heap m p) + 1 \<and> height b \<noteq> 0 \<and>
                 (case qc_ref b of None \<Rightarrow> True | Some q \<Rightarrow> q < nxt m))"

lemma heap_ok_add_blk_move:
  assumes ok: "heap_ok m g" and add: "add_blk_move b m = (r, m')" and j: "joinable m g b"
  shows "heap_ok m' g"
proof -
  note st = add_blk_move_steps [OF add]
  have ext: "mem_extends g m m'" using add_blk_move_ext [OF add] j by (simp add: joinable_def)
  have lt: "height (heap m p) < height b" if "parents b = p # ps" for p ps
  proof -
    have "height (heap m p) + 1 \<noteq> 0" "height b = height (heap m p) + 1" using j that by (auto simp: joinable_def)
    moreover from this(1) have "height (heap m p) \<noteq> - 1" by (metis add.left_inverse)
    ultimately show ?thesis using word_less_Suc [of "height (heap m p)"] by simp
  qed
  have old: "blk_ok m' g x" if "x < nxt m" for x
    by (rule blk_ok_mem_ext [OF ext heap_okD(5) [OF ok that]]) (use that in \<open>simp_all add: st\<close>)
  have new: "blk_ok m' g (nxt m)"
  proof -
    have "list_all (parent_ok m' g) (parents b)"
      using j parent_ok_mem_ext [OF ext] by (auto simp: joinable_def list_all_iff)
    moreover have "p \<noteq> nxt m" if "p \<in> set (parents b)" for p
      using j that by (auto simp: joinable_def list_all_iff parent_ok_def)
    ultimately show ?thesis using j lt
      by (auto simp: blk_ok_def joinable_def st rooted_def split: list.splits option.splits)
  qed
  have "blk_ok m' g x" if "x < nxt m'" for x
    using that old new by (auto simp: st less_Suc_eq)
  then show ?thesis
    using heap_okD [OF ok] unfolding heap_ok_def by (auto simp: st less_Suc_eq split: if_splits)
qed

lemma core_inv_add_blk_move:
  assumes "core_inv st" "add_blk_move b (mem st) = (r, m')" "joinable (mem st) (b0 st) b"
  shows "core_inv (st\<lparr>mem := m'\<rparr>)" "r < nxt m'" "mem_extends (b0 st) (mem st) m'" "find_blk (hash b) m' = Some r"
proof -
  note i = core_invD [OF assms(1)]
  have ok: "heap_ok m' (b0 st)" using heap_ok_add_blk_move [OF i(1) assms(2,3)] .
  show ext: "mem_extends (b0 st) (mem st) m'"
    using add_blk_move_ext [OF assms(2)] assms(3) by (simp add: joinable_def)
  show "core_inv (st\<lparr>mem := m'\<rparr>)" using core_inv_mem_ext [OF assms(1) ext ok] .
  show f: "find_blk (hash b) m' = Some r" using add_blk_move_steps(4) [OF assms(2)] .
  show "r < nxt m'" using heap_okD(6) [OF ok f] by simp
qed

text \<open>A block read from the network joins without pointers.\<close>

lemma joinable_unserialized:
  assumes "block_unserialize E sc s = Inr (b, s')"
  shows "joinable m g b"
  using assms by (auto simp: block_unserialize_def Block_default_def joinable_def res_iff)

lemma new_blk_steps:
  fixes st :: "('a, 'b, 'c, 'd) core"
  assumes "new_blk E ps cm ex q st = Inr (r, st')" "core_inv st" "low st"
    and ps: "list_all (parent_ok (mem st) (b0 st)) ps" and q: "case q of None \<Rightarrow> True | Some x \<Rightarrow> x < nxt (mem st)"
  shows "core_inv st'" "r < nxt (mem st')" "mem_extends (b0 st) (mem st) (mem st')" "st' = st\<lparr>mem := mem st'\<rparr>"
proof -
  from assms(1) obtain p ps' hq b where p: "ps = p # ps'"
    and new: "Block_new E (map (\<lambda>r. (r, hash (blk st r))) ps) cm (Some (qc_clone hq)) ex
             (height (blk st p) + 1) q None 0 = Inr b"
    and add: "(let (r0, m1) = alloc_blk b (mem st); (r, m2) = add_blk r0 m1 in Inr (r, st\<lparr>mem := m2\<rparr>)) =
      (Inr (r, st') :: (blkref \<times> ('a, 'b, 'c, 'd) core) res)"
    unfolding new_blk_def by (auto simp: res_iff)
  from add obtain m' where m': "add_blk_move b (mem st) = (r, m')" and st': "st' = st\<lparr>mem := m'\<rparr>"
    by (cases "alloc_blk b (mem st)") (auto simp: add_blk_move_def Let_def split: prod.splits)
  from new have b: "parents b = ps" "parent_hashes b = map (\<lambda>p. hash (blk st p)) ps" "qc_ref b = q"
      "height b = height (blk st p) + 1" "\<not> delivered b" "decision b = 0" "blk_qc b \<noteq> None"
    by (auto simp: Block_new_def res_iff comp_def)
  have "height (blk st p) + 1 \<noteq> 0"
    using assms(3) ps p by (intro word_plus_1_nz) (auto simp: low_def parent_ok_def)
  then have "joinable (mem st) (b0 st) b"
    using b p ps q by (auto simp: joinable_def)
  from core_inv_add_blk_move [OF assms(2) m' this] st'
  show "core_inv st'" "r < nxt (mem st')" "mem_extends (b0 st) (mem st) (mem st')" "st' = st\<lparr>mem := mem st'\<rparr>" by simp_all
qed

section \<open>Processing an own block\<close>

lemma mem_ext_trans:
  assumes "mem_extends g m m'" "mem_extends g m' m''"
  shows "mem_extends g m m''"
  using assms rooted_mem_ext [OF assms(1)] unfolding mem_extends_def
  by (smt (verit, ccfv_SIG) linorder_not_le order.strict_trans2 order.trans)

lemma mem_ext_mem_eq: "mem_eq m m' \<Longrightarrow> mem_extends g m m'"
  by (auto simp: mem_extends_def mem_eqD mem_eq_decision)

end
