(* ===== verification/Hs_Runs.thy ===== *)
theory Hs_Runs
  imports Hs_Deliver
begin

text \<open>
  Runs of \<open>HotStuffCore\<close>: how one call of each operation moves the protocol state forward
  (\<open>progress\<close>), the step relation whose steps are the calls of
  \<^verbatim>\<open>src/consensus.cpp\<close>, and the facts that hold along every run.
\<close>

section \<open>Progress\<close>

definition hqc_height :: "('p, 'k, 's, 'b) core \<Rightarrow> u32" where
  "hqc_height st = (case hqc st of None \<Rightarrow> 0 | Some (r, _) \<Rightarrow> height (blk st r))"

definition graph_grows :: "('p, 'k, 's, 'b) core \<Rightarrow> ('p, 'k, 's, 'b) core \<Rightarrow> bool" where
  "graph_grows st st' \<longleftrightarrow>
     nxt (mem st) \<le> nxt (mem st') \<and> b0 st' = b0 st \<and>
     (\<forall>h r. find_blk h (mem st) = Some r \<longrightarrow> find_blk h (mem st') = Some r) \<and>
     (\<forall>r < nxt (mem st). hash (blk st' r) = hash (blk st r) \<and> cmds (blk st' r) = cmds (blk st r)) \<and>
     (\<forall>r. ref_ok st r \<longrightarrow> ref_ok st' r \<and> parents (blk st' r) = parents (blk st r) \<and>
        height (blk st' r) = height (blk st r))"

definition progress :: "('p, 'k, 's, 'b) core \<Rightarrow> ('p, 'k, 's, 'b) core \<Rightarrow> bool" where
  "progress st st' \<longleftrightarrow>
     graph_grows st st' \<and> my_id st' = my_id st \<and> vheight st \<le> vheight st' \<and>
     height (blk st (b_lock st)) \<le> height (blk st' (b_lock st')) \<and> hqc_height st \<le> hqc_height st' \<and>
     (\<exists>xs. executed (outs st') = executed (outs st) @ xs \<and>
        is_path (heap (mem st')) (b_exec st) xs (b_exec st')) \<and>
     (\<exists>vs. votes (outs st') = votes (outs st) @ vs \<and> (\<forall>r \<in> set vs. vheight st < height (blk st' r)))"

lemma graph_grows_trans: "graph_grows st st' \<Longrightarrow> graph_grows st' st'' \<Longrightarrow> graph_grows st st''"
  by (auto simp: graph_grows_def)

lemma progress_refl [simp]: "progress st st"
  by (simp add: progress_def graph_grows_def)

lemma graph_grows_path:
  assumes "graph_grows st st'" "core_inv st" "is_path (heap (mem st)) a xs b" "\<forall>x \<in> set xs. x < nxt (mem st)"
  shows "is_path (heap (mem st')) a xs b"
proof (rule is_path_cong [OF _ assms(3)])
  fix x assume "x \<in> set xs" "parents (blk st x) \<noteq> []"
  then have "ref_ok st x" using assms(4) by (simp add: ref_ok_def rooted_def)
  then show "parents (blk st' x) = parents (blk st x)" using assms(1) by (simp add: graph_grows_def)
qed

lemma progress_trans:
  assumes inv: "core_inv st'" and p1: "progress st st'" and p2: "progress st' st''"
  shows "progress st st''"
proof -
  have g: "graph_grows st st'" "graph_grows st' st''" using p1 p2 by (simp_all add: progress_def)
  note g3 = graph_grows_trans [OF g]
  obtain xs ys where e: "executed (outs st') = executed (outs st) @ xs" "executed (outs st'') = executed (outs st') @ ys"
    and px: "is_path (heap (mem st')) (b_exec st) xs (b_exec st')"
    and py: "is_path (heap (mem st'')) (b_exec st') ys (b_exec st'')"
    using p1 p2 by (auto simp: progress_def)
  have "\<forall>x \<in> set xs. x < nxt (mem st')"
    using executed_ref_ok(1) [OF inv] e(1) by (auto simp: ref_ok_def)
  from graph_grows_path [OF g(2) inv px this] py e
  have ex: "\<exists>zs. executed (outs st'') = executed (outs st) @ zs \<and> is_path (heap (mem st'')) (b_exec st) zs (b_exec st'')"
    by (intro exI [of _ "xs @ ys"]) auto
  obtain vs ws where v: "votes (outs st') = votes (outs st) @ vs" "votes (outs st'') = votes (outs st') @ ws"
    "\<forall>r \<in> set vs. vheight st < height (blk st' r)" "\<forall>r \<in> set ws. vheight st' < height (blk st'' r)"
    using p1 p2 by (auto simp: progress_def)
  have "\<forall>r \<in> set vs. vheight st < height (blk st'' r)"
    using v core_invD(4) [OF inv] g(2) by (auto simp: vote_ok_def graph_grows_def)
  moreover have "\<forall>r \<in> set ws. vheight st < height (blk st'' r)"
    using v(4) p1 by (auto simp: progress_def intro: le_less_trans)
  ultimately have vo: "\<exists>us. votes (outs st'') = votes (outs st) @ us \<and> (\<forall>r \<in> set us. vheight st < height (blk st'' r))"
    using v by (intro exI [of _ "vs @ ws"]) auto
  show ?thesis using g3 ex vo p1 p2 unfolding progress_def by (auto intro: order.trans)
qed

text \<open>A state that satisfies the invariant moves to another one that does.\<close>

definition evolves :: "('p, 'k, 's, 'b) core \<Rightarrow> ('p, 'k, 's, 'b) core \<Rightarrow> bool" where
  "evolves st st' \<longleftrightarrow> core_inv st \<and> core_inv st' \<and> progress st st'"

lemma evolves_refl: "core_inv st \<Longrightarrow> evolves st st"
  by (simp add: evolves_def)

lemma evolves_trans [trans]: "evolves st st' \<Longrightarrow> evolves st' st'' \<Longrightarrow> evolves st st''"
  using progress_trans by (auto simp: evolves_def)

lemma evolvesD: "evolves st st' \<Longrightarrow> core_inv st" "evolves st st' \<Longrightarrow> core_inv st'" "evolves st st' \<Longrightarrow> progress st st'"
  by (simp_all add: evolves_def)

lemma graph_grows_eq:
  assumes "graph_eq (mem st) (mem st')" "b0 st' = b0 st"
  shows "graph_grows st st'"
  using assms by (auto simp: graph_grows_def graph_eqD ref_ok_def rooted_graph_eq)

lemma evolves_quiet:
  assumes "core_inv st" "quiet st st'"
  shows "evolves st st'"
proof -
  note me = mem_eqD [OF quietD(1) [OF assms(2)]]
  have "height (blk st (b_lock st)) \<le> height (blk st' (b_lock st'))" "hqc_height st \<le> hqc_height st'"
    using assms(2) by (auto simp: quiet_def me hqc_height_def split: option.splits)
  moreover have "graph_grows st st'"
    using graph_grows_eq mem_eq_graph quietD(1,2) [OF assms(2)] by blast
  ultimately show ?thesis
    using core_inv_quiet [OF assms] assms(1) quietD [OF assms(2)]
    by (simp add: evolves_def progress_def)
qed

lemma evolves_execute_path:
  assumes "core_inv st" "ref_ok st r" "is_path (heap (mem st)) (b_exec st) xs r"
  shows "evolves st (execute_path xs r st)"
  using core_inv_execute_path [OF assms] assms(1,3) graph_grows_eq [OF execute_path_graph [of st xs r]]
  by (simp add: evolves_def progress_def graph_eqD [OF execute_path_graph] hqc_height_def
      is_path_graph_eq [OF execute_path_graph] split: option.split)

lemma evolves_update:
  assumes "update n st = Inr st'" "core_inv st" "n < nxt (mem st)"
  shows "evolves st st'"
  using assms
proof (cases rule: update_steps)
  case (2 st1 b xs)
  note q = evolves_quiet [OF assms(2) 2(1)]
  have "evolves st1 (execute_path xs b st1)"
    by (rule evolves_execute_path)
      (use 2 q in \<open>simp_all add: evolves_def ref_ok_quiet is_path_mem_eq [OF quietD(1) [OF 2(1)]] quietD\<close>)
  with q show ?thesis unfolding 2(5) by (rule evolves_trans)
qed (use assms evolves_quiet in auto)

lemma evolves_vheight:
  assumes "core_inv st" "vheight st \<le> h"
  shows "evolves st (st\<lparr>vheight := h\<rparr>)"
  using core_inv_vheight [OF assms] assms
  by (auto simp: evolves_def progress_def graph_grows_def ref_ok_def hqc_height_def split: option.split)

lemma evolves_mem_ext:
  assumes "core_inv st" "mem_extends (b0 st) (mem st) m'" "core_inv (st\<lparr>mem := m'\<rparr>)"
  shows "evolves st (st\<lparr>mem := m'\<rparr>)"
proof -
  note i = core_invD [OF assms(1)]
  have "graph_grows st (st\<lparr>mem := m'\<rparr>)"
    using mem_extD [OF assms(2)] ref_ok_mem_ext [OF assms(2)]
    by (auto simp: graph_grows_def ref_ok_def)
  moreover from this have "height (heap m' (b_lock st)) = height (blk st (b_lock st))"
    "hqc_height (st\<lparr>mem := m'\<rparr>) = hqc_height st"
    using i(5,7) by (auto simp: graph_grows_def hqc_height_def split: option.split)
  ultimately show ?thesis using assms(1,3) by (simp add: evolves_def progress_def)
qed

lemma evolves_on_deliver_blk:
  assumes "on_deliver_blk r now st = Inr (b, st')" "core_inv st" "r < nxt (mem st)" "low st'"
  shows "evolves st st'" "ref_ok st' r" "delivered (blk st' r)"
proof -
  note d = core_inv_on_deliver_blk [OF assms]
  have "evolves st st'" using assms(1-3)
  proof (cases rule: on_deliver_blk_steps)
    case (2 ps q)
    let ?s = "st\<lparr>mem := connect r ps q (mem st)\<rparr>"
    have "heap_ok (connect r ps q (mem st)) (b0 st)"
      using core_invD(1) [OF d(1)] 2(6) quietD(2) [OF 2(7)] by simp
    then have "core_inv ?s" using core_inv_mem_ext [OF assms(2)] d(2) 2(6) by simp
    with d(2) 2(6) assms(2) have "evolves st ?s" by (intro evolves_mem_ext) simp_all
    also have "evolves ?s st'" using evolves_quiet [OF \<open>core_inv ?s\<close> 2(7)] .
    finally show ?thesis .
  qed (use assms(2) evolves_refl in auto)
  with d show "evolves st st'" "ref_ok st' r" "delivered (blk st' r)" by auto
qed

lemma evolves_answer_proposal:
  assumes inv: "core_inv st" and r: "prop_blk prop < nxt (mem st)"
    and op: "op \<Longrightarrow> vheight st < height (blk st (prop_blk prop))"
  shows "evolves st (answer_proposal E prop op st)"
proof -
  let ?s = "answer_proposal E prop op st"
  have f: "b0 ?s = b0 st" "my_id ?s = my_id st" "b_lock ?s = b_lock st" "hqc ?s = hqc st" "b_exec ?s = b_exec st"
    "executed (outs ?s) = executed (outs st)"
    by (simp_all add: answer_proposal_def on_qc_finish_def Let_def split: option.split)
  have "graph_grows st ?s" by (rule graph_grows_eq) (simp_all add: f graph_eq_def)
  then show ?thesis
    using core_inv_answer_proposal [OF assms, where E = E] inv op f
    by (auto simp: evolves_def progress_def hqc_height_def split: option.split)
qed

lemma on_receive_proposal_steps:
  assumes "on_receive_proposal E prop st = Inr st'" "core_inv st" "prop_blk prop < nxt (mem st)"
  obtains st1 op where "update (prop_blk prop) st = Inr st1" "evolves st st1"
    "opinion (prop_blk prop) st1 = Inr op" "st' = answer_proposal E prop op st1" "evolves st1 st'"
    "prop_blk prop < nxt (mem st1)"
proof -
  from assms(1) obtain st1 op where u: "update (prop_blk prop) st = Inr st1"
    and o: "opinion (prop_blk prop) st1 = Inr op" and st': "st' = answer_proposal E prop op st1"
    by (auto simp: on_receive_proposal_stages res_iff)
  note ev = evolves_update [OF u assms(2,3)] and inv1 = core_inv_update [OF u assms(2,3)]
  have r: "prop_blk prop < nxt (mem st1)"
    using assms(3) graph_eqD(1) [OF update_frame(1) [OF u assms(2,3)]] by simp
  have "evolves st1 st'" unfolding st'
    by (rule evolves_answer_proposal [OF inv1 r]) (use o opinion_result [OF inv1 r] in auto)
  then show ?thesis using that u ev o st' r by blast
qed

lemma evolves_on_receive_proposal:
  assumes "on_receive_proposal E prop st = Inr st'" "core_inv st" "prop_blk prop < nxt (mem st)"
  shows "evolves st st'"
  using assms by (rule on_receive_proposal_steps) (rule evolves_trans)

section \<open>Own blocks\<close>

text \<open>The stages of \<open>process_block\<close>: certificate, delivery, update, voted height, own vote.\<close>

definition ensure_self_qc ::
  "('p, 'k, 's, 'b) env \<Rightarrow> blkref \<Rightarrow> ('p, 'k, 's, 'b) core \<Rightarrow> ('p, 'k, 's, 'b) core" where
  "ensure_self_qc E r st =
     (if self_qc (blk st r) = None
      then set_blk r (\<lambda>b. b\<lparr>self_qc := Some (create_quorum_cert E (sch st) (config st) (hash (blk st r)))\<rparr>) st
      else st)"

definition adjust_height :: "blkref \<Rightarrow> bool \<Rightarrow> ('p, 'k, 's, 'b) core \<Rightarrow> ('p, 'k, 's, 'b) core res" where
  "adjust_height r adj st =
     (if adj then
        if height (blk st r) \<le> vheight st
        then Inl (RuntimeError ''new block should be higher than vheight'')
        else Inr (st\<lparr>vheight := height (blk st r)\<rparr>)
      else Inr st)"

lemma process_block_stages:
  "process_block E r adj now st =
     bind (on_deliver_blk r now (ensure_self_qc E r st)) (\<lambda>(_, s1).
     bind (update r s1) (\<lambda>s2.
     bind (adjust_height r adj s2) (\<lambda>s3.
     bind (on_receive_vote E (own_vote E s3 (hash (blk st r))) s3) (\<lambda>s4.
       Inr (\<lparr>proposer = my_id s2, prop_blk = r\<rparr>, emit (OutPropose \<lparr>proposer = my_id s2, prop_blk = r\<rparr>) s4)))))"
  unfolding process_block_def ensure_self_qc_def adjust_height_def Let_def ..

lemma evolves_adjust_height:
  assumes "adjust_height r adj st = Inr st'" "core_inv st"
  shows "evolves st st'" "mem st' = mem st" "adj \<Longrightarrow> vheight st' = height (blk st r)"
  using assms evolves_vheight [OF assms(2), of "height (blk st r)"] evolves_refl [OF assms(2)]
  by (auto simp: adjust_height_def split: if_splits)

text \<open>Updates and votes never touch the graph, whatever the state.\<close>

lemma graph_eq_trans: "graph_eq m m' \<Longrightarrow> graph_eq m' m'' \<Longrightarrow> graph_eq m m''"
  by (simp add: graph_eq_def)

lemma graph_eq_refl [simp]: "graph_eq m m"
  by (simp add: graph_eq_def)

lemma update_hqc_mem: "update_hqc r q st = Inr st' \<Longrightarrow> mem st' = mem st"
  by (auto simp: update_hqc_def on_hqc_update_def res_iff split: if_splits)

lemma graph_eq_commit: "commit r st = Inr st' \<Longrightarrow> graph_eq (mem st) (mem st')"
  by (auto simp: commit_def res_iff fold_decide_blk graph_eq_def blk_view_def split: if_splits)

lemma graph_eq_commit_if_chain:
  assumes "commit_if_chain b2 b1 st = Inr st'"
  shows "graph_eq (mem st) (mem st')"
  using assms graph_eq_commit
  by (cases "qc_ref (blk st b1)") (auto simp: commit_if_chain_def res_iff split: if_splits)

lemma raise_lock_mem [simp]: "mem (raise_lock r st) = mem st"
  by (simp add: raise_lock_def)

lemma graph_eq_update:
  assumes "update n st = Inr st'"
  shows "graph_eq (mem st) (mem st')"
proof (cases "\<exists>b2. qc_ref (blk st n) = Some b2 \<and> decision (blk st b2) = 0")
  case False
  then show ?thesis using assms by (auto simp: update_stages split: option.splits)
next
  case True
  with assms obtain b2 s1 where s1: "update_hqc b2 (blk_qc (blk st n)) st = Inr s1"
    and st': "(case qc_ref (blk s1 b2) of None \<Rightarrow> Inr s1 | Some b1 \<Rightarrow>
      if decision (blk s1 b1) \<noteq> 0 then Inr s1 else commit_if_chain b2 b1 (raise_lock b1 s1)) = Inr st'"
    by (auto simp: update_stages res_iff)
  show ?thesis
    using st' graph_eq_commit_if_chain [of b2 _ "raise_lock _ s1"] update_hqc_mem [OF s1]
    by (cases "qc_ref (blk s1 b2)") (auto split: if_splits)
qed

lemma graph_eq_set_blk:
  assumes "\<And>b. blk_view (f b) = blk_view b"
  shows "graph_eq m (upd_blk r f m)"
  using assms by (simp add: graph_eq_def)

lemma graph_eq_count_own_vote:
  assumes "count_own_vote E r v pc st = Inr st'"
  shows "graph_eq (mem st) (mem st')"
proof -
  from assms obtain q where "mem st' = upd_blk r (\<lambda>b. b\<lparr>self_qc := Some q\<rparr>) (mem st)"
    unfolding count_own_vote_def Let_def
    by (auto simp: bind_Inr_iff dest!: update_hqc_mem split: if_split_asm)
  then show ?thesis using graph_eq_set_blk [of "\<lambda>b. b\<lparr>self_qc := Some q\<rparr>"] by (simp add: blk_view_def)
qed

lemma graph_eq_on_receive_vote:
  assumes "on_receive_vote E v st = Inr st'"
  shows "graph_eq (mem st) (mem st')"
proof -
  obtain r pc where "get_delivered_blk (v_blk_hash v) st = Inr r" "v_cert v = Some pc"
    using assms by (auto simp: on_receive_vote_def bind_Inr_iff split: option.split_asm)
  moreover have g: "graph_eq (mem st) (upd_blk r (\<lambda>b. b\<lparr>voted := insert (voter v) (voted b)\<rparr>) (mem st))" for r
    by (rule graph_eq_set_blk) (simp add: blk_view_def)
  ultimately show ?thesis
    using assms graph_eq_trans [OF g [of r]] g [of r]
    by (auto simp: on_receive_vote_def Let_def split: if_split_asm dest!: graph_eq_count_own_vote)
qed

lemma evolves_process_block:
  assumes p: "process_block E r adj now st = Inr (prop, st')" and inv: "core_inv st" and r: "r < nxt (mem st)"
    and low: "low st'"
  shows "evolves st st'" "ref_ok st' r" "prop = \<lparr>proposer = my_id st, prop_blk = r\<rparr>"
    "adj \<Longrightarrow> vheight st' = height (blk st' r)"
proof -
  let ?s0 = "ensure_self_qc E r st"
  from p obtain b s1 s2 s3 s4 where d: "on_deliver_blk r now ?s0 = Inr (b, s1)" and u: "update r s1 = Inr s2"
    and a: "adjust_height r adj s2 = Inr s3" and v: "on_receive_vote E (own_vote E s3 (hash (blk st r))) s3 = Inr s4"
    and pr: "prop = \<lparr>proposer = my_id s2, prop_blk = r\<rparr>" and st': "st' = emit (OutPropose prop) s4"
    by (auto simp: process_block_stages res_iff)
  have "quiet st ?s0" by (simp add: ensure_self_qc_def)
  note e0 = evolves_quiet [OF inv this]
  have r0: "r < nxt (mem ?s0)" using e0 r by (simp add: evolves_def progress_def graph_grows_def)
  have m3: "mem s3 = mem s2" using a by (auto simp: adjust_height_def split: if_splits)
  have g: "graph_eq (mem s1) (mem st')"
    using graph_eq_trans [OF graph_eq_update [OF u]] graph_eq_on_receive_vote [OF v] by (simp add: st' m3)
  then have "low s1" using low low_graph_eq by blast
  note e1 = evolves_on_deliver_blk [OF d evolvesD(2) [OF e0] r0 this]
  have e2: "evolves s1 s2" using evolves_update [OF u evolvesD(2) [OF e1(1)]] e1(2) by (simp add: ref_ok_def)
  note e3 = evolves_adjust_height [OF a evolvesD(2) [OF e2]]
  have q4: "quiet s3 s4" using quiet_on_receive_vote [OF v core_invD(1) [OF evolvesD(2) [OF e3(1)]]] .
  have "quiet s4 st'" unfolding st' by (auto simp: quiet_def split: option.splits)
  then have e4: "evolves s3 st'"
    using evolves_quiet [OF evolvesD(2) [OF e3(1)] quiet_trans [OF q4]] by simp
  show "evolves st st'"
    using evolves_trans [OF e0 evolves_trans [OF e1(1) evolves_trans [OF e2 evolves_trans [OF e3(1) e4]]]] .
  show "ref_ok st' r"
    using e1(2) evolvesD(3) [OF e2] evolvesD(3) [OF e4] evolvesD(3) [OF e3(1)]
    by (simp add: progress_def graph_grows_def)
  show "prop = \<lparr>proposer = my_id st, prop_blk = r\<rparr>"
    using e0 e1(1) e2 by (simp add: pr evolves_def progress_def)
  show "adj \<Longrightarrow> vheight st' = height (blk st' r)"
    using e3(2,3) quietD(5) [OF q4] mem_eqD(8) [OF quietD(1) [OF q4]] by (simp add: st')
qed

lemma evolves_frame:
  assumes "core_inv st" "mem st' = mem st" "b0 st' = b0 st" "b_exec st' = b_exec st" "b_lock st' = b_lock st"
    "my_id st' = my_id st" "vheight st' = vheight st" "piped_queue st' = piped_queue st" "hqc st' = hqc st"
    "executed (outs st') = executed (outs st)" "decided (outs st') = decided (outs st)"
    "votes (outs st') = votes (outs st)"
  shows "evolves st st'"
  using assms by (intro evolves_quiet) (auto simp: quiet_def split: option.splits)

text \<open>The parents of a proposal are stored, connected blocks; the parent added from the
  pipeline is one as well.\<close>

lemma piped_parent_ok:
  assumes "core_inv st" "h \<in> set (piped_queue st)" "find_blk h (mem st) = Some p"
  shows "parent_ok (mem st) (b0 st) p"
proof -
  have "ref_ok st p" using core_invD(2) [OF assms(1)] assms(2,3) by (fastforce simp: refs_ok_def)
  moreover have "hash (blk st p) = h" using heap_okD(6) [OF core_invD(1) [OF assms(1)] assms(3)] by simp
  ultimately show ?thesis using assms(3) by (simp add: ref_ok_def parent_ok_def)
qed

text \<open>The stages of \<open>on_propose\<close>.\<close>

definition piped_parents :: "blkref list \<Rightarrow> ('p, 'k, 's, 'b) core \<Rightarrow> blkref list res" where
  "piped_parents ps st =
     (if piped_queue st = [] then Inr ps
      else bind (deref (find_blk (last (piped_queue st)) (mem st))) (\<lambda>pb.
             Inr (if height (blk st (hd ps)) \<le> height (blk st pb) then pb # ps else ps)))"

definition finish_propose ::
  "blkref \<Rightarrow> Proposal \<Rightarrow> timeval \<Rightarrow> timeval \<Rightarrow> ('p, 'k, 's, 'b) core \<Rightarrow> ('p, 'k, 's, 'b) core" where
  "finish_propose r prop t1 t2 st =
     (let st = emit (OutBroadcast prop) st in
      if my_id st = 0 then st\<lparr>stats := umap_insert (hash (blk st r)) (usec_between t1 t2) (stats st)\<rparr> else st)"

lemma on_propose_stages:
  "on_propose E cm (p # ps) ex t1 t2 t3 st =
     bind (piped_parents (p # ps) (st\<lparr>tails := tails st - set (p # ps)\<rparr>)) (\<lambda>nps.
     bind (new_blk E nps cm ex (map_option fst (hqc (st\<lparr>tails := tails st - set (p # ps)\<rparr>)))
             (st\<lparr>tails := tails st - set (p # ps)\<rparr>)) (\<lambda>(r, s1).
     bind (process_block E r True t2 (s1\<lparr>b_normal_height := height (blk s1 r)\<rparr>)) (\<lambda>(prop, s2).
       Inr (r, finish_propose r prop t1 t3 s2))))"
  unfolding on_propose_def piped_parents_def finish_propose_def Let_def list.case list.sel ..

lemma finish_propose_fields [simp]:
  "mem (finish_propose r prop t1 t2 st) = mem st" "b0 (finish_propose r prop t1 t2 st) = b0 st"
  "b_exec (finish_propose r prop t1 t2 st) = b_exec st" "b_lock (finish_propose r prop t1 t2 st) = b_lock st"
  "my_id (finish_propose r prop t1 t2 st) = my_id st" "vheight (finish_propose r prop t1 t2 st) = vheight st"
  "piped_queue (finish_propose r prop t1 t2 st) = piped_queue st" "hqc (finish_propose r prop t1 t2 st) = hqc st"
  "outs (finish_propose r prop t1 t2 st) = outs st @ [OutBroadcast prop]"
  by (simp_all add: finish_propose_def Let_def)

lemma evolves_on_propose:
  assumes p: "on_propose E cm ps ex t1 t2 t3 st = Inr (r, st')" and inv: "core_inv st" and low: "low st" "low st'"
    and ps: "list_all (parent_ok (mem st) (b0 st)) ps"
  shows "evolves st st'" "ref_ok st' r" "vheight st' = height (blk st' r)"
proof -
  let ?s0 = "st\<lparr>tails := tails st - set ps\<rparr>"
  have "ps \<noteq> []" using p by (auto simp: on_propose_def)
  with p obtain nps s1 prp s2 where nps: "piped_parents ps ?s0 = Inr nps"
    and n: "new_blk E nps cm ex (map_option fst (hqc ?s0)) ?s0 = Inr (r, s1)"
    and b: "process_block E r True t2 (s1\<lparr>b_normal_height := height (blk s1 r)\<rparr>) = Inr (prp, s2)"
    and st': "st' = finish_propose r prp t1 t3 s2"
    by (cases ps) (auto simp: on_propose_stages bind_Inr_iff)
  have inv0: "evolves st ?s0" by (rule evolves_frame [OF inv]) simp_all
  have "list_all (parent_ok (mem st) (b0 st)) nps"
    using nps ps piped_parent_ok [OF inv last_in_set] by (auto simp: piped_parents_def res_iff split: if_splits)
  moreover have "case map_option fst (hqc ?s0) of None \<Rightarrow> True | Some x \<Rightarrow> x < nxt (mem ?s0)"
    using core_invD(7) [OF inv] by (auto simp: ref_ok_def split: option.split)
  ultimately have ns: "core_inv s1" "r < nxt (mem s1)" "mem_extends (b0 st) (mem st) (mem s1)" "s1 = ?s0\<lparr>mem := mem s1\<rparr>"
    using new_blk_steps [OF n evolvesD(2) [OF inv0] _ _ \<open>case _ of None \<Rightarrow> _ | Some x \<Rightarrow> _ x\<close>] low(1)
    by (simp_all add: low_def)
  have e1: "evolves ?s0 s1"
    using evolves_mem_ext [OF evolvesD(2) [OF inv0], of "mem s1"] ns by simp
  let ?s1 = "s1\<lparr>b_normal_height := height (blk s1 r)\<rparr>"
  have e2: "evolves s1 ?s1" by (rule evolves_frame [OF ns(1)]) simp_all
  have low2: "low s2" using low(2) by (simp add: low_def st')
  have "r < nxt (mem ?s1)" using ns(2) by simp
  note e3 = evolves_process_block [OF b evolvesD(2) [OF e2] this low2]
  have e4: "evolves s2 st'" by (rule evolves_frame [OF evolvesD(2) [OF e3(1)]]) (simp_all add: st')
  show "evolves st st'"
    using evolves_trans [OF inv0 evolves_trans [OF e1 evolves_trans [OF e2 evolves_trans [OF e3(1) e4]]]] .
  show "ref_ok st' r" using e3(2) evolvesD(3) [OF e4] by (simp add: progress_def graph_grows_def)
  show "vheight st' = height (blk st' r)" using e3(4) by (simp add: st')
qed

section \<open>Systems that evolve\<close>

text \<open>
  The contract of a transition system with an invariant and an order its steps respect; what
  holds at the start then holds along every run.
\<close>

locale evolving_system =
  fixes init :: "'a \<Rightarrow> bool" and step :: "'a \<Rightarrow> 'a \<Rightarrow> bool" and inv :: "'a \<Rightarrow> bool"
    and ord :: "'a \<Rightarrow> 'a \<Rightarrow> bool"
  assumes init_inv: "init s \<Longrightarrow> inv s"
    and step_inv: "inv s \<Longrightarrow> step s t \<Longrightarrow> inv t"
    and step_ord: "inv s \<Longrightarrow> step s t \<Longrightarrow> ord s t"
    and ord_refl: "inv s \<Longrightarrow> ord s s"
    and ord_trans: "ord s t \<Longrightarrow> ord t u \<Longrightarrow> ord s u"
begin

lemma run_inv:
  assumes "step\<^sup>*\<^sup>* s t" "inv s"
  shows "inv t"
  using assms by (induction rule: rtranclp_induct) (auto intro: step_inv)

lemma run_ord:
  assumes "step\<^sup>*\<^sup>* s t" "inv s"
  shows "ord s t"
  using assms
proof (induction rule: rtranclp_induct)
  case base
  then show ?case by (rule ord_refl)
next
  case (step y z)
  then show ?case using run_inv [OF step.hyps(1) step.prems] step_ord ord_trans by blast
qed

lemma reach_inv: "init s \<Longrightarrow> step\<^sup>*\<^sup>* s t \<Longrightarrow> inv t"
  using init_inv run_inv by blast

lemma reach_ord: "init s \<Longrightarrow> step\<^sup>*\<^sup>* s t \<Longrightarrow> step\<^sup>*\<^sup>* t u \<Longrightarrow> ord t u"
  using reach_inv run_ord by blast

end

section \<open>The steps of the core\<close>

text \<open>
  The start: the constructor, the settings and replicas of the configuration, \<open>on_init\<close>. A step is one
  call, from the network layer or the pacemaker, of an operation of the class, with the
  precondition its comment states: it is handed blocks of the storage, and the parents of a new
  block are connected. Calls that end in an exception take no step. The network layer also
  stores fetched blocks, creates blocks of the pipeline and announces them, and edits
  certificates, queues, switches and clocks.
\<close>

definition boot ::
  "('p, 'k, 's, 'b) env \<Rightarrow> scheme \<Rightarrow> ReplicaID \<Rightarrow> 'p \<Rightarrow> u64 \<Rightarrow> u64 \<Rightarrow> timeval \<Rightarrow>
     32 word \<Rightarrow> 32 word \<Rightarrow> 32 word \<Rightarrow> (ReplicaID \<times> PeerId \<times> 'k) list \<Rightarrow> u32 \<Rightarrow> ('p, 'k, 's, 'b) core res" where
  "boot E sc i sk lat0 cnt0 t0 fo pl ab rs nf =
     bind (HotStuffCore_new E sc i sk lat0 cnt0 t0) (\<lambda>st.
       Inr (on_init E nf (fold (\<lambda>(rid, peer, pk). add_replica rid peer pk) rs
              (set_piped_latency pl ab (set_fanout fo st)))))"

inductive core_step :: "('p, 'k, 's, 'b) env \<Rightarrow> ('p, 'k, 's, 'b) core \<Rightarrow> ('p, 'k, 's, 'b) core \<Rightarrow> bool" for E where
  deliver: "on_deliver_blk r now st = Inr (b, st') \<Longrightarrow> r < nxt (mem st) \<Longrightarrow> core_step E st st'"
| proposal: "on_receive_proposal E prop st = Inr st' \<Longrightarrow> prop_blk prop < nxt (mem st) \<Longrightarrow> core_step E st st'"
| vote: "on_receive_vote E v st = Inr st' \<Longrightarrow> core_step E st st'"
| propose: "on_propose E cm ps ex t1 t2 t3 st = Inr (r, st') \<Longrightarrow>
    list_all (parent_ok (mem st) (b0 st)) ps \<Longrightarrow> core_step E st st'"
| process: "process_block E r adj now st = Inr (prop, st') \<Longrightarrow> r < nxt (mem st) \<Longrightarrow> core_step E st st'"
| fetch: "block_unserialize E (sch st) s = Inr (b, s') \<Longrightarrow> add_blk_move b (mem st) = (r, m') \<Longrightarrow>
    core_step E st (st\<lparr>mem := m'\<rparr>)"
| create: "new_blk E ps cm ex q st = Inr (r, st') \<Longrightarrow>
    list_all (parent_ok (mem st) (b0 st)) ps \<Longrightarrow> (case q of None \<Rightarrow> True | Some x \<Rightarrow> x < nxt (mem st)) \<Longrightarrow>
    core_step E st st'"
| certify: "core_step E st (set_blk r (\<lambda>b. b\<lparr>self_qc := q\<rparr>) st)"
| raise_hqc: "update_hqc r q st = Inr st' \<Longrightarrow> r < nxt (mem st) \<Longrightarrow> core_step E st st'"
| finish: "core_step E st (on_qc_finish r st)"
| wait: "async_qc_finish r st = (p, st') \<Longrightarrow> core_step E st st'"
| pipe: "\<forall>h \<in> set hs. h \<in> set (piped_queue st) \<or>
      (case find_blk h (mem st) of None \<Rightarrow> False | Some r \<Rightarrow> ref_ok st r) \<Longrightarrow>
    core_step E st (st\<lparr>piped_queue := hs\<rparr>)"
| ready: "core_step E st (st\<lparr>rdy_queue := hs\<rparr>)"
| configure: "core_step E st (st\<lparr>config := c\<rparr>)"
| switch: "core_step E st (st\<lparr>vote_disabled := f\<rparr>)"
| announce: "core_step E st (emit (OutBroadcast prop) st)"
| timing: "core_step E st (st\<lparr>last_block_time := t, piped_submitted := f, numberOfChildren := n\<rparr>)"

text \<open>Runs of fewer than \<open>2 ^ 32 - 1\<close> heights.\<close>

definition core_low_step :: "('p, 'k, 's, 'b) env \<Rightarrow> ('p, 'k, 's, 'b) core \<Rightarrow> ('p, 'k, 's, 'b) core \<Rightarrow> bool" where
  "core_low_step E st st' \<longleftrightarrow> core_step E st st' \<and> low st'"

definition booted :: "('p, 'k, 's, 'b) env \<Rightarrow> ('p, 'k, 's, 'b) core \<Rightarrow> bool" where
  "booted E st \<longleftrightarrow> (\<exists>sc i sk lat0 cnt0 t0 fo pl ab rs nf. boot E sc i sk lat0 cnt0 t0 fo pl ab rs nf = Inr st)"

definition reachable :: "('p, 'k, 's, 'b) env \<Rightarrow> ('p, 'k, 's, 'b) core \<Rightarrow> bool" where
  "reachable E st \<longleftrightarrow> (\<exists>st0. booted E st0 \<and> (core_low_step E)\<^sup>*\<^sup>* st0 st)"

lemma core_inv_piped:
  assumes "core_inv st" "\<forall>h \<in> set hs. h \<in> set (piped_queue st) \<or>
      (case find_blk h (mem st) of None \<Rightarrow> False | Some r \<Rightarrow> ref_ok st r)"
  shows "evolves st (st\<lparr>piped_queue := hs\<rparr>)"
proof -
  note i = core_invD [OF assms(1)]
  let ?st = "st\<lparr>piped_queue := hs\<rparr>"
  have r: "ref_ok ?st = ref_ok st" by (simp add: fun_eq_iff ref_ok_def)
  have f: "finalities ?st = finalities st" by (simp add: fun_eq_iff finalities_def)
  have "refs_ok ?st" using i(2) assms(2) by (auto simp: refs_ok_def r split: option.splits)
  moreover have "log_ok ?st" "vote_ok ?st" using i(3,4) by (simp_all add: log_ok_def vote_ok_def f r)
  ultimately have "core_inv ?st" using i(1) by (simp add: core_inv_def)
  with assms(1) show ?thesis by (simp add: evolves_def progress_def graph_grows_def r hqc_height_def split: option.split)
qed

lemma core_step_evolves:
  assumes "core_step E st st'" "core_inv st" "low st" "low st'"
  shows "evolves st st'"
  using assms
proof (cases rule: core_step.cases)
  case (create ps cm ex q r)
  from new_blk_steps [OF create(1) assms(2,3) create(2,3)] show ?thesis
    using evolves_mem_ext [OF assms(2)] by metis
next
  case (fetch s b s' r m')
  from core_inv_add_blk_move [OF assms(2) fetch(3) joinable_unserialized [OF fetch(2)]]
  show ?thesis unfolding fetch(1) using evolves_mem_ext [OF assms(2)] by simp
next
  case (wait r p)
  then show ?thesis using assms(2)
    by (auto simp: async_qc_finish_def evolves_refl split: if_splits intro: evolves_frame)
qed (use assms in \<open>auto intro: evolves_on_deliver_blk evolves_on_receive_proposal evolves_on_propose evolves_process_block
      evolves_quiet quiet_on_receive_vote quiet_update_hqc core_inv_piped evolves_frame dest: core_invD(1)\<close>)

section \<open>The initial state\<close>

lemma add_replicas_shape:
  "\<exists>c V. fold (\<lambda>(rid, peer, pk). add_replica rid peer pk) rs st =
     st\<lparr>config := c, mem := upd_blk (b0 st) (\<lambda>b. b\<lparr>voted := V\<rparr>) (mem st)\<rparr>"
proof (induction rs rule: rev_induct)
  case Nil
  show ?case
    by (rule exI [of _ "config st"], rule exI [of _ "voted (blk st (b0 st))"]) (simp add: upd_blk_def)
next
  case (snoc x rs)
  then obtain c V where IH: "fold (\<lambda>(rid, peer, pk). add_replica rid peer pk) rs st =
     st\<lparr>config := c, mem := upd_blk (b0 st) (\<lambda>b. b\<lparr>voted := V\<rparr>) (mem st)\<rparr>" by blast
  obtain rid peer pk where x: "x = (rid, peer, pk)" by (cases x)
  show ?case
    by (rule exI [of _ "add_replica_cfg rid \<lparr>ri_id = rid, ri_peer_id = peer, ri_pubkey = pk\<rparr> c"],
        rule exI [of _ "insert rid V"])
       (simp only: fold_append comp_def fold_simps IH x prod.case, simp add: add_replica_def upd_blk_def)
qed

lemma boot_shape:
  assumes "boot E sc i sk lat0 cnt0 t0 fo pl ab rs nf = Inr st"
  obtains g q where "Block_genesis E True 1 = Inr g" "b0 st = 0" "b_lock st = 0" "b_exec st = 0"
    "nxt (mem st) = 1" "blk_cache (mem st) = [(hash g, 0)]" "hqc st = Some (0, q)"
    "vheight st = 0" "piped_queue st = []" "outs st = []" "my_id st = i"
    "hash (blk st 0) = hash g" "parents (blk st 0) = []" "height (blk st 0) = 0" "delivered (blk st 0)"
    "decision (blk st 0) = 1" "qc_ref (blk st 0) = Some 0" "blk_qc (blk st 0) \<noteq> None"
proof -
  from assms obtain st0 where new: "HotStuffCore_new E sc i sk lat0 cnt0 t0 = Inr st0"
    and st: "st = on_init E nf (fold (\<lambda>(rid, peer, pk). add_replica rid peer pk) rs
      (set_piped_latency pl ab (set_fanout fo st0)))"
    by (auto simp: boot_def res_iff)
  let ?st1 = "set_piped_latency pl ab (set_fanout fo st0)"
  from new obtain g where g: "Block_genesis E True 1 = Inr g"
    by (auto simp: HotStuffCore_new_def res_iff)
  obtain c V where sh: "fold (\<lambda>(rid, peer, pk). add_replica rid peer pk) rs ?st1 =
     ?st1\<lparr>config := c, mem := upd_blk (b0 ?st1) (\<lambda>b. b\<lparr>voted := V\<rparr>) (mem ?st1)\<rparr>"
    using add_replicas_shape by blast
  from g have gf: "parents g = []" "height g = 0" "delivered g" "decision g = 1"
    by (auto simp: Block_genesis_def Block_default_def Let_def res_iff)
  show ?thesis
    by (rule that [OF g]; unfold st sh)
       (use new g gf in \<open>auto simp: set_piped_latency_def set_fanout_def on_init_def HotStuffCore_new_def alloc_blk_def add_blk_def
          umap_insert_def Let_def\<close>)
qed

lemma boot_inv:
  assumes "boot E sc i sk lat0 cnt0 t0 fo pl ab rs nf = Inr st"
  shows "core_inv st" "low st"
proof -
  obtain g q where s: "Block_genesis E True 1 = Inr g" "b0 st = 0" "b_lock st = 0" "b_exec st = 0"
    "nxt (mem st) = 1" "blk_cache (mem st) = [(hash g, 0)]" "hqc st = Some (0, q)"
    "vheight st = 0" "piped_queue st = []" "outs st = []" "my_id st = i"
    "hash (blk st 0) = hash g" "parents (blk st 0) = []" "height (blk st 0) = 0" "delivered (blk st 0)"
    "decision (blk st 0) = 1" "qc_ref (blk st 0) = Some 0" "blk_qc (blk st 0) \<noteq> None"
    using assms by (rule boot_shape)
  have r: "rooted (mem st) 0 0" by (simp add: rooted_def)
  have "blk_ok (mem st) 0 0" using s r by (simp add: blk_ok_def)
  then have "heap_ok (mem st) (b0 st)"
    using s by (auto simp: heap_ok_def find_blk_def split: if_splits)
  moreover have "refs_ok st" using s r by (simp add: refs_ok_def ref_ok_def)
  moreover have "log_ok st" "vote_ok st" using s by (auto simp: log_ok_def vote_ok_def)
  ultimately show "core_inv st" by (simp add: core_inv_def)
  show "low st" using s by (simp add: low_def)
qed

interpretation core_sys: evolving_system "booted E" "core_low_step E" "\<lambda>st. core_inv st \<and> low st" evolves for E
proof unfold_locales
  show "booted E s \<Longrightarrow> core_inv s \<and> low s" for s
    using boot_inv by (auto simp: booted_def)
  show "core_inv s \<and> low s \<Longrightarrow> core_low_step E s t \<Longrightarrow> core_inv t \<and> low t" for s t
    unfolding core_low_step_def by (blast dest: core_step_evolves evolvesD(2))
  show "core_inv s \<and> low s \<Longrightarrow> core_low_step E s t \<Longrightarrow> evolves s t" for s t
    using core_step_evolves by (auto simp: core_low_step_def)
qed (auto intro: evolves_refl evolves_trans)

lemma reachable_inv: "reachable E st \<Longrightarrow> core_inv st" "reachable E st \<Longrightarrow> low st"
  using core_sys.reach_inv by (auto simp: reachable_def)

lemma reachable_evolves: "reachable E st \<Longrightarrow> (core_low_step E)\<^sup>*\<^sup>* st st' \<Longrightarrow> evolves st st'"
  using core_sys.reach_ord unfolding reachable_def by blast

end
