(* ===== verification/Hs_Ballots.thy ===== *)
theory Hs_Ballots
  imports Hs_Runs
begin

text \<open>
  What one call of \<open>HotStuffCore\<close> does to the locked block, to the last executed block and to
  the blocks the replica has put its signature under: the facts about
  \<^verbatim>\<open>src/consensus.cpp\<close> from which agreement between replicas is derived.
\<close>

section \<open>Ballots\<close>

text \<open>A replica signs a block when it sends a vote for it (\<open>do_vote\<close>) and when it proposes
  it (the vote of \<open>process_block\<close> for its own block).\<close>

fun ballots :: "'s out_event list \<Rightarrow> blkref list" where
  "ballots [] = []"
| "ballots (OutVote p _ # es) = prop_blk p # ballots es"
| "ballots (OutPropose p # es) = prop_blk p # ballots es"
| "ballots (_ # es) = ballots es"

fun proposals :: "'s out_event list \<Rightarrow> blkref list" where
  "proposals [] = []"
| "proposals (OutPropose p # es) = prop_blk p # proposals es"
| "proposals (_ # es) = proposals es"

lemma ballots_append [simp]: "ballots (xs @ ys) = ballots xs @ ballots ys"
  by (induction xs rule: ballots.induct) auto

lemma proposals_append [simp]: "proposals (xs @ ys) = proposals xs @ proposals ys"
  by (induction xs rule: proposals.induct) auto

lemma ballots_decisions [simp]:
  "ballots (concat (map (\<lambda>r. OutConsensus r # map OutDecide (f r)) xs)) = []"
  "proposals (concat (map (\<lambda>r. OutConsensus r # map OutDecide (f r)) xs)) = []"
proof -
  have "ballots (map OutDecide fs) = []" "proposals (map OutDecide fs) = []" for fs by (induction fs) auto
  then show "ballots (concat (map (\<lambda>r. OutConsensus r # map OutDecide (f r)) xs)) = []"
    "proposals (concat (map (\<lambda>r. OutConsensus r # map OutDecide (f r)) xs)) = []" by (induction xs) auto
qed

section \<open>The steps that neither lock, execute nor sign\<close>

definition idle :: "('p, 'k, 's, 'b) core \<Rightarrow> ('p, 'k, 's, 'b) core \<Rightarrow> bool" where
  "idle st st' \<longleftrightarrow> b_lock st' = b_lock st \<and> b_exec st' = b_exec st \<and>
     ballots (outs st') = ballots (outs st) \<and> proposals (outs st') = proposals (outs st)"

lemma idle_refl [simp]: "idle st st"
  by (simp add: idle_def)

lemma idle_trans: "idle st st' \<Longrightarrow> idle st' st'' \<Longrightarrow> idle st st''"
  by (simp add: idle_def)

lemma idle_on_qc_finish [simp]: "idle st (on_qc_finish r st)"
  by (simp add: idle_def on_qc_finish_def)

lemma idle_update_hqc: "update_hqc r q st = Inr st' \<Longrightarrow> idle st st'"
  by (auto simp: idle_def update_hqc_def on_hqc_update_def res_iff split: if_splits)

lemma idle_set_blk [simp]: "idle st (set_blk r f st)"
  by (simp add: idle_def)

lemma idle_count_own_vote:
  assumes "count_own_vote E r v pc st = Inr st'"
  shows "idle st st'"
  using assms
  by (auto simp: count_own_vote_def Let_def res_iff split: if_splits
        intro: idle_trans [OF idle_set_blk idle_trans [OF idle_update_hqc idle_on_qc_finish]])

lemma idle_on_receive_vote:
  assumes "on_receive_vote E v st = Inr st'"
  shows "idle st st'"
proof -
  let ?s = "\<lambda>r. set_blk r (\<lambda>b. b\<lparr>voted := insert (voter v) (voted b)\<rparr>) st"
  from assms obtain r pc where "get_delivered_blk (v_blk_hash v) st = Inr r" "v_cert v = Some pc"
    by (auto simp: on_receive_vote_def bind_Inr_iff split: option.split_asm)
  with assms have "st' = st \<or> st' = ?s r \<or> count_own_vote E r (voter v) pc (?s r) = Inr st'"
    by (auto simp: on_receive_vote_def Let_def split: if_split_asm)
  then show ?thesis
    using idle_trans [OF idle_set_blk idle_count_own_vote [of E r "voter v" pc "?s r" st']] by auto
qed

lemma idle_record_latency [simp]: "idle st (record_latency r now st)"
  by (simp add: record_latency_def idle_def Let_def split: option.split)

lemma idle_on_deliver_blk:
  assumes "on_deliver_blk r now st = Inr (b, st')"
  shows "idle st st'"
proof (cases "delivered (blk st r)")
  case False
  with assms obtain f t where "st' = record_latency r now (set_blk r f st\<lparr>tails := t\<rparr>)"
    by (auto simp: on_deliver_blk_def Let_def bind_Inr_iff)
  moreover have "idle st (set_blk r f st\<lparr>tails := t\<rparr>)" by (simp add: idle_def)
  ultimately show ?thesis using idle_trans [OF _ idle_record_latency] by blast
qed (use assms in \<open>simp add: on_deliver_blk_def\<close>)

lemma idle_new_blk:
  assumes "new_blk E ps cm ex q st = Inr (r, st')"
  shows "idle st st'"
  using assms by (auto simp: new_blk_def idle_def res_iff Let_def case_prod_beta)

lemma idle_ensure_self_qc [simp]: "idle st (ensure_self_qc E r st)"
  by (simp add: ensure_self_qc_def)

section \<open>What update does to the lock\<close>

text \<open>A chain of three certified blocks above the genesis block.\<close>

definition chain3 :: "('p, 'k, 's, 'b) core \<Rightarrow> blkref \<Rightarrow> bool" where
  "chain3 st b \<longleftrightarrow> (\<exists>n b2 b1. n < nxt (mem st) \<and> qc_ref (blk st n) = Some b2 \<and> qc_ref (blk st b2) = Some b1 \<and>
     qc_ref (blk st b1) = Some b \<and> is_path (heap (mem st)) b [b1, b2] b2 \<and> b2 \<noteq> b0 st \<and> b1 \<noteq> b0 st \<and> b \<noteq> b0 st)"

text \<open>The lock is at least as high as the block two certificates below \<open>r\<close>, unless
  these blocks are already executed.\<close>

definition lock_covers :: "('p, 'k, 's, 'b) core \<Rightarrow> blkref \<Rightarrow> bool" where
  "lock_covers st r \<longleftrightarrow> (\<forall>b2 b1. qc_ref (blk st r) = Some b2 \<longrightarrow> qc_ref (blk st b2) = Some b1 \<longrightarrow>
     decision (blk st b2) = 0 \<longrightarrow> decision (blk st b1) = 0 \<longrightarrow>
     height (blk st b1) \<le> height (blk st (b_lock st)))"

definition lock_above_exec :: "('p, 'k, 's, 'b) core \<Rightarrow> bool" where
  "lock_above_exec st \<longleftrightarrow> height (blk st (b_exec st)) \<le> height (blk st (b_lock st))"

definition lock_moves :: "('p, 'k, 's, 'b) core \<Rightarrow> ('p, 'k, 's, 'b) core \<Rightarrow> bool" where
  "lock_moves st st' \<longleftrightarrow>
     (b_lock st' = b_lock st \<or> (\<exists>x < nxt (mem st'). qc_ref (blk st' x) = Some (b_lock st'))) \<and>
     (b_exec st' = b_exec st \<or> chain3 st' (b_exec st')) \<and>
     (lock_above_exec st \<longrightarrow> lock_above_exec st')"

lemma update_to_lock:
  assumes u: "update n st = Inr st'" and inv: "core_inv st" and n: "n < nxt (mem st)"
    and b2: "qc_ref (blk st n) = Some b2" "decision (blk st b2) = 0"
    and b1: "qc_ref (blk st b2) = Some b1" "decision (blk st b1) = 0"
  obtains s1 where "quiet st s1" "idle st s1" "commit_if_chain b2 b1 (raise_lock b1 s1) = Inr st'"
    "quiet st (raise_lock b1 s1)" "b2 < nxt (mem st)" "b1 < nxt (mem st)"
proof -
  have b2n: "b2 < nxt (mem st)"
    using blk_ok_qc_ref(1) [OF heap_okD(5) [OF core_invD(1) [OF inv] n] b2(1)] .
  obtain s1 where s1: "update_hqc b2 (blk_qc (blk st n)) st = Inr s1" and q1: "quiet st s1"
    using update_hqc_result [OF core_invD(8) [OF inv] core_invD(9) [OF inv n] b2n] .
  note m1 = mem_eqD [OF quietD(1) [OF q1]] mem_eq_decision [OF quietD(1) [OF q1]]
  have b1n: "b1 < nxt (mem st)" using undecided_ref_ok(2) [OF inv b2n b2(2) b1(1)] .
  have "commit_if_chain b2 b1 (raise_lock b1 s1) = Inr st'"
    using u b1 b2 s1 m1 by (simp add: update_stages)
  moreover have "quiet st (raise_lock b1 s1)" using quiet_trans [OF q1 quiet_raise_lock] b1n m1(1) by simp
  ultimately show ?thesis using that q1 idle_update_hqc [OF s1] b2n b1n by blast
qed

lemma raise_lock_lock: "b_lock (raise_lock r st) = (if height (blk st (b_lock st)) < height (blk st r) then r else b_lock st)"
  by (simp add: raise_lock_def)

lemma three_chain_chain3:
  assumes "three_chain (mem st) n b" "core_inv st" "n < nxt (mem st)" "graph_eq (mem st) (mem st')" "b0 st' = b0 st"
  shows "chain3 st' b"
proof -
  have "decision (blk st (b0 st)) \<noteq> 0"
    using core_invD(1,3) [OF assms(2)] by (simp add: log_ok_def heap_okD)
  with assms(1) have "chain3 st b" using assms(3) by (auto simp: three_chain_def chain3_def split: option.splits)
  then show ?thesis using assms(4,5) by (auto simp: chain3_def graph_eqD)
qed

lemma update_lock:
  assumes u: "update n st = Inr st'" and inv: "core_inv st" and n: "n < nxt (mem st)"
  shows "lock_moves st st'" "lock_covers st' n"
    "ballots (outs st') = ballots (outs st)" "proposals (outs st') = proposals (outs st)"
proof -
  have "lock_moves st st' \<and> lock_covers st' n \<and> ballots (outs st') = ballots (outs st) \<and>
    proposals (outs st') = proposals (outs st)"
  proof (cases "\<exists>b2 b1. qc_ref (blk st n) = Some b2 \<and> decision (blk st b2) = 0 \<and>
      qc_ref (blk st b2) = Some b1 \<and> decision (blk st b1) = 0")
    case False
    have "idle st st' \<and> quiet st st'"
    proof (cases "\<exists>b2. qc_ref (blk st n) = Some b2 \<and> decision (blk st b2) = 0")
      case no: False
      then show ?thesis using u by (auto simp: update_stages split: option.splits)
    next
      case True
      then obtain b2 where b2: "qc_ref (blk st n) = Some b2" "decision (blk st b2) = 0" by auto
      have b2n: "b2 < nxt (mem st)"
        using blk_ok_qc_ref(1) [OF heap_okD(5) [OF core_invD(1) [OF inv] n] b2(1)] .
      obtain s1 where s1: "update_hqc b2 (blk_qc (blk st n)) st = Inr s1" and q1: "quiet st s1"
        using update_hqc_result [OF core_invD(8) [OF inv] core_invD(9) [OF inv n] b2n] .
      have "st' = s1" using u b2 s1 False update_hqc_mem [OF s1] by (auto simp: update_stages split: option.splits if_splits)
      then show ?thesis using idle_update_hqc [OF s1] q1 by simp
    qed
    then have i: "idle st st'" and q: "quiet st st'" by auto
    note m = mem_eqD [OF quietD(1) [OF q]] mem_eq_decision [OF quietD(1) [OF q]]
    show ?thesis using i False
      by (auto simp: lock_moves_def idle_def lock_above_exec_def lock_covers_def m)
  next
    case True
    then obtain b2 b1 where b: "qc_ref (blk st n) = Some b2" "decision (blk st b2) = 0"
      "qc_ref (blk st b2) = Some b1" "decision (blk st b1) = 0" by auto
    obtain s1 where s1: "quiet st s1" "idle st s1" "commit_if_chain b2 b1 (raise_lock b1 s1) = Inr st'"
      "quiet st (raise_lock b1 s1)" "b2 < nxt (mem st)" "b1 < nxt (mem st)"
      using update_to_lock [OF u inv n b] .
    let ?s = "raise_lock b1 s1"
    note m1 = mem_eqD [OF quietD(1) [OF s1(1)]] mem_eq_decision [OF quietD(1) [OF s1(1)]]
    have lk: "b_lock ?s = (if height (blk st (b_lock st)) < height (blk st b1) then b1 else b_lock st)"
      using s1(2) by (simp add: raise_lock_lock m1 idle_def)
    have bs: "ballots (outs ?s) = ballots (outs st)" "proposals (outs ?s) = proposals (outs st)" "b_exec ?s = b_exec st"
      using s1(2) by (simp_all add: raise_lock_def idle_def)
    note inv' = core_inv_quiet [OF inv s1(4)]
    have "commit_if_chain b2 b1 ?s = Inr ?s \<and> (\<nexists>b. three_chain (mem ?s) n b) \<or>
      (\<exists>b. three_chain (mem ?s) n b \<and> ref_ok ?s b \<and> commit_if_chain b2 b1 ?s = commit b ?s)"
      by (rule commit_if_chain_result [OF inv']) (use b s1(5) in \<open>simp_all add: m1\<close>)
    then consider "st' = ?s" | c where "three_chain (mem ?s) n c" "ref_ok ?s c" "commit c ?s = Inr st'"
      using s1(3) by auto
    then show ?thesis
    proof cases
      case 1
      then show ?thesis using b s1(5) n
        by (auto simp: lock_moves_def lock_covers_def lock_above_exec_def lk bs m1 not_less)
    next
      case (2 c)
      have n': "n < nxt (mem ?s)" using n by (simp add: m1)
      have "b_exec ?s < nxt (mem ?s)" "c < nxt (mem ?s)" using core_invD(6) [OF inv'] 2(2) by (simp_all add: ref_ok_def)
      from commit_cases [OF 2(3) core_invD(1) [OF inv'] this(2,1)]
      obtain xs where st': "st' = execute_path xs c ?s" by blast
      have g: "graph_eq (mem ?s) (mem st')" unfolding st' by (rule execute_path_graph)
      note gd = graph_eqD [OF g]
      have e: "b_exec st' = c" "b_lock st' = b_lock ?s" "b0 st' = b0 ?s" by (simp_all add: st')
      have "chain3 st' c" using three_chain_chain3 [OF 2(1) inv' n' g e(3)] .
      moreover have "parents (blk st b1) = c # tl (parents (blk st b1))"
        using 2(1) b by (auto simp: three_chain_def m1 split: option.splits)
      then have "height (blk st c) < height (blk st b1)"
        using blk_ok_parent(2) [OF heap_okD(5) [OF core_invD(1) [OF inv] s1(6)]] by blast
      ultimately show ?thesis using b s1(5)
        by (auto simp: lock_moves_def lock_covers_def lock_above_exec_def e lk gd m1 bs st' execute_path_def not_less)
    qed
  qed
  then show "lock_moves st st'" "lock_covers st' n"
    "ballots (outs st') = ballots (outs st)" "proposals (outs st') = proposals (outs st)" by auto
qed

section \<open>One call\<close>

lemma lock_above_exec_idle:
  assumes "idle st st'" "evolves st st'"
  shows "lock_above_exec st' = lock_above_exec st"
proof -
  note i = core_invD [OF evolvesD(1) [OF assms(2)]]
  have "height (blk st' (b_lock st)) = height (blk st (b_lock st))" "height (blk st' (b_exec st)) = height (blk st (b_exec st))"
    using i(5,6) evolvesD(3) [OF assms(2)] by (simp_all add: progress_def graph_grows_def)
  then show ?thesis using assms(1) by (simp add: lock_above_exec_def idle_def)
qed

lemma lock_moves_idle: "idle st st' \<Longrightarrow> evolves st st' \<Longrightarrow> lock_moves st st'"
  using lock_above_exec_idle by (auto simp: lock_moves_def idle_def)

lemma lock_moves_before: "idle st s \<Longrightarrow> evolves st s \<Longrightarrow> lock_moves s st' \<Longrightarrow> lock_moves st st'"
  using lock_above_exec_idle by (auto simp: lock_moves_def idle_def)

lemma lock_moves_after:
  assumes "lock_moves st s" "idle s st'" "mem_eq (mem s) (mem st')" "b0 st' = b0 s"
  shows "lock_moves st st'"
  using assms by (auto simp: lock_moves_def idle_def lock_above_exec_def chain3_def mem_eqD)

lemma lock_covers_after:
  assumes "lock_covers s r" "idle s st'" "mem_eq (mem s) (mem st')"
  shows "lock_covers st' r"
  using assms by (auto simp: lock_covers_def idle_def mem_eqD mem_eq_decision)

text \<open>The voting rule: the block is certified above the lock or descends from it.\<close>

definition lock_allows :: "('p, 'k, 's, 'b) core \<Rightarrow> blkref \<Rightarrow> bool" where
  "lock_allows st r \<longleftrightarrow>
     (\<exists>q. qc_ref (blk st r) = Some q \<and> height (blk st (b_lock st)) < height (blk st q)) \<or>
     (\<exists>xs. is_path (heap (mem st)) (b_lock st) xs r)"

text \<open>A call signs at most one block. A vote is above the heights voted for so far, raises
  \<open>vheight\<close> and respects the lock; the signature under a block of one's own is in \<open>proposals\<close>.\<close>

definition signs :: "('p, 'k, 's, 'b) core \<Rightarrow> ('p, 'k, 's, 'b) core \<Rightarrow> blkref \<Rightarrow> bool" where
  "signs st st' r \<longleftrightarrow> ballots (outs st') = ballots (outs st) @ [r] \<and> ref_ok st' r \<and> lock_covers st' r \<and>
     (proposals (outs st') = proposals (outs st) @ [r] \<or>
      proposals (outs st') = proposals (outs st) \<and> vheight st < height (blk st' r) \<and>
        height (blk st' r) \<le> vheight st' \<and> lock_allows st' r)"

definition call_effect :: "('p, 'k, 's, 'b) core \<Rightarrow> ('p, 'k, 's, 'b) core \<Rightarrow> bool" where
  "call_effect st st' \<longleftrightarrow> lock_moves st st' \<and>
     (ballots (outs st') = ballots (outs st) \<and> proposals (outs st') = proposals (outs st) \<or> (\<exists>r. signs st st' r))"

lemma call_effect_idle: "idle st st' \<Longrightarrow> evolves st st' \<Longrightarrow> call_effect st st'"
  using lock_moves_idle by (auto simp: call_effect_def idle_def)

lemma call_effect_before: "idle st s \<Longrightarrow> evolves st s \<Longrightarrow> vheight st = vheight s \<Longrightarrow> call_effect s st' \<Longrightarrow> call_effect st st'"
  using lock_moves_before by (auto simp: call_effect_def idle_def signs_def)

lemma call_effect_on_receive_proposal:
  assumes "on_receive_proposal E prop st = Inr st'" "core_inv st" "prop_blk prop < nxt (mem st)"
  shows "call_effect st st'"
  using assms
proof (rule on_receive_proposal_steps)
  fix st1 op
  assume u: "update (prop_blk prop) st = Inr st1" and e: "evolves st st1"
    and o: "opinion (prop_blk prop) st1 = Inr op" and st': "st' = answer_proposal E prop op st1"
    and r: "prop_blk prop < nxt (mem st1)"
  note ul = update_lock [OF u assms(2,3)] and fr = update_frame [OF u assms(2,3)]
  have f: "b_lock st' = b_lock st1" "b_exec st' = b_exec st1" "b0 st' = b0 st1" "mem st' = mem st1"
    "ballots (outs st') = ballots (outs st1) @ (if op \<and> \<not> vote_disabled st1 then [prop_blk prop] else [])"
    "proposals (outs st') = proposals (outs st1)"
    by (simp_all add: st' answer_proposal_def on_qc_finish_def Let_def split: option.split)
  have "lock_moves st st'"
    using ul(1) by (auto simp: lock_moves_def f lock_above_exec_def chain3_def)
  moreover have "signs st st' (prop_blk prop)" if op "\<not> vote_disabled st1"
  proof -
    have rule: "vheight st1 < height (blk st1 (prop_blk prop))" "lock_allows st' (prop_blk prop)"
      using opinion_result [OF evolvesD(2) [OF e] r] o that(1) by (simp_all add: lock_allows_def f)
    have "ref_ok st1 (prop_blk prop)" using ref_ok_high [OF core_invD(1) [OF evolvesD(2) [OF e]] r rule(1)] .
    then show ?thesis using that rule ul(2-4) fr(2)
      by (simp add: signs_def f lock_covers_def ref_ok_def) (simp add: st')
  qed
  ultimately show ?thesis using ul(3,4) by (auto simp: call_effect_def f)
qed

lemma call_effect_process_block:
  assumes p: "process_block E r adj now st = Inr (prop, st')" and inv: "core_inv st" and r: "r < nxt (mem st)"
    and low: "low st'"
  shows "call_effect st st'"
proof -
  let ?s0 = "ensure_self_qc E r st"
  from p obtain b s1 s2 s3 s4 where d: "on_deliver_blk r now ?s0 = Inr (b, s1)" and u: "update r s1 = Inr s2"
    and a: "adjust_height r adj s2 = Inr s3" and v: "on_receive_vote E (own_vote E s3 (hash (blk st r))) s3 = Inr s4"
    and pr: "prop = \<lparr>proposer = my_id s2, prop_blk = r\<rparr>" and st': "st' = emit (OutPropose prop) s4"
    by (auto simp: process_block_stages res_iff)
  have "quiet st ?s0" by (simp add: ensure_self_qc_def)
  note e0 = evolves_quiet [OF inv this]
  have r0: "r < nxt (mem ?s0)" using e0 r by (simp add: evolves_def progress_def graph_grows_def)
  have m3: "mem s3 = mem s2" "idle s2 s3" "b0 s3 = b0 s2" using a by (auto simp: adjust_height_def idle_def split: if_splits)
  have g: "graph_eq (mem s1) (mem st')"
    using graph_eq_trans [OF graph_eq_update [OF u]] graph_eq_on_receive_vote [OF v] by (simp add: st' m3)
  then have "low s1" using low low_graph_eq by blast
  note e1 = evolves_on_deliver_blk [OF d evolvesD(2) [OF e0] r0 this]
  have rn: "r < nxt (mem s1)" using e1(2) by (simp add: ref_ok_def)
  note ul = update_lock [OF u evolvesD(2) [OF e1(1)] rn]
  have i3: "core_inv s3" using evolvesD(2) evolves_adjust_height(1) [OF a] core_inv_update [OF u evolvesD(2) [OF e1(1)] rn] by blast
  have q4: "quiet s3 s4" using quiet_on_receive_vote [OF v core_invD(1) [OF i3]] .
  have i24: "idle s2 s4" using idle_trans [OF m3(2) idle_on_receive_vote [OF v]] .
  have m24: "mem_eq (mem s2) (mem s4)" "b0 s4 = b0 s2" using quietD(1,2) [OF q4] m3 by simp_all
  note i01 = idle_trans [OF idle_ensure_self_qc [of st E r] idle_on_deliver_blk [OF d]]
  have "lock_moves st s4"
    using lock_moves_before [OF i01 evolves_trans [OF e0 e1(1)] lock_moves_after [OF ul(1) i24 m24]] .
  moreover have "lock_covers s4 r" using lock_covers_after [OF ul(2) i24 m24(1)] .
  moreover have "ref_ok st' r" using evolves_process_block(2) [OF p inv r low] .
  ultimately show ?thesis
    using i24 i01 ul(3,4)
    by (auto simp: call_effect_def signs_def lock_moves_def lock_covers_def lock_above_exec_def chain3_def idle_def st' pr)
qed

lemma call_effect_on_propose:
  assumes p: "on_propose E cm ps ex t1 t2 t3 st = Inr (r, st')" and inv: "core_inv st" and low: "low st" "low st'"
    and ps: "list_all (parent_ok (mem st) (b0 st)) ps"
  shows "call_effect st st'"
proof -
  let ?s0 = "st\<lparr>tails := tails st - set ps\<rparr>"
  have "ps \<noteq> []" using p by (auto simp: on_propose_def)
  with p obtain nps s1 prp s2 where nps: "piped_parents ps ?s0 = Inr nps"
    and n: "new_blk E nps cm ex (map_option fst (hqc ?s0)) ?s0 = Inr (r, s1)"
    and b: "process_block E r True t2 (s1\<lparr>b_normal_height := height (blk s1 r)\<rparr>) = Inr (prp, s2)"
    and st': "st' = finish_propose r prp t1 t3 s2"
    by (cases ps) (auto simp: on_propose_stages bind_Inr_iff)
  have inv0: "evolves st ?s0" by (rule evolves_frame [OF inv]) simp_all
  have "list_all (parent_ok (mem st) (b0 st)) nps"
    using nps ps piped_parent_ok [OF inv last_in_set] by (auto simp: piped_parents_def res_iff split: if_splits)
  moreover have "case map_option fst (hqc ?s0) of None \<Rightarrow> True | Some x \<Rightarrow> x < nxt (mem ?s0)"
    using core_invD(7) [OF inv] by (auto simp: ref_ok_def split: option.split)
  ultimately have ns: "core_inv s1" "r < nxt (mem s1)" "mem_extends (b0 st) (mem st) (mem s1)" "s1 = ?s0\<lparr>mem := mem s1\<rparr>"
    using new_blk_steps [OF n evolvesD(2) [OF inv0] _ _ \<open>case _ of None \<Rightarrow> _ | Some x \<Rightarrow> _ x\<close>] low(1)
    by (simp_all add: low_def)
  have e1: "evolves ?s0 s1"
    using evolves_mem_ext [OF evolvesD(2) [OF inv0], of "mem s1"] ns by simp
  let ?s1 = "s1\<lparr>b_normal_height := height (blk s1 r)\<rparr>"
  have e2: "evolves s1 ?s1" by (rule evolves_frame [OF ns(1)]) simp_all
  have low2: "low s2" using low(2) by (simp add: low_def st')
  have "call_effect ?s1 s2" by (rule call_effect_process_block [OF b evolvesD(2) [OF e2] _ low2]) (simp add: ns(2))
  moreover have "idle st ?s1" using idle_new_blk [OF n] by (simp add: idle_def)
  moreover have "vheight ?s1 = vheight st" by (subst ns(4)) simp
  ultimately have "call_effect st s2"
    using call_effect_before [OF _ evolves_trans [OF inv0 evolves_trans [OF e1 e2]]] by simp
  then show ?thesis
    by (auto simp: st' call_effect_def signs_def lock_moves_def lock_covers_def lock_above_exec_def lock_allows_def chain3_def ref_ok_def)
qed

lemma core_step_effect:
  assumes "core_step E st st'" "core_inv st" "low st" "low st'"
  shows "call_effect st st'"
proof -
  note ev = core_step_evolves [OF assms]
  show ?thesis using assms(1)
  proof (cases rule: core_step.cases)
    case (deliver r now b)
    then show ?thesis using call_effect_idle [OF idle_on_deliver_blk ev] by blast
  next
    case (proposal pr)
    then show ?thesis using call_effect_on_receive_proposal assms(2) by blast
  next
    case (vote v)
    then show ?thesis using call_effect_idle [OF idle_on_receive_vote ev] by blast
  next
    case (propose cm ps ex t1 t2 t3 r)
    then show ?thesis using call_effect_on_propose assms(2-4) by blast
  next
    case (process r adj now pr)
    then show ?thesis using call_effect_process_block assms(2,4) by blast
  next
    case (create ps cm ex q r)
    then show ?thesis using call_effect_idle [OF idle_new_blk ev] by blast
  next
    case (raise_hqc r q)
    then show ?thesis using call_effect_idle [OF idle_update_hqc ev] by blast
  next
    case (wait r p)
    then have "idle st st'" by (auto simp: async_qc_finish_def idle_def split: if_splits)
    then show ?thesis using call_effect_idle ev by blast
  qed (use call_effect_idle [OF _ ev] in \<open>simp_all add: idle_def on_qc_finish_def\<close>)
qed

end
