(* ===== verification/Hs_Net_Runs.thy ===== *)
theory Hs_Net_Runs
  imports Hs_Base Hs_Ballots
begin

text \<open>
  Runs of the network layer. A step of \<open>HotStuffBase\<close> is a message, a timer, a batch of
  commands or a lambda whose promises are resolved. Each is a run of the core
  (\<open>core_low_step\<close>), and what is handed to the application is the core's log.
\<close>

section \<open>Runs of the core inside a handler\<close>

text \<open>Steps that leave the connected blocks, the votes, the lock and the log alone; at most, they
  store blocks that are not connected yet.\<close>

definition still :: "('p, 'k, 's, 'b) core \<Rightarrow> ('p, 'k, 's, 'b) core \<Rightarrow> bool" where
  "still st st' \<longleftrightarrow> idle st st' \<and> vheight st' = vheight st \<and> b0 st' = b0 st \<and> nxt (mem st) \<le> nxt (mem st') \<and>
     (\<forall>r < nxt (mem st). blk_view (blk st' r) = blk_view (blk st r)) \<and>
     (\<forall>r. nxt (mem st) \<le> r \<longrightarrow> r < nxt (mem st') \<longrightarrow> parents (blk st' r) = [] \<and> qc_ref (blk st' r) = None)"

text \<open>Such steps do not decide whether the heights stay in range. A handler makes one call of the core
  that does more, at most, and such steps before and after.\<close>

definition tame :: "('p, 'k, 's, 'b) env \<Rightarrow> ('p, 'k, 's, 'b) core \<Rightarrow> ('p, 'k, 's, 'b) core \<Rightarrow> bool" where
  "tame E st st' \<longleftrightarrow> core_step E st st' \<and> low st' = low st \<and> still st st'"

definition core_run :: "('p, 'k, 's, 'b) env \<Rightarrow> ('p, 'k, 's, 'b) core \<Rightarrow> ('p, 'k, 's, 'b) core \<Rightarrow> bool" where
  "core_run E st st' \<longleftrightarrow> (\<exists>s1 s2. (tame E)\<^sup>*\<^sup>* st s1 \<and> (s2 = s1 \<or> core_step E s1 s2) \<and> (tame E)\<^sup>*\<^sup>* s2 st')"

lemma tame_run:
  assumes "(tame E)\<^sup>*\<^sup>* st st'"
  shows "low st' = low st" "low st \<Longrightarrow> (core_low_step E)\<^sup>*\<^sup>* st st'"
proof -
  have "low st' = low st \<and> (low st \<longrightarrow> (core_low_step E)\<^sup>*\<^sup>* st st')"
    using assms
    by (induction rule: rtranclp_induct) (auto simp: tame_def core_low_step_def intro: rtranclp.rtrancl_into_rtrancl)
  then show "low st' = low st" "low st \<Longrightarrow> (core_low_step E)\<^sup>*\<^sup>* st st'" by auto
qed

lemma core_run_low:
  assumes "core_run E st st'" "low st" "low st'"
  shows "(core_low_step E)\<^sup>*\<^sup>* st st'"
proof -
  obtain s1 s2 where s: "(tame E)\<^sup>*\<^sup>* st s1" "s2 = s1 \<or> core_step E s1 s2" "(tame E)\<^sup>*\<^sup>* s2 st'"
    using assms(1) unfolding core_run_def by blast
  have l: "low s2" using tame_run(1) [OF s(3)] assms(3) by simp
  have "(core_low_step E)\<^sup>*\<^sup>* s1 s2" using s(2) l by (auto simp: core_low_step_def)
  then show ?thesis using tame_run(2) [OF s(1) assms(2)] tame_run(2) [OF s(3) l] by (meson rtranclp_trans)
qed

lemma core_run_tame: "(tame E)\<^sup>*\<^sup>* st st' \<Longrightarrow> core_run E st st'"
  unfolding core_run_def by blast

lemma core_run_refl [simp]: "core_run E st st"
  by (simp add: core_run_tame)

lemma core_run_step: "core_step E st st' \<Longrightarrow> core_run E st st'"
  unfolding core_run_def by blast

lemma core_run_post: "core_run E st st1 \<Longrightarrow> (tame E)\<^sup>*\<^sup>* st1 st2 \<Longrightarrow> core_run E st st2"
  unfolding core_run_def by (elim exE conjE, intro exI conjI) (assumption, assumption, erule (1) rtranclp_trans)

lemma core_run_pre: "(tame E)\<^sup>*\<^sup>* st st1 \<Longrightarrow> core_run E st1 st2 \<Longrightarrow> core_run E st st2"
  unfolding core_run_def by (elim exE conjE, intro exI conjI) (erule (1) rtranclp_trans, assumption+)

lemma tame_graph:
  assumes "core_step E st st'" "graph_eq (mem st) (mem st')" "idle st st'" "vheight st' = vheight st" "b0 st' = b0 st"
  shows "tame E st st'"
  using assms by (auto simp: tame_def low_graph_eq still_def graph_eq_def)

lemma tame_put_cert: "tame E st (put_cert r q st)"
  by (rule tame_graph [OF core_step.certify]) (simp_all add: graph_eq_def blk_view_def)

lemma on_qc_finish_mem [simp]: "mem (on_qc_finish r st) = mem st"
  by (simp add: on_qc_finish_def)

lemma tame_finish: "tame E st (on_qc_finish r st)"
  by (intro tame_graph core_step.finish idle_on_qc_finish) (simp_all add: on_qc_finish_def)

lemma tame_update_hqc: "update_hqc r q st = Inr st' \<Longrightarrow> r < nxt (mem st) \<Longrightarrow> tame E st st'"
  by (intro tame_graph core_step.raise_hqc idle_update_hqc)
     (auto simp: update_hqc_def on_hqc_update_def res_iff split: if_splits dest: update_hqc_mem)

lemma tame_pipe: "set hs \<subseteq> set (piped_queue st) \<Longrightarrow> tame E st (st\<lparr>piped_queue := hs\<rparr>)"
  by (intro tame_graph core_step.pipe) (auto simp: idle_def)

lemma tame_ready: "tame E st (st\<lparr>rdy_queue := hs\<rparr>)"
  by (intro tame_graph core_step.ready) (simp_all add: idle_def)

lemma tame_timing: "tame E st (st\<lparr>last_block_time := t, piped_submitted := f, numberOfChildren := n\<rparr>)"
  by (intro tame_graph core_step.timing) (simp_all add: idle_def)

lemma tame_announce: "tame E st (emit (OutBroadcast p) st)"
  by (intro tame_graph core_step.announce) (simp_all add: idle_def)

lemma tame_then: "tame E st st1 \<Longrightarrow> (tame E)\<^sup>*\<^sup>* st1 st2 \<Longrightarrow> (tame E)\<^sup>*\<^sup>* st st2"
  by (rule converse_rtranclp_into_rtranclp)

lemma tame_finish_hqc:
  assumes "update_hqc r q st = Inr st1" "r < nxt (mem st)"
  shows "(tame E)\<^sup>*\<^sup>* st (on_qc_finish r st1)"
  using tame_then [OF tame_update_hqc [OF assms] r_into_rtranclp [of "tame E", OF tame_finish]] .

text \<open>Blocks from the network enter the storage without a height.\<close>

lemma block_unserialize_fresh:
  "block_unserialize E sc s = Inr (b, s') \<Longrightarrow> height b = 0 \<and> parents b = [] \<and> qc_ref b = None"
  by (auto simp: block_unserialize_def Block_default_def res_iff Let_def)

lemma tame_store_blk:
  assumes "block_unserialize E (sch st) s = Inr (b, s')" "store_blk b st = (r, st')"
  shows "tame E st st'"
proof -
  obtain m where m: "add_blk_move b (mem st) = (r, m)" "st' = st\<lparr>mem := m\<rparr>"
    using assms(2) by (auto simp: store_blk_def split: prod.splits)
  note f = add_blk_move_steps(1,2) [OF m(1)] m(2) block_unserialize_fresh [OF assms(1)]
  have "low st' = low st" using f by (auto simp: low_def less_Suc_eq)
  moreover have "still st st'" using f by (auto simp: still_def idle_def less_Suc_eq)
  ultimately show ?thesis using core_step.fetch [OF assms(1) m(1)] m(2) by (simp add: tame_def)
qed

lemma tame_get_blocks:
  assumes "get_blocks E n s st = Inr (rs, st')"
  shows "(tame E)\<^sup>*\<^sup>* st st'"
  using assms
proof (induction n arbitrary: s st rs)
  case (Suc n)
  from Suc.prems obtain b s1 where u: "block_unserialize E (sch st) s = Inr (b, s1)"
    by (auto simp: res_iff)
  obtain r st1 where a: "store_blk b st = (r, st1)" by (cases "store_blk b st")
  from Suc.prems u a obtain rs' where g: "get_blocks E n s1 st1 = Inr (rs', st')" by (auto simp: res_iff)
  from tame_store_blk [OF u a] Suc.IH [OF g] show ?case by (rule converse_rtranclp_into_rtranclp)
qed simp

section \<open>What the helpers leave alone\<close>

lemma fetch_hsc [simp]:
  "hsc (fetch_send E h p b) = hsc b"
  "hsc (fetch_add_replica E h p f b) = hsc b"
  "hsc (async_fetch_blk E h q f b) = hsc b"
  "hsc (async_deliver_blk E h p b) = hsc b"
  "hsc (on_fetch_blk r b) = hsc b"
  by (simp_all add: fetch_send_def fetch_add_replica_def async_fetch_blk_def async_deliver_blk_def
      on_fetch_blk_def Let_def split: option.split)

lemma fold_hsc:
  assumes "\<And>x b. hsc (f x b) = hsc b"
  shows "hsc (fold f xs b) = hsc b"
  by (induction xs arbitrary: b) (simp_all add: assms)

lemma fold_fetch_hsc [simp]:
  "hsc (fold (fetch_send E h) xs b) = hsc b"
  "hsc (fold (\<lambda>h. async_fetch_blk E h q f) hs b) = hsc b"
  "hsc (fold (\<lambda>h. async_deliver_blk E h p) hs b) = hsc b"
  "hsc (fold on_fetch_blk rs b) = hsc b"
  by (simp_all add: fold_hsc)

lemma dispatch_hsc: "dispatch E x b = Inr b' \<Longrightarrow> hsc b' = hsc b"
  by (cases x) (auto simp: do_broadcast_proposal_def do_vote_def do_decide_def do_consensus_def Let_def res_iff
      split: option.splits)

lemma run_core_hsc: "run_core E f b = Inr b' \<Longrightarrow> f (hsc b) = Inr (hsc b')"
  by (auto simp: run_core_def res_iff) (drule fold_res_inv [where P = "\<lambda>x. hsc x = _"], auto dest: dispatch_hsc)

section \<open>Handlers are runs of the core\<close>

lemma ensure_cert_tame: "ensure_cert E r st = Inr st' \<Longrightarrow> (tame E)\<^sup>*\<^sup>* st st'"
  using tame_put_cert by (fastforce simp: ensure_cert_def Let_def res_iff split: if_splits)

lemma normalise_piped_run:
  assumes "normalise_piped E prid h now b = Inr b'" "core_inv (hsc b)"
  shows "core_run E (hsc b) (hsc b')"
proof -
  have "\<exists>r prop. process_block E r False now (hsc b) = Inr (prop, hsc b') \<and> r < nxt (mem (hsc b)) \<or> hsc b' = hsc b"
    using assms heap_okD(6) [OF core_invD(1) [OF assms(2)]]
    by (auto simp: normalise_piped_def res_iff split: if_splits dest!: run_core_hsc)
  then show ?thesis by (auto intro: core_run_step core_step.process)
qed

text \<open>A reference obtained from the storage, or held by a job, is a stored block.\<close>

abbreviation held :: "('p, 'k, 's, 'b) core \<Rightarrow> blkref \<Rightarrow> bool" where
  "held st r \<equiv> r < nxt (mem st)"

lemma root_vote_tame:
  assumes "root_vote E r v pc q st = Inr st'" "held st r"
  shows "(tame E)\<^sup>*\<^sup>* st st'"
proof -
  from assms(1) obtain q1 where
    "st' = put_cert r q1 st \<or> (\<exists>st1. update_hqc r (Some q1) (put_cert r q1 st) = Inr st1 \<and> st' = on_qc_finish r st1)"
    by (auto simp: root_vote_def Let_def res_iff split: if_splits)
  then show ?thesis
    using assms(2) tame_then [OF tame_put_cert [of E st r q1]] tame_finish_hqc [of r "Some q1" "put_cert r q1 st"]
    by auto
qed

lemma pop_piped_shape:
  assumes "pop_piped r st = Inr st'"
  shows "\<exists>hs. set hs \<subseteq> set (piped_queue st) \<and> st' = st\<lparr>piped_queue := hs\<rparr>"
proof -
  have "st' = st\<lparr>piped_queue := piped_queue st\<rparr> \<or> st' = st\<lparr>piped_queue := tl (piped_queue st)\<rparr>"
    using assms by (auto simp: pop_piped_def res_iff split: if_splits)
  then show ?thesis by (metis list.set_sel(2) subsetI tl_Nil)
qed

lemma send_relay_hsc: "send_relay E h q b = Inr b' \<Longrightarrow> hsc b' = hsc b"
  by (auto simp: send_relay_def res_iff)

lemma inner_vote_shape:
  assumes "inner_vote E r v pc q b = Inr b'"
  shows "hsc b' = hsc b \<or> (\<exists>q1. hsc b' = put_cert r q1 (hsc b)) \<or>
    (\<exists>q1 hs. set hs \<subseteq> set (piped_queue (hsc b)) \<and> hsc b' = put_cert r q1 ((hsc b)\<lparr>piped_queue := hs\<rparr>))"
proof (cases "qc_has_n (group_size (hsc b)) q")
  case True
  then show ?thesis using assms by (simp add: inner_vote_def)
next
  case False
  with assms obtain q1 where q1: "qc_add_part E (config (hsc b)) (voter v) pc q = Inr q1"
    by (auto simp: inner_vote_def bind_Inr_iff)
  show ?thesis
  proof (cases "qc_has_n (group_size (hsc b)) q1")
    case False
    then show ?thesis using assms q1 \<open>\<not> qc_has_n _ q\<close> by (auto simp: inner_vote_def)
  next
    case True
    with assms q1 \<open>\<not> qc_has_n _ q\<close> obtain st1 where st1: "pop_piped r (hsc b) = Inr st1"
      and b': "hsc b' = put_cert r (qc_compute E q1) st1"
      by (auto simp: inner_vote_def Let_def bind_Inr_iff split: if_split_asm dest: send_relay_hsc)
    from pop_piped_shape [OF st1] b' show ?thesis by blast
  qed
qed

lemma inner_vote_tame:
  assumes "inner_vote E r v pc q b = Inr b'"
  shows "(tame E)\<^sup>*\<^sup>* (hsc b) (hsc b')"
  using inner_vote_shape [OF assms]
proof (elim disjE exE conjE)
  fix q1 hs
  assume "set hs \<subseteq> set (piped_queue (hsc b))" "hsc b' = put_cert r q1 ((hsc b)\<lparr>piped_queue := hs\<rparr>)"
  then show ?thesis using tame_then [OF tame_pipe r_into_rtranclp [of "tame E", OF tame_put_cert]] by metis
qed (simp_all add: r_into_rtranclp tame_put_cert)

lemma find_ready_held:
  assumes "find_ready st ch hs = Inr (Some (h, r))"
  shows "h \<in> set hs" "find_blk h (mem st) = Some r" "\<exists>ps. parent_hashes (blk st r) = ch # ps"
  using assms by (induction hs) (auto simp: res_iff split: if_splits)

text \<open>One round of the loop over the ready queue.\<close>

lemma resolve_ready_round:
  assumes "resolve_ready stale (Suc n) ch st = Inr st'" "find_ready st ch (rdy_queue st) = Inr (Some (h, r))"
  obtains s2 where "stale h \<in> set (piped_queue st)"
    "update_hqc r (self_qc (blk st r)) (st\<lparr>rdy_queue := remove1 h (rdy_queue st),
       piped_queue := remove1 (stale h) (piped_queue st)\<rparr>) = Inr s2"
    "resolve_ready stale n (hash (blk s2 r)) (on_qc_finish r s2) = Inr st'"
  using assms by (auto simp: res_iff Let_def)

lemma resolve_ready_mem: "resolve_ready stale n ch st = Inr st' \<Longrightarrow> mem st' = mem st"
  by (induction n arbitrary: ch st) (fastforce simp: res_iff Let_def split: option.split_asm dest: update_hqc_mem)+

lemma resolve_ready_tame:
  assumes "resolve_ready stale n ch st = Inr st'" "\<And>h r. find_blk h (mem st) = Some r \<Longrightarrow> held st r"
  shows "(tame E)\<^sup>*\<^sup>* st st'"
  using assms
proof (induction n arbitrary: ch st)
  case (Suc n)
  from Suc.prems(1) consider "find_ready st ch (rdy_queue st) = Inr None"
    | h r where "find_ready st ch (rdy_queue st) = Inr (Some (h, r))"
    by (cases "find_ready st ch (rdy_queue st)") (simp_all, metis not_None_eq surj_pair)
  then show ?case
  proof cases
    case 1
    then show ?thesis using Suc.prems(1) by simp
  next
    case (2 h r)
    let ?s1 = "st\<lparr>rdy_queue := remove1 h (rdy_queue st)\<rparr>"
    let ?s2 = "?s1\<lparr>piped_queue := remove1 (stale h) (piped_queue st)\<rparr>"
    obtain s3 where u: "update_hqc r (self_qc (blk st r)) ?s2 = Inr s3"
      and rec: "resolve_ready stale n (hash (blk s3 r)) (on_qc_finish r s3) = Inr st'"
      by (rule resolve_ready_round [OF Suc.prems(1) 2]) simp
    have "held ?s2 r" using Suc.prems(2) find_ready_held(2) [OF 2] by simp
    have "(tame E)\<^sup>*\<^sup>* (on_qc_finish r s3) st'"
      by (rule Suc.IH [OF rec]) (use Suc.prems(2) update_hqc_mem [OF u] in simp)
    with tame_finish_hqc [OF u \<open>held ?s2 r\<close>] have "(tame E)\<^sup>*\<^sup>* ?s2 st'" by (rule rtranclp_trans)
    moreover have "tame E ?s1 ?s2" by (rule tame_pipe) (simp add: set_remove1_subset)
    ultimately show ?thesis using tame_then [OF tame_ready] tame_then by blast
  qed
qed simp

lemma finish_relay_tame:
  assumes "finish_relay stale r q st = Inr st'" "held st r" "\<And>h r. find_blk h (mem st) = Some r \<Longrightarrow> held st r"
  shows "(tame E)\<^sup>*\<^sup>* st st'"
proof -
  have "st' = st\<lparr>rdy_queue := rdy_queue st @ [hash (blk st r)]\<rparr> \<or>
    (\<exists>st1. update_hqc r (Some q) st = Inr st1 \<and> st' = on_qc_finish r st1) \<or>
    (\<exists>h hs st1. piped_queue st = h # hs \<and> update_hqc r (Some q) (st\<lparr>piped_queue := hs\<rparr>) = Inr st1 \<and>
       pop_and_resolve stale r (on_qc_finish r st1) = Inr st')"
    using assms(1) by (auto simp: finish_relay_def res_iff split: list.split_asm if_splits)
  then show ?thesis
  proof (elim disjE exE conjE)
    fix h hs st1
    assume *: "piped_queue st = h # hs" "update_hqc r (Some q) (st\<lparr>piped_queue := hs\<rparr>) = Inr st1"
      "pop_and_resolve stale r (on_qc_finish r st1) = Inr st'"
    have "(tame E)\<^sup>*\<^sup>* (on_qc_finish r st1) st'"
      using *(3) assms(3) update_hqc_mem [OF *(2)] unfolding pop_and_resolve_def by (intro resolve_ready_tame) auto
    with tame_finish_hqc [OF *(2), of E] assms(2) have "(tame E)\<^sup>*\<^sup>* (st\<lparr>piped_queue := hs\<rparr>) st'"
      by (simp add: rtranclp_trans)
    then show ?thesis using tame_then [OF tame_pipe] *(1) by (metis set_subset_Cons)
  qed (use assms(2) tame_ready tame_finish_hqc in auto)
qed

lemma held_find: "core_inv st \<Longrightarrow> find_blk h (mem st) = Some r \<Longrightarrow> held st r"
  using heap_okD(6) core_invD(1) by blast

lemma vote_handler_run:
  assumes "vote_handler E prid msg peer now b = Inr b'" "core_inv (hsc b)"
  shows "core_run E (hsc b) (hsc b')"
proof (cases peer)
  case None
  then show ?thesis using assms(1) by (simp add: vote_handler_def)
next
  case (Some p)
  with assms(1) obtain h b1 r st where n: "normalise_piped E prid h now b = Inr b1"
    and e: "ensure_cert E r (hsc b1) = Inr st" and b': "hsc b' = st"
    by (auto simp: vote_handler_def Let_def bind_Inr_iff split: if_split_asm)
  from core_run_post [OF normalise_piped_run [OF n assms(2)] ensure_cert_tame [OF e]] b' show ?thesis by simp
qed

lemma pop_and_resolve_tame:
  assumes "pop_and_resolve stale r st = Inr st'" "\<And>h r. find_blk h (mem st) = Some r \<Longrightarrow> held st r"
  shows "(tame E)\<^sup>*\<^sup>* st st'"
  using assms unfolding pop_and_resolve_def by (rule resolve_ready_tame)

text \<open>What a run of the core may rely on is kept by it.\<close>

lemma core_run_inv:
  assumes "core_run E st st'" "core_inv st" "low st" "low st'"
  shows "core_inv st'"
  using core_sys.run_inv [OF core_run_low [OF assms(1,3,4)]] assms(2,3) by simp

lemma vote_relay_handler_run:
  assumes "vote_relay_handler E prid stale msg peer now b = Inr b'" "core_inv (hsc b)" "low (hsc b)" "low (hsc b')"
  shows "core_run E (hsc b) (hsc b')"
proof (cases peer)
  case None
  then show ?thesis using assms(1) by (simp add: vote_relay_handler_def)
next
  case (Some p)
  with assms(1) obtain h b1 r st where n: "normalise_piped E prid h now b = Inr b1"
    and e: "ensure_cert E r (hsc b1) = Inr st"
    and c: "hsc b' = st \<or> pop_and_resolve stale r (st\<lparr>piped_queue := tl (piped_queue st)\<rparr>) = Inr (hsc b')"
    by (auto simp: vote_relay_handler_def Let_def bind_Inr_iff split: if_split_asm dest!: run_core_hsc)
  note r1 = core_run_post [OF normalise_piped_run [OF n assms(2)] ensure_cert_tame [OF e]]
  let ?st = "st\<lparr>piped_queue := tl (piped_queue st)\<rparr>"
  show ?thesis
  proof (cases "hsc b' = st")
    case False
    then have pr: "pop_and_resolve stale r ?st = Inr (hsc b')" using c by simp
    have "mem (hsc b') = mem st" using resolve_ready_mem pr unfolding pop_and_resolve_def by fastforce
    then have "low st" using assms(4) by (simp add: low_def)
    then have "core_inv st" using core_run_inv [OF r1 assms(2,3)] by simp
    then have "(tame E)\<^sup>*\<^sup>* ?st (hsc b')"
      using pop_and_resolve_tame [OF pr] held_find [of st] by simp
    then have "(tame E)\<^sup>*\<^sup>* st (hsc b')" using tame_then [OF tame_pipe] by (metis list.set_sel(2) subsetI tl_Nil)
    then show ?thesis by (rule core_run_post [OF r1])
  qed (use r1 in simp)
qed

lemma vote_cont_tame:
  assumes "vote_cont E prid r v ok b = Inr b'" "held (hsc b) r"
  shows "(tame E)\<^sup>*\<^sup>* (hsc b) (hsc b')"
  using assms by (auto simp: vote_cont_def bind_Inr_iff split: if_split_asm
      dest!: run_core_hsc intro: inner_vote_tame root_vote_tame)

lemma relay_cont_tame:
  assumes "relay_cont E prid stale r v ok b = Inr b'" "held (hsc b) r" "core_inv (hsc b)"
  shows "(tame E)\<^sup>*\<^sup>* (hsc b) (hsc b')"
proof -
  have t: "(tame E)\<^sup>*\<^sup>* (put_cert r q st) st' \<Longrightarrow> (tame E)\<^sup>*\<^sup>* st st'" for q st st'
    by (rule tame_then [OF tame_put_cert])
  show ?thesis
  proof (cases "hsc b' = hsc b")
    case False
    with assms(1) obtain q c q1 where q: "self_qc (bblk b r) = Some q" "vr_cert v = Some c" "qc_merge_quorum E c q = Inr q1"
      by (auto simp: relay_cont_def bind_Inr_iff deref_Inr_iff split: option.split_asm if_split_asm)
    let ?b1 = "on_hsc (put_cert r q1) b" and ?q2 = "qc_compute E q1"
    let ?b2 = "on_hsc (put_cert r ?q2) ?b1"
    have fin: "(tame E)\<^sup>*\<^sup>* (hsc ?b2) st" if "finish_relay stale r ?q2 (hsc ?b2) = Inr st" for st
      using that by (rule finish_relay_tame) (use assms(2) held_find [OF assms(3)] in \<open>auto simp: find_blk_def\<close>)
    have "hsc b' = hsc ?b1 \<or> hsc b' = hsc ?b2 \<or> finish_relay stale r ?q2 (hsc ?b2) = Inr (hsc b')"
      using assms(1) q False
      by (auto simp: relay_cont_def Let_def bind_Inr_iff split: if_split_asm dest!: run_core_hsc send_relay_hsc)
    then have "(tame E)\<^sup>*\<^sup>* (hsc ?b1) (hsc b')"
      using t [of ?q2 "hsc ?b1"] fin by auto
    then show ?thesis using t [of q1 "hsc b"] by simp
  qed simp
qed

lemma do_vote_cont_tame:
  assumes "do_vote_cont E prop v prid b = Inr b'"
  shows "(tame E)\<^sup>*\<^sup>* (hsc b) (hsc b')"
  using assms by (auto simp: do_vote_cont_def bind_Inr_iff split: if_split_asm intro: tame_then [OF tame_put_cert])

lemma base_on_deliver_hsc:
  assumes "base_on_deliver_blk E r now b = Inr (f, b')"
  shows "\<exists>valid. on_deliver_blk r now (hsc b) = Inr (valid, hsc b')"
  using assms by (auto simp: base_on_deliver_blk_def Let_def bind_Inr_iff split: if_split_asm)

lemma deliver_cont_run:
  assumes "deliver_cont E r ok now b = Inr b'" "held (hsc b) r"
  shows "core_run E (hsc b) (hsc b')"
  using assms by (auto simp: deliver_cont_def bind_Inr_iff split: if_split_asm
      dest!: base_on_deliver_hsc intro: core_run_step core_step.deliver)

lemma MsgPropose_parse_stores:
  assumes "MsgPropose_parse E msg st = Inr (p, st')"
  shows "\<exists>s bl s'. block_unserialize E (sch st) s = Inr (bl, s') \<and> store_blk bl st = (prop_blk p, st')"
  using assms
  by (auto simp: MsgPropose_parse_def proposal_unserialize_def bind_Inr_iff case_prod_unfold Let_def)
     (metis prod.collapse)

lemma propose_handler_tame:
  assumes "propose_handler E msg peer b = Inr b'"
  shows "(tame E)\<^sup>*\<^sup>* (hsc b) (hsc b')"
proof (cases peer)
  case None
  then show ?thesis using assms by (simp add: propose_handler_def)
next
  case (Some p)
  with assms obtain prp where "MsgPropose_parse E msg (hsc b) = Inr (prp, hsc b')"
    by (auto simp: propose_handler_def Let_def bind_Inr_iff split: if_split_asm)
  then show ?thesis using MsgPropose_parse_stores tame_store_blk r_into_rtranclp by metis
qed

lemma resp_blk_handler_tame:
  assumes "resp_blk_handler E msg b = Inr b'"
  shows "(tame E)\<^sup>*\<^sup>* (hsc b) (hsc b')"
  using assms by (auto simp: resp_blk_handler_def MsgRespBlock_parse_def bind_Inr_iff intro: tame_get_blocks)

lemma proposal_cont_run:
  assumes "proposal_cont E prop b = Inr b'" "held (hsc b) (prop_blk prop)"
  shows "core_run E (hsc b) (hsc b')"
  using assms by (auto simp: proposal_cont_def dest!: run_core_hsc intro: core_run_step core_step.proposal)

section \<open>Proposing\<close>

text \<open>The blocks of the pipeline are connected to the genesis block. The leader's own blocks are
  when it creates them; a block of the same hash that a peer has sent before is not.\<close>

definition piped_connected :: "('p, 'k, 's, 'b) core \<Rightarrow> bool" where
  "piped_connected st \<longleftrightarrow> (\<forall>h \<in> set (piped_queue st). case find_blk h (mem st) of None \<Rightarrow> False | Some r \<Rightarrow> ref_ok st r)"

lemma highest_piped_ok:
  assumes "highest_piped st current = Inr hi" "core_inv st" "parent_ok (mem st) (b0 st) current"
  shows "parent_ok (mem st) (b0 st) hi"
  using assms(1) unfolding highest_piped_def
  by (rule fold_res_inv) (use assms(3) piped_parent_ok [OF assms(2)] in \<open>auto simp: bind_Inr_iff deref_Inr_iff\<close>)

lemma propose_piped_run:
  assumes "propose_piped E cm ps current now st = Inr st'" "core_inv st"
    and "list_all (parent_ok (mem st) (b0 st)) ps" "parent_ok (mem st) (b0 st) current" "piped_connected st'"
  shows "core_run E st st'"
proof -
  from assms(1) obtain hi p nps r st1 where hi: "highest_piped st current = Inr hi"
    and nps: "nps = (if height (blk st p) < height (blk st hi) then hi # ps else ps)"
    and new: "new_blk E nps cm [] (Some current) st = Inr (r, st1)"
    and st': "st' = emit (OutBroadcast \<lparr>proposer = my_id st1, prop_blk = r\<rparr>)
      (st1\<lparr>piped_queue := piped_queue st1 @ [hash (blk st1 r)], last_block_time := now\<rparr>)\<lparr>piped_submitted := False\<rparr>"
    by (auto simp: propose_piped_def Let_def bind_Inr_iff)
  let ?s2 = "st1\<lparr>piped_queue := piped_queue st1 @ [hash (blk st1 r)]\<rparr>"
  let ?s3 = "?s2\<lparr>last_block_time := now, piped_submitted := False, numberOfChildren := numberOfChildren st1\<rparr>"
  let ?p = "\<lparr>proposer = my_id st1, prop_blk = r\<rparr>"
  have 1: "core_step E st st1"
    by (rule core_step.create [OF new])
       (use highest_piped_ok [OF hi assms(2,4)] assms(3,4) in \<open>auto simp: nps parent_ok_def\<close>)
  have 2: "tame E st1 ?s2"
    by (rule tame_graph [OF core_step.pipe])
       (use assms(5) in \<open>auto simp: st' piped_connected_def ref_ok_def idle_def split: option.splits\<close>)
  have "(tame E)\<^sup>*\<^sup>* st1 (emit (OutBroadcast ?p) ?s3)"
    by (rule tame_then [OF 2 tame_then [OF tame_timing r_into_rtranclp [of "tame E", OF tame_announce]]])
  moreover have "emit (OutBroadcast ?p) ?s3 = st'" by (simp add: st')
  ultimately have "(tame E)\<^sup>*\<^sup>* st1 st'" by simp
  then show ?thesis by (rule core_run_post [OF core_run_step [OF 1]])
qed

lemma beat_cont_run:
  assumes "beat_cont E prid ps current now t1 t2 t3 b = Inr b'" "core_inv (hsc b)"
    and "list_all (parent_ok (mem (hsc b)) (b0 (hsc b))) ps" "parent_ok (mem (hsc b)) (b0 (hsc b)) current"
    and "piped_connected (hsc b')"
  shows "core_run E (hsc b) (hsc b')"
proof -
  let ?s = "(hsc b)\<lparr>last_block_time := now, piped_submitted := piped_submitted (hsc b), numberOfChildren := numberOfChildren (hsc b)\<rparr>"
  from assms(1) consider "hsc b' = hsc b"
    | "propose_piped E (final_buffer b) ps current t1 (hsc b) = Inr (hsc b')"
    | r where "on_propose E (final_buffer b) ps [] t1 t2 t3 ?s = Inr (r, hsc b')"
    by (auto simp: beat_cont_def Let_def bind_Inr_iff split: if_split_asm dest!: run_core_hsc)
  then show ?thesis
  proof cases
    case 2
    then show ?thesis using propose_piped_run assms(2-5) by blast
  next
    case (3 r)
    from core_step.propose [OF this] assms(3) have "core_step E ?s (hsc b')" by simp
    from core_run_step [OF this] show ?thesis
      by (rule core_run_pre [OF r_into_rtranclp [of "tame E", OF tame_timing]])
  qed simp
qed

end
