(* ===== verification/Hs_Scenario.thy ===== *)
theory Hs_Scenario
  imports Hs_Runs Hs_Sample
begin

text \<open>
  Computable runs of the core, from which the witnesses of the core's theorems are taken: a
  scenario is a list of calls, executed on a booted replica with the preconditions of
  \<open>core_step\<close> checked on the way, so its final state is reachable.
\<close>

datatype call =
    CallPropose "uint256 list" "blkref list"
  | CallCreate "uint256 list" "blkref list"
  | CallDeliver blkref
  | CallReceive Proposal

definition checked :: "bool \<Rightarrow> ('p, 'k, 's, 'b) core \<Rightarrow> ('p, 'k, 's, 'b) core res" where
  "checked ok st = (if ok \<and> low st then Inr st else Inl AssertFail)"

fun run_call :: "('p, 'k, 's, 'b) env \<Rightarrow> call \<Rightarrow> ('p, 'k, 's, 'b) core \<Rightarrow> ('p, 'k, 's, 'b) core res" where
  "run_call E (CallPropose cm ps) st =
     bind (on_propose E cm ps [] (0, 0) (0, 0) (0, 0) st) (\<lambda>(r, st').
       checked (list_all (parent_ok (mem st) (b0 st)) ps) st')"
| "run_call E (CallCreate cm ps) st =
     bind (new_blk E ps cm [] (Some (b0 st)) st) (\<lambda>(r, st').
       checked (b0 st < nxt (mem st) \<and> list_all (parent_ok (mem st) (b0 st)) ps) st')"
| "run_call E (CallDeliver r) st =
     bind (on_deliver_blk r (0, 0) st) (\<lambda>(b, st'). checked (r < nxt (mem st)) st')"
| "run_call E (CallReceive prop) st =
     bind (on_receive_proposal E prop st) (checked (prop_blk prop < nxt (mem st)))"

text \<open>A short hash and short encodings keep the computed states readable.\<close>

definition tiny_env :: "(uint256, uint256, uint256, bool list) env" where
  "tiny_env = sample_env\<lparr>put_int := \<lambda>k v. [of_nat v], put_u256 := \<lambda>h. [ucast h],
     sig_ser := \<lambda>x. [ucast x], sha256 := foldl (\<lambda>h b. h + ucast b + 1) 0\<rparr>"

type_synonym sample_core = "(uint256, uint256, uint256, bool list) core"

definition scenario :: "ReplicaID \<Rightarrow> (ReplicaID \<times> PeerId \<times> uint256) list \<Rightarrow> call list \<Rightarrow> sample_core res" where
  "scenario i rs cs = bind (boot tiny_env AggBLS i 7 0 0 (0, 0) 2 0 0 rs 0) (fold_res (run_call tiny_env) cs)"

lemma run_call_step:
  assumes "run_call E c st = Inr st'"
  shows "core_low_step E st st'"
  using assms
  by (cases c) (auto simp: core_low_step_def checked_def bind_Inr_iff split: if_splits
      intro: core_step.propose core_step.create core_step.deliver core_step.proposal)

lemma run_calls:
  assumes "fold_res (run_call E) cs st = Inr st'"
  shows "(core_low_step E)\<^sup>*\<^sup>* st st'"
  using assms(1)
  by (rule fold_res_inv) (auto intro: rtranclp.rtrancl_into_rtrancl dest: run_call_step)

lemma scenario_reachable:
  assumes "scenario i rs cs = Inr st"
  shows "reachable tiny_env st"
proof -
  from assms obtain st0 where "boot tiny_env AggBLS i 7 0 0 (0, 0) 2 0 0 rs 0 = Inr st0"
    and "fold_res (run_call tiny_env) cs st0 = Inr st" by (auto simp: scenario_def bind_Inr_iff)
  then show ?thesis using run_calls unfolding reachable_def booted_def by blast
qed

lemma scenario_extend:
  assumes "scenario i rs cs = Inr st" "fold_res (run_call tiny_env) cs' st = Inr st'"
  shows "scenario i rs (cs @ cs') = Inr st'"
  using assms by (auto simp: scenario_def fold_res_append bind_Inr_iff)

section \<open>Computing scenarios\<close>

lemmas boot_eval = boot_def set_piped_latency_def set_fanout_def HotStuffCore_new_def Block_genesis_def block_hash_def block_bytes_def
  put_len_def put_hashes_def dummy_default_def dummy_serialize_def tiny_env_def sample_env_def Let_def
  alloc_blk_def add_blk_def Block_default_def on_init_def add_replica_def add_replica_cfg_def
  ReplicaConfig_new_def umap_insert_def upd_blk_def agg_new_def agg_clone_def agg_add_part_def
  agg_has_n_def agg_compute_def agg_serialize_def calculateN_def count_bits_def agg_reopen_def
  put_bool_def sig_serialize_def unsigned_of_nat take_bit_nat_eq_self

lemmas core_eval = on_propose_def new_blk_def Block_new_def process_block_def on_deliver_blk_def
  get_delivered_blk_def resolve_parent_def find_blk_def resolve_qc_ref_def update_def update_hqc_def
  on_receive_vote_def count_own_vote_def own_vote_def nmaj_def on_qc_finish_def record_latency_def
  on_hqc_update_def usec_between_def commit_def commit_loop.simps decide_blk_def finalities_def
  on_receive_proposal_def sanity_check_delivered_def opinion_def walk_down.simps

lemmas check_eval = checked_def low_def parent_ok_def rooted_def All_less_Suc

lemma u32_2_le_1 [simp]: "\<not> (2 :: u32) \<le> 1" "(1 :: u32) < 2"
  by (simp_all add: word_le_nat_alt word_less_nat_alt)

lemma two_bits: "replicate 2 False = [False, False]"
  by (simp add: numeral_2_eq_2)

text \<open>One replica that proposes four blocks in a row executes the first of them.\<close>

lemma leader_run:
  "\<exists>st. scenario 0 [(0, 0, 7)] [CallPropose [1] [0], CallPropose [2] [1], CallPropose [3] [2], CallPropose [4] [3]] = Inr st \<and>
     executed (outs st) = [1] \<and> b_exec st = 1 \<and> b_lock st = 2 \<and> vheight st = 4 \<and> b0 st = 0"
  by (simp add: scenario_def boot_eval core_eval check_eval)

text \<open>A second replica is shown two blocks of a leader and votes for both.\<close>

lemma follower_ready:
  "\<exists>st. scenario 1 [(0, 0, 7), (1, 1, 7)] [CallCreate [1] [0], CallDeliver 1] = Inr st \<and>
     votes (outs st) = [] \<and> vheight st = 0 \<and> nxt (mem st) = 2 \<and> height (blk st 1) = 1"
  by (simp add: scenario_def boot_eval core_eval check_eval)

lemma follower_run:
  "\<exists>st. scenario 1 [(0, 0, 7), (1, 1, 7)] [CallCreate [1] [0], CallDeliver 1, CallReceive \<lparr>proposer = 0, prop_blk = 1\<rparr>] = Inr st \<and>
     votes (outs st) = [1] \<and> vheight st = 1 \<and> nxt (mem st) = 2 \<and> delivered (blk st 1) \<and> executed (outs st) = []"
  by (simp add: scenario_def boot_eval core_eval check_eval)

end
