(* ===== verification/Hs_Net_Log.thy ===== *)
theory Hs_Net_Log
  imports Hs_Net_Runs Hs_Scenario
begin

text \<open>
  The step relation of the network layer, and the two facts that tie it to the core: every run of
  it is a run of the core, and what the application is told is the core's log.
\<close>

section \<open>Steps\<close>

text \<open>What a lambda reads from outside when it runs: the answers of the pacemaker, the clock, and
  what a dangling reference yields.\<close>

record answers =
  ans_proposer :: ReplicaID
  ans_parents :: "blkref list"
  ans_current :: blkref
  ans_now :: timeval
  ans_t1 :: timeval
  ans_t2 :: timeval
  ans_t3 :: timeval
  ans_stale :: "uint256 \<Rightarrow> uint256"

fun run_job ::
  "('p, 'k, 's, 'b) env \<Rightarrow> answers \<Rightarrow> ('s, 'b) job \<Rightarrow> ('p, 'k, 's, 'b) base \<Rightarrow> ('p, 'k, 's, 'b) base res" where
  "run_job E a (JobProposal p) b = proposal_cont E p b"
| "run_job E a (JobVote r v ok) b = vote_cont E (ans_proposer a) r v ok b"
| "run_job E a (JobRelay r v ok) b = relay_cont E (ans_proposer a) (ans_stale a) r v ok b"
| "run_job E a (JobFetched h p) b = fetched_cont E h p b"
| "run_job E a (JobDeliver r ok) b = deliver_cont E r ok (ans_now a) b"
| "run_job E a (JobResp p hs) b = resp_cont E p hs b"
| "run_job E a (JobDoVote p v) b = do_vote_cont E p v (ans_proposer a) b"
| "run_job E a JobBeat b =
     beat_cont E (ans_proposer a) (ans_parents a) (ans_current a) (ans_now a) (ans_t1 a) (ans_t2 a) (ans_t3 a) b"

text \<open>The pacemaker answers with blocks that can be parents: stored and connected.\<close>

definition answers_ok :: "answers \<Rightarrow> ('p, 'k, 's, 'b) core \<Rightarrow> bool" where
  "answers_ok a st \<longleftrightarrow> list_all (parent_ok (mem st) (b0 st)) (ans_parents a) \<and> parent_ok (mem st) (b0 st) (ans_current a)"

inductive base_step :: "('p, 'k, 's, 'b) env \<Rightarrow> ('p, 'k, 's, 'b) base \<Rightarrow> ('p, 'k, 's, 'b) base \<Rightarrow> bool" for E where
  propose_msg: "propose_handler E msg peer b = Inr b' \<Longrightarrow> base_step E b b'"
| vote_msg: "vote_handler E prid msg peer now b = Inr b' \<Longrightarrow> base_step E b b'"
| relay_msg: "vote_relay_handler E prid stale msg peer now b = Inr b' \<Longrightarrow> base_step E b b'"
| req_msg: "req_blk_handler E msg peer b = Inr b' \<Longrightarrow> base_step E b b'"
| resp_msg: "resp_blk_handler E msg b = Inr b' \<Longrightarrow> base_step E b b'"
| timer: "base_step E b (fetch_timeout_cb E h b)"
| command: "base_step E b (exec_command h cb b)"
| commands: "cmd_handler E prid b = (again, b') \<Longrightarrow> base_step E b b'"
| job: "jobs b = xs @ j # ys \<Longrightarrow> job_ready (hsc b) j \<Longrightarrow> answers_ok a (hsc b) \<Longrightarrow>
    run_job E a j (b\<lparr>jobs := xs @ ys\<rparr>) = Inr b' \<Longrightarrow> base_step E b b'"

text \<open>Runs of fewer than \<open>2 ^ 32 - 1\<close> heights in which the blocks of the pipeline are connected.\<close>

definition base_low_step :: "('p, 'k, 's, 'b) env \<Rightarrow> ('p, 'k, 's, 'b) base \<Rightarrow> ('p, 'k, 's, 'b) base \<Rightarrow> bool" where
  "base_low_step E b b' \<longleftrightarrow> base_step E b b' \<and> low (hsc b') \<and> piped_connected (hsc b')"

definition started :: "('p, 'k, 's, 'b) env \<Rightarrow> ('p, 'k, 's, 'b) base \<Rightarrow> bool" where
  "started E b \<longleftrightarrow> (\<exists>sc bs i sk lat0 cnt0 t0 fo pl ab addr rs b0.
     HotStuffBase_new E sc bs i sk lat0 cnt0 t0 = Inr b0 \<and>
     start E addr rs (on_hsc (\<lambda>st. set_piped_latency pl ab (set_fanout fo st)) b0) = Inr b)"

definition base_reachable :: "('p, 'k, 's, 'b) env \<Rightarrow> ('p, 'k, 's, 'b) base \<Rightarrow> bool" where
  "base_reachable E b \<longleftrightarrow> (\<exists>b0. started E b0 \<and> (base_low_step E)\<^sup>*\<^sup>* b0 b)"

section \<open>Waiting lambdas hold stored blocks\<close>

fun job_ok :: "('p, 'k, 's, 'b) core \<Rightarrow> ('s, 'b) job \<Rightarrow> bool" where
  "job_ok st (JobProposal p) = held st (prop_blk p)"
| "job_ok st (JobVote r v ok) = held st r"
| "job_ok st (JobRelay r v ok) = held st r"
| "job_ok st (JobDeliver r ok) = held st r"
| "job_ok st _ = True"

definition jobs_grow :: "('p, 'k, 's, 'b) base \<Rightarrow> ('p, 'k, 's, 'b) base \<Rightarrow> bool" where
  "jobs_grow b b' \<longleftrightarrow> (\<forall>j \<in> set (jobs b'). j \<in> set (jobs b) \<or> job_ok (hsc b') j)"

lemma job_ok_mono: "job_ok st j \<Longrightarrow> nxt (mem st) \<le> nxt (mem st') \<Longrightarrow> job_ok st' j"
  by (cases j) auto

lemma fetch_jobs [simp]:
  "jobs (fetch_send E h p b) = jobs b"
  "jobs (fetch_add_replica E h p f b) = jobs b"
  "jobs (async_fetch_blk E h q f b) = jobs b"
  "jobs (on_fetch_blk r b) = jobs b"
  by (simp_all add: fetch_send_def fetch_add_replica_def async_fetch_blk_def on_fetch_blk_def Let_def split: option.split)

lemma fold_jobs:
  assumes "\<And>x b. jobs (f x b) = jobs b"
  shows "jobs (fold f xs b) = jobs b"
  by (induction xs arbitrary: b) (simp_all add: assms)

lemma fold_fetch_jobs [simp]:
  "jobs (fold (fetch_send E h) xs b) = jobs b"
  "jobs (fold (\<lambda>h. async_fetch_blk E h q f) hs b) = jobs b"
  "jobs (fold on_fetch_blk rs b) = jobs b"
  by (simp_all add: fold_jobs)

lemma async_deliver_jobs: "j \<in> set (jobs (async_deliver_blk E h p b)) \<Longrightarrow> j \<in> set (jobs b) \<or> (\<exists>h p. j = JobFetched h p)"
  by (auto simp: async_deliver_blk_def split: if_splits)

lemma fold_deliver_jobs:
  "j \<in> set (jobs (fold (\<lambda>h. async_deliver_blk E h p) hs b)) \<Longrightarrow> j \<in> set (jobs b) \<or> (\<exists>h p. j = JobFetched h p)"
  by (induction hs arbitrary: b) (auto dest: async_deliver_jobs)

lemma dispatch_jobs:
  "dispatch E x b = Inr b' \<Longrightarrow> j \<in> set (jobs b') \<Longrightarrow> j \<in> set (jobs b) \<or> (\<exists>p v. j = JobDoVote p v)"
  by (cases x) (auto simp: do_broadcast_proposal_def do_vote_def do_decide_def do_consensus_def Let_def bind_Inr_iff
      split: option.split_asm)

lemma run_core_jobs:
  assumes "run_core E f b = Inr b'"
  shows "jobs_grow b b'"
proof -
  from assms obtain st where "fold_res (dispatch E) (drop (length (outs (hsc b))) (outs st)) (b\<lparr>hsc := st\<rparr>) = Inr b'"
    by (auto simp: run_core_def bind_Inr_iff)
  then have "\<forall>j \<in> set (jobs b'). j \<in> set (jobs b) \<or> (\<exists>p v. j = JobDoVote p v)"
    by (rule fold_res_inv) (auto dest: dispatch_jobs)
  then show ?thesis by (auto simp: jobs_grow_def)
qed

lemma jobs_grow_same: "set (jobs b') \<subseteq> set (jobs b) \<Longrightarrow> jobs_grow b b'"
  by (auto simp: jobs_grow_def)

lemma jobs_grow_trans:
  "jobs_grow b b1 \<Longrightarrow> jobs_grow b1 b2 \<Longrightarrow> nxt (mem (hsc b1)) \<le> nxt (mem (hsc b2)) \<Longrightarrow> jobs_grow b b2"
  unfolding jobs_grow_def using job_ok_mono by blast

lemma normalise_piped_jobs: "normalise_piped E prid h now b = Inr b' \<Longrightarrow> jobs_grow b b'"
  by (auto simp: normalise_piped_def bind_Inr_iff split: if_split_asm dest: run_core_jobs intro: jobs_grow_same)

lemma ensure_cert_frame:
  assumes "ensure_cert E r st = Inr st'"
  shows "nxt (mem st') = nxt (mem st)" "find_blk h (mem st') = find_blk h (mem st)" "outs st' = outs st"
  using assms by (auto simp: ensure_cert_def Let_def bind_Inr_iff find_blk_def split: if_split_asm)

lemma get_potentially_find: "get_potentially_not_delivered_blk h st = Inr r \<Longrightarrow> find_blk h (mem st) = Some r"
  by (auto simp: get_potentially_not_delivered_blk_def split: option.split_asm)

lemma propose_handler_jobs:
  assumes "propose_handler E msg peer b = Inr b'" "core_inv (hsc b')"
  shows "jobs_grow b b'"
proof (cases peer)
  case None
  then show ?thesis using assms(1) by (simp add: propose_handler_def jobs_grow_def)
next
  case (Some p)
  with assms(1) obtain prp st where m: "MsgPropose_parse E msg (hsc b) = Inr (prp, st)"
    by (auto simp: propose_handler_def Let_def bind_Inr_iff split: if_split_asm)
  with Some assms(1) have st: "hsc b' = st"
    and j: "\<forall>j \<in> set (jobs b'). j \<in> set (jobs b) \<or> (\<exists>h p. j = JobFetched h p) \<or> j = JobProposal prp"
    by (auto simp: propose_handler_def Let_def split: if_split_asm dest!: async_deliver_jobs)
  obtain bl where "store_blk bl (hsc b) = (prop_blk prp, hsc b')" using MsgPropose_parse_stores [OF m] st by blast
  from held_find [OF assms(2) store_blk_steps(1) [OF this]] j show ?thesis by (auto simp: jobs_grow_def)
qed

lemma vote_handler_jobs:
  assumes "vote_handler E prid msg peer now b = Inr b'" "core_inv (hsc b')"
  shows "jobs_grow b b'"
proof (cases peer)
  case None
  then show ?thesis using assms(1) by (simp add: vote_handler_def jobs_grow_def)
next
  case (Some p)
  with assms(1) obtain v b1 r st where m: "MsgVote_parse E (sch (hsc b)) msg = Inr v"
    and n: "normalise_piped E prid (v_blk_hash v) now b = Inr b1"
    and r: "get_potentially_not_delivered_blk (v_blk_hash v) (hsc b1) = Inr r"
    and e: "ensure_cert E r (hsc b1) = Inr st"
    by (auto simp: vote_handler_def bind_Inr_iff)
  from assms(1) Some m n r e have st: "hsc b' = st"
    and j: "\<forall>j \<in> set (jobs b'). j \<in> set (jobs b1) \<or> (\<exists>h p. j = JobFetched h p) \<or> (\<exists>v ok. j = JobVote r v ok)"
    by (auto simp: vote_handler_def Let_def bind_Inr_iff split: if_split_asm dest!: async_deliver_jobs)
  have "held st r"
    using held_find [OF assms(2)] get_potentially_find [OF r] ensure_cert_frame(2) [OF e] by (simp add: st)
  then have "jobs_grow b1 b'" using j st by (auto simp: jobs_grow_def)
  then show ?thesis
    using jobs_grow_trans [OF normalise_piped_jobs [OF n]] ensure_cert_frame(1) [OF e] by (simp add: st)
qed

lemma vote_relay_handler_jobs:
  assumes "vote_relay_handler E prid stale msg peer now b = Inr b'" "core_inv (hsc b')"
  shows "jobs_grow b b'"
proof (cases peer)
  case None
  then show ?thesis using assms(1) by (simp add: vote_relay_handler_def jobs_grow_def)
next
  case (Some p)
  with assms(1) obtain v b1 r st where m: "MsgRelay_parse E (sch (hsc b)) msg = Inr v"
    and n: "normalise_piped E prid (vr_blk_hash v) now b = Inr b1"
    and r: "get_potentially_not_delivered_blk (vr_blk_hash v) (hsc b1) = Inr r"
    and e: "ensure_cert E r (hsc b1) = Inr st"
    by (auto simp: vote_relay_handler_def bind_Inr_iff)
  from assms(1) Some m n r e have j: "run_core E (pop_and_resolve stale r) (b1\<lparr>hsc := st\<lparr>piped_queue := tl (piped_queue st)\<rparr>\<rparr>) = Inr b' \<or>
      hsc b' = st \<and> (\<forall>j \<in> set (jobs b'). j \<in> set (jobs b1) \<or> (\<exists>h p. j = JobFetched h p) \<or> (\<exists>v ok. j = JobRelay r v ok))"
    by (auto simp: vote_relay_handler_def Let_def bind_Inr_iff split: if_split_asm dest!: async_deliver_jobs)
  have "jobs_grow b1 b' \<and> nxt (mem (hsc b')) = nxt (mem st)"
    using j
  proof
    assume c: "run_core E (pop_and_resolve stale r) (b1\<lparr>hsc := st\<lparr>piped_queue := tl (piped_queue st)\<rparr>\<rparr>) = Inr b'"
    from run_core_hsc [OF c] have "mem (hsc b') = mem st"
      using resolve_ready_mem unfolding pop_and_resolve_def by fastforce
    then show ?thesis using run_core_jobs [OF c] by (simp add: jobs_grow_def)
  next
    assume c: "hsc b' = st \<and> (\<forall>j \<in> set (jobs b'). j \<in> set (jobs b1) \<or> (\<exists>h p. j = JobFetched h p) \<or> (\<exists>v ok. j = JobRelay r v ok))"
    have "held st r"
      using held_find [OF assms(2)] get_potentially_find [OF r] ensure_cert_frame(2) [OF e] c by simp
    then show ?thesis using c by (auto simp: jobs_grow_def)
  qed
  then show ?thesis
    using jobs_grow_trans [OF normalise_piped_jobs [OF n]] ensure_cert_frame(1) [OF e] by simp
qed

lemma jobs_grow_on_hsc: "jobs_grow (b\<lparr>hsc := st\<rparr>) b' = jobs_grow b b'"
  by (simp add: jobs_grow_def)

lemma send_relay_jobs: "send_relay E h q b = Inr b' \<Longrightarrow> jobs b' = jobs b"
  by (auto simp: send_relay_def bind_Inr_iff)

lemma inner_vote_jobs: "inner_vote E r v pc q b = Inr b' \<Longrightarrow> jobs b' = jobs b"
  by (auto simp: inner_vote_def Let_def bind_Inr_iff split: if_split_asm dest!: send_relay_jobs)

lemma vote_cont_jobs: "vote_cont E prid r v ok b = Inr b' \<Longrightarrow> jobs_grow b b'"
  by (auto simp: vote_cont_def bind_Inr_iff split: if_split_asm dest!: run_core_jobs inner_vote_jobs intro: jobs_grow_same)

lemma relay_cont_jobs: "relay_cont E prid stale r v ok b = Inr b' \<Longrightarrow> jobs_grow b b'"
  by (cases "self_qc (bblk b r)")
     (auto simp: relay_cont_def Let_def bind_Inr_iff jobs_grow_on_hsc split: if_split_asm
       dest!: run_core_jobs send_relay_jobs intro: jobs_grow_same)

lemma fetched_cont_jobs:
  assumes "fetched_cont E h p b = Inr b'" "core_inv (hsc b)"
  shows "jobs_grow b b'" "hsc b' = hsc b"
proof -
  from assms(1) obtain r where r: "find_blk h (mem (hsc b)) = Some r"
    by (auto simp: fetched_cont_def bind_Inr_iff deref_Inr_iff)
  with assms(1) have j: "\<forall>j \<in> set (jobs b'). j \<in> set (jobs b) \<or> (\<exists>h p. j = JobFetched h p) \<or> (\<exists>ok. j = JobDeliver r ok)"
    and h: "hsc b' = hsc b"
    by (auto simp: fetched_cont_def Let_def bind_Inr_iff split: option.split_asm if_split_asm dest!: fold_deliver_jobs)
  show "jobs_grow b b'" using j h held_find [OF assms(2) r] by (auto simp: jobs_grow_def)
  show "hsc b' = hsc b" by (rule h)
qed

lemma deliver_cont_jobs: "deliver_cont E r ok now b = Inr b' \<Longrightarrow> jobs_grow b b'"
  by (auto simp: deliver_cont_def base_on_deliver_blk_def Let_def bind_Inr_iff split: if_split_asm intro!: jobs_grow_same)

lemma resp_cont_frame: "resp_cont E p hs b = Inr b' \<Longrightarrow> hsc b' = hsc b \<and> jobs b' = jobs b \<and> app b' = app b"
  by (auto simp: resp_cont_def bind_Inr_iff)

lemma do_vote_cont_jobs: "do_vote_cont E p v prid b = Inr b' \<Longrightarrow> jobs b' = jobs b"
  by (auto simp: do_vote_cont_def bind_Inr_iff split: if_split_asm)

lemma beat_cont_jobs: "beat_cont E prid ps c now t1 t2 t3 b = Inr b' \<Longrightarrow> jobs_grow b b'"
  by (auto simp: beat_cont_def Let_def split: if_split_asm dest: run_core_jobs intro: jobs_grow_same)

lemma run_job_jobs:
  assumes "run_job E a j b = Inr b'" "core_inv (hsc b)"
  shows "jobs_grow b b'"
  using assms
  by (cases j) (auto simp: proposal_cont_def intro: run_core_jobs vote_cont_jobs relay_cont_jobs fetched_cont_jobs
      deliver_cont_jobs beat_cont_jobs jobs_grow_same dest!: resp_cont_frame do_vote_cont_jobs)

lemma run_job_run:
  assumes "run_job E a j b = Inr b'" "core_inv (hsc b)" "job_ok (hsc b) j" "answers_ok a (hsc b)" "piped_connected (hsc b')"
  shows "core_run E (hsc b) (hsc b')"
  using assms
  by (cases j) (auto simp: answers_ok_def intro: proposal_cont_run core_run_tame [OF vote_cont_tame]
      core_run_tame [OF relay_cont_tame] deliver_cont_run core_run_tame [OF do_vote_cont_tame] beat_cont_run
      dest: resp_cont_frame fetched_cont_jobs(2))

section \<open>Commands\<close>

lemma accept_command_frame [simp]:
  "hsc (accept_command E h cb b) = hsc b" "jobs (accept_command E h cb b) = jobs b"
  "cmd_pending (accept_command E h cb b) = cmd_pending b" "final_buffer (accept_command E h cb b) = final_buffer b"
  "blk_size (accept_command E h cb b) = blk_size b"
  by (simp_all add: accept_command_def Let_def)

lemma cmd_loop_hsc [simp]: "hsc (snd (cmd_loop E prid q b)) = hsc b"
  by (induction E prid q b rule: cmd_loop.induct) (auto simp: Let_def)

lemma cmd_loop_jobs: "set (jobs (snd (cmd_loop E prid q b))) \<subseteq> insert JobBeat (set (jobs b))"
  by (induction E prid q b rule: cmd_loop.induct) (auto simp: Let_def)

section \<open>Every run is a run of the core\<close>

definition jobs_ok :: "('p, 'k, 's, 'b) base \<Rightarrow> bool" where
  "jobs_ok b \<longleftrightarrow> (\<forall>j \<in> set (jobs b). job_ok (hsc b) j)"

lemma base_step_run:
  assumes "base_low_step E b b'" "core_inv (hsc b)" "low (hsc b)" "jobs_ok b"
  shows "core_run E (hsc b) (hsc b')"
proof -
  from assms(1) have s: "base_step E b b'" and l: "low (hsc b')" "piped_connected (hsc b')"
    by (simp_all add: base_low_step_def)
  from s show ?thesis
  proof cases
    case (job xs j ys a)
    with assms(2,4) l show ?thesis using run_job_run [of E a j "b\<lparr>jobs := xs @ ys\<rparr>" b'] by (simp add: jobs_ok_def)
  next
    case (req_msg msg peer)
    then show ?thesis by (auto simp: req_blk_handler_def bind_Inr_iff split: option.split_asm)
  next
    case (timer h)
    then show ?thesis by (simp add: fetch_timeout_cb_def split: option.split)
  next
    case (commands prid again)
    then have "hsc b' = hsc b" unfolding cmd_handler_def using cmd_loop_hsc [of E prid "cmd_pending b" b] by simp
    then show ?thesis by simp
  qed (use assms(2,3) l in \<open>auto simp: exec_command_def intro: core_run_tame [OF propose_handler_tame] vote_handler_run
       vote_relay_handler_run core_run_tame [OF resp_blk_handler_tame]\<close>)
qed

lemma base_step_jobs:
  assumes "base_low_step E b b'" "core_inv (hsc b)" "core_inv (hsc b')"
  shows "jobs_grow b b'"
proof -
  from assms(1) have s: "base_step E b b'" by (simp add: base_low_step_def)
  from s show ?thesis
  proof cases
    case (job xs j ys a)
    have "jobs_grow (b\<lparr>jobs := xs @ ys\<rparr>) b'" using run_job_jobs [OF job(4)] assms(2) by simp
    then show ?thesis using job(1) by (auto simp: jobs_grow_def)
  next
    case (req_msg msg peer)
    then show ?thesis by (auto simp: req_blk_handler_def bind_Inr_iff jobs_grow_def split: option.split_asm)
  next
    case (resp_msg msg)
    then show ?thesis by (auto simp: resp_blk_handler_def bind_Inr_iff jobs_grow_def)
  next
    case (timer h)
    then show ?thesis by (simp add: fetch_timeout_cb_def jobs_grow_def split: option.split)
  next
    case (commands prid again)
    then show ?thesis unfolding cmd_handler_def using cmd_loop_jobs [of E prid "cmd_pending b" b]
      by (auto simp: jobs_grow_def)
  qed (use assms(3) in \<open>auto simp: exec_command_def intro: jobs_grow_same propose_handler_jobs vote_handler_jobs vote_relay_handler_jobs\<close>)
qed

lemma add_peer_frame:
  "jobs (add_peer a e b) = jobs b" "app (add_peer a e b) = app b"
  "hsc (add_peer a e b) = add_replica (of_nat (fst e)) (re_cert (snd e)) (re_pubkey (snd e)) (hsc b)"
  by (simp_all add: add_peer_def Let_def)

lemma add_peers_frame:
  "jobs (fold (add_peer a) es b) = jobs b \<and> app (fold (add_peer a) es b) = app b \<and>
   hsc (fold (add_peer a) es b) = fold (\<lambda>(rid, peer, pk). add_replica rid peer pk)
     (map (\<lambda>e. (of_nat (fst e), re_cert (snd e), re_pubkey (snd e))) es) (hsc b)"
  by (induction es arbitrary: b) (simp_all add: add_peer_frame)

lemma on_init_children: "on_init E nf (st\<lparr>numberOfChildren := n\<rparr>) = (on_init E nf st)\<lparr>numberOfChildren := n\<rparr>"
  by (simp add: on_init_def Let_def)

lemma started_boot:
  assumes "started E b"
  shows "\<exists>st n. booted E st \<and> hsc b = st\<lparr>numberOfChildren := n\<rparr>" "jobs b = []" "app b = []"
proof -
  from assms obtain sc bs i sk lat0 cnt0 t0 fo pl ab addr rs b00 where
    n: "HotStuffBase_new E sc bs i sk lat0 cnt0 t0 = Inr b00"
    and s: "start E addr rs (on_hsc (\<lambda>st. set_piped_latency pl ab (set_fanout fo st)) b00) = Inr b"
    by (auto simp: started_def)
  let ?es = "zip [0..<length rs] rs"
  let ?b1 = "fold (add_peer addr) ?es
    (b00\<lparr>hsc := set_piped_latency pl ab (set_fanout fo (hsc b00)), childPeers := {}\<rparr>)"
  from n have b0: "jobs b00 = []" "app b00 = []" "HotStuffCore_new E sc i sk lat0 cnt0 t0 = Inr (hsc b00)"
    by (auto simp: HotStuffBase_new_def bind_Inr_iff)
  from s obtain m nf where b: "hsc b = on_init E nf ((hsc ?b1)\<lparr>numberOfChildren := m\<rparr>)"
    "jobs b = jobs ?b1" "app b = app ?b1"
    by (auto simp: start_def Let_def bind_Inr_iff)
  show "jobs b = []" "app b = []" using b b0 by (simp_all add: add_peers_frame)
  have "boot E sc i sk lat0 cnt0 t0 fo pl ab (map (\<lambda>e. (of_nat (fst e), re_cert (snd e), re_pubkey (snd e))) ?es) nf =
      Inr (on_init E nf (hsc ?b1))"
    by (simp add: boot_def b0 add_peers_frame)
  then have "booted E (on_init E nf (hsc ?b1))" unfolding booted_def by blast
  then show "\<exists>st n. booted E st \<and> hsc b = st\<lparr>numberOfChildren := n\<rparr>"
    using b(1) by (auto simp: on_init_children)
qed

lemma booted_reachable: "booted E st \<Longrightarrow> reachable E st"
  by (auto simp: reachable_def)

lemma reachable_run:
  assumes "reachable E st" "core_run E st st'" "low st'"
  shows "reachable E st'" "(core_low_step E)\<^sup>*\<^sup>* st st'"
proof -
  show r: "(core_low_step E)\<^sup>*\<^sup>* st st'" using core_run_low [OF assms(2) reachable_inv(2) [OF assms(1)] assms(3)] .
  show "reachable E st'" using assms(1) r unfolding reachable_def by (meson rtranclp_trans)
qed

lemma started_ok:
  assumes "started E b"
  shows "reachable E (hsc b)" "jobs_ok b"
proof -
  obtain st n where st: "booted E st" "hsc b = st\<lparr>numberOfChildren := n\<rparr>" using started_boot(1) [OF assms] by blast
  have "core_step E st (st\<lparr>last_block_time := last_block_time st, piped_submitted := piped_submitted st, numberOfChildren := n\<rparr>)"
    by (rule core_step.timing)
  then have "core_run E st (hsc b)" using core_run_step by (simp add: st(2))
  moreover have "low (hsc b)" using reachable_inv(2) [OF booted_reachable [OF st(1)]] by (simp add: st(2) low_def)
  ultimately show "reachable E (hsc b)" using reachable_run(1) [OF booted_reachable [OF st(1)]] by simp
  show "jobs_ok b" using started_boot(2) [OF assms] by (simp add: jobs_ok_def)
qed

lemma base_step_keeps:
  assumes "reachable E (hsc b) \<and> jobs_ok b" "base_low_step E b b'"
  shows "reachable E (hsc b') \<and> jobs_ok b'" "(core_low_step E)\<^sup>*\<^sup>* (hsc b) (hsc b')" "evolves (hsc b) (hsc b')"
proof -
  note i = reachable_inv [of E "hsc b"]
  have "core_run E (hsc b) (hsc b')" using base_step_run [OF assms(2)] assms(1) i by simp
  moreover have "low (hsc b')" using assms(2) by (simp add: base_low_step_def)
  ultimately have r: "reachable E (hsc b')" "(core_low_step E)\<^sup>*\<^sup>* (hsc b) (hsc b')"
    using reachable_run assms(1) by blast+
  show e: "evolves (hsc b) (hsc b')" using reachable_evolves assms(1) r(2) by blast
  have "nxt (mem (hsc b)) \<le> nxt (mem (hsc b'))" using evolvesD(3) [OF e] by (simp add: progress_def graph_grows_def)
  moreover have "jobs_grow b b'" using base_step_jobs [OF assms(2)] evolvesD [OF e] by simp
  ultimately have "jobs_ok b'" using assms(1) job_ok_mono unfolding jobs_ok_def jobs_grow_def by blast
  with r show "reachable E (hsc b') \<and> jobs_ok b'" "(core_low_step E)\<^sup>*\<^sup>* (hsc b) (hsc b')" by simp_all
qed

interpretation base_sys: evolving_system "started E" "base_low_step E" "\<lambda>b. reachable E (hsc b) \<and> jobs_ok b"
  "\<lambda>b b'. (core_low_step E)\<^sup>*\<^sup>* (hsc b) (hsc b') \<and> evolves (hsc b) (hsc b')" for E
proof unfold_locales
  show "started E b \<Longrightarrow> reachable E (hsc b) \<and> jobs_ok b" for b using started_ok by blast
qed (auto dest: base_step_keeps [OF conjI] reachable_inv(1) intro: evolves_refl evolves_trans rtranclp_trans)

section \<open>The application sees the core's log\<close>

fun consensus_log :: "app_event list \<Rightarrow> blkref list" where
  "consensus_log [] = []"
| "consensus_log (AppConsensus r # es) = r # consensus_log es"
| "consensus_log (_ # es) = consensus_log es"

fun execution_log :: "app_event list \<Rightarrow> Finality list" where
  "execution_log [] = []"
| "execution_log (AppExecute f # es) = f # execution_log es"
| "execution_log (_ # es) = execution_log es"

lemma app_log_append [simp]:
  "consensus_log (xs @ ys) = consensus_log xs @ consensus_log ys"
  "execution_log (xs @ ys) = execution_log xs @ execution_log ys"
   apply (induction xs rule: consensus_log.induct; simp)
  apply (induction xs rule: execution_log.induct; simp)
  done

definition in_sync :: "('p, 'k, 's, 'b) base \<Rightarrow> bool" where
  "in_sync b \<longleftrightarrow> consensus_log (app b) = executed (outs (hsc b)) \<and> execution_log (app b) = decided (outs (hsc b))"

text \<open>Operations only append to the outputs, and a promise leaves \<open>qc_waiting\<close> only when it is
  resolved.\<close>

definition appends :: "('p, 'k, 's, 'b) core \<Rightarrow> ('p, 'k, 's, 'b) core \<Rightarrow> bool" where
  "appends st st' \<longleftrightarrow> (\<exists>xs. outs st' = outs st @ xs \<and> qc_waiting st \<subseteq> qc_waiting st' \<union> {r. OutQcFinish r \<in> set xs})"

lemma appends_refl [simp]: "appends st st"
  by (simp add: appends_def)

lemma appends_same: "outs st' = outs st \<Longrightarrow> qc_waiting st' = qc_waiting st \<Longrightarrow> appends st st'"
  by (simp add: appends_def)

lemma appends_trans:
  assumes "appends st st1" "appends st1 st2"
  shows "appends st st2"
proof -
  from assms obtain xs ys where "outs st1 = outs st @ xs" "outs st2 = outs st1 @ ys"
    "qc_waiting st \<subseteq> qc_waiting st1 \<union> {r. OutQcFinish r \<in> set xs}"
    "qc_waiting st1 \<subseteq> qc_waiting st2 \<union> {r. OutQcFinish r \<in> set ys}"
    by (auto simp: appends_def)
  then show ?thesis unfolding appends_def by (intro exI [of _ "xs @ ys"]) auto
qed

lemma appends_left: "outs st1 = outs st \<Longrightarrow> qc_waiting st1 = qc_waiting st \<Longrightarrow> appends st1 st' = appends st st'"
  by (simp add: appends_def)

lemma appends_emit: "appends st st1 \<Longrightarrow> appends st (emit x st1)"
  by (rule appends_trans) (auto simp: appends_def)

lemma appends_update_hqc: "update_hqc r q st = Inr st' \<Longrightarrow> appends st st'"
  by (auto simp: update_hqc_def on_hqc_update_def bind_Inr_iff appends_def split: if_split_asm)

lemma appends_finish [simp]: "appends st (on_qc_finish r st)"
  by (auto simp: on_qc_finish_def appends_def)

lemma appends_commit: "commit r st = Inr st' \<Longrightarrow> appends st st'"
  by (auto simp: commit_def res_iff fold_decide_blk appends_def split: if_splits)

lemma appends_commit_if_chain: "commit_if_chain b2 b1 st = Inr st' \<Longrightarrow> appends st st'"
  by (cases "qc_ref (blk st b1)") (auto simp: commit_if_chain_def res_iff split: if_splits dest: appends_commit)

lemma appends_update:
  assumes "update n st = Inr st'"
  shows "appends st st'"
proof (cases "\<exists>b2. qc_ref (blk st n) = Some b2 \<and> decision (blk st b2) = 0")
  case False
  then show ?thesis using assms by (auto simp: update_stages split: option.splits)
next
  case True
  with assms obtain b2 s1 where s1: "update_hqc b2 (blk_qc (blk st n)) st = Inr s1"
    and st': "(case qc_ref (blk s1 b2) of None \<Rightarrow> Inr s1 | Some b1 \<Rightarrow>
      if decision (blk s1 b1) \<noteq> 0 then Inr s1 else commit_if_chain b2 b1 (raise_lock b1 s1)) = Inr st'"
    by (auto simp: update_stages res_iff)
  have "appends (raise_lock b1 s1) st' = appends s1 st'" for b1 by (rule appends_left) (simp_all add: raise_lock_def)
  then have "appends s1 st'"
    using st' appends_commit_if_chain [of b2 _ "raise_lock _ s1" st']
    by (cases "qc_ref (blk s1 b2)") (auto split: if_split_asm)
  then show ?thesis using appends_trans appends_update_hqc [OF s1] by blast
qed

lemma appends_answer_proposal [simp]: "appends st (answer_proposal E prop op st)"
  by (auto simp: answer_proposal_def on_qc_finish_def appends_def Let_def split: option.split)

lemma appends_on_receive_proposal:
  assumes "on_receive_proposal E prop st = Inr st'"
  shows "appends st st'"
proof -
  from assms obtain st1 op where "update (prop_blk prop) st = Inr st1" "st' = answer_proposal E prop op st1"
    by (auto simp: on_receive_proposal_stages bind_Inr_iff)
  then show ?thesis using appends_trans appends_update appends_answer_proposal by metis
qed

lemma appends_put_cert [simp]: "appends (put_cert r q st) st' = appends st st'"
  by (simp add: appends_def)

lemma appends_finish_hqc: "update_hqc r q st = Inr st1 \<Longrightarrow> appends st (on_qc_finish r st1)"
  using appends_trans [OF appends_update_hqc appends_finish] .

lemma appends_count_own_vote:
  assumes "count_own_vote E r v pc st = Inr st'"
  shows "appends st st'"
proof -
  define q0 where "q0 = (case self_qc (blk st r) of None \<Rightarrow> create_quorum_cert E (sch st) (config st) (hash (blk st r)) | Some q \<Rightarrow> q)"
  from assms obtain q where "(if qc_has_n (nmaj st) q then
      bind (update_hqc r (Some (qc_compute E q)) (put_cert r (qc_compute E q) st)) (\<lambda>st. Inr (on_qc_finish r st))
      else Inr (put_cert r q st)) = Inr st'"
    unfolding count_own_vote_def q0_def [symmetric] Let_def bind_Inr_iff by blast
  then show ?thesis
    using appends_finish_hqc [of r _ "put_cert r _ st"] by (auto simp: bind_Inr_iff appends_same split: if_split_asm)
qed

lemma appends_on_receive_vote:
  assumes "on_receive_vote E v st = Inr st'"
  shows "appends st st'"
proof -
  from assms obtain r pc where r: "get_delivered_blk (v_blk_hash v) st = Inr r" "v_cert v = Some pc"
    by (auto simp: on_receive_vote_def bind_Inr_iff split: option.split_asm)
  let ?s = "set_blk r (\<lambda>b. b\<lparr>voted := insert (voter v) (voted b)\<rparr>) st"
  have "st' = st \<or> st' = ?s \<or> count_own_vote E r (voter v) pc ?s = Inr st'"
    using assms r by (auto simp: on_receive_vote_def Let_def split: if_split_asm)
  then show ?thesis using appends_count_own_vote [of E r "voter v" pc ?s st'] by (auto simp: appends_def)
qed

lemma record_latency_outs [simp]:
  "outs (record_latency r now st) = outs st" "qc_waiting (record_latency r now st) = qc_waiting st"
  by (simp_all add: record_latency_def Let_def split: option.split)

lemma on_deliver_blk_outs: "on_deliver_blk r now st = Inr (f, st') \<Longrightarrow> outs st' = outs st \<and> qc_waiting st' = qc_waiting st"
  by (auto simp: on_deliver_blk_def Let_def bind_Inr_iff split: if_split_asm)

lemma appends_process_block:
  assumes "process_block E r adj now st = Inr (prop, st')"
  shows "appends st st'"
proof -
  from assms obtain f s1 s2 s3 s4 v where d: "on_deliver_blk r now (ensure_self_qc E r st) = Inr (f, s1)"
    and u: "update r s1 = Inr s2" and a: "adjust_height r adj s2 = Inr s3" and v: "on_receive_vote E v s3 = Inr s4"
    and st': "st' = emit (OutPropose prop) s4"
    by (auto simp: process_block_stages bind_Inr_iff)
  have "appends s1 s2 = appends st s2"
    by (rule appends_left) (use on_deliver_blk_outs [OF d] in \<open>simp_all add: ensure_self_qc_def\<close>)
  moreover have "appends s3 s4 = appends s2 s4"
    by (rule appends_left) (use a in \<open>auto simp: adjust_height_def split: if_split_asm\<close>)
  ultimately have "appends st s4"
    using appends_trans [of st s2 s4] appends_update [OF u] appends_on_receive_vote [OF v] by simp
  then show ?thesis unfolding st' by (rule appends_emit)
qed

lemma new_blk_outs: "new_blk E ps cm ex q st = Inr (r, st') \<Longrightarrow> outs st' = outs st \<and> qc_waiting st' = qc_waiting st"
  by (auto simp: new_blk_def bind_Inr_iff case_prod_unfold Let_def)

lemma appends_on_propose:
  assumes "on_propose E cm ps ex t1 t2 t3 st = Inr (r, st')"
  shows "appends st st'"
proof -
  have "ps \<noteq> []" using assms by (auto simp: on_propose_def)
  with assms obtain nps s1 prp s2 where n: "new_blk E nps cm ex (map_option fst (hqc st)) (st\<lparr>tails := tails st - set ps\<rparr>) = Inr (r, s1)"
    and b: "process_block E r True t2 (s1\<lparr>b_normal_height := height (blk s1 r)\<rparr>) = Inr (prp, s2)"
    and st': "st' = finish_propose r prp t1 t3 s2"
    by (cases ps) (auto simp: on_propose_stages bind_Inr_iff)
  have "appends (s1\<lparr>b_normal_height := height (blk s1 r)\<rparr>) s2 = appends st s2"
    by (rule appends_left) (use new_blk_outs [OF n] in simp_all)
  then have "appends st s2" using appends_process_block [OF b] by simp
  moreover have "appends s2 st'" unfolding st' finish_propose_def Let_def by (auto simp: appends_def)
  ultimately show ?thesis by (rule appends_trans)
qed

lemma appends_resolve_ready: "resolve_ready stale n ch st = Inr st' \<Longrightarrow> appends st st'"
proof (induction n arbitrary: ch st)
  case (Suc n)
  from Suc.prems consider "find_ready st ch (rdy_queue st) = Inr None"
    | h r where "find_ready st ch (rdy_queue st) = Inr (Some (h, r))"
    by (cases "find_ready st ch (rdy_queue st)") (simp_all, metis not_None_eq surj_pair)
  then show ?case
  proof cases
    case (2 h r)
    let ?s = "st\<lparr>rdy_queue := remove1 h (rdy_queue st), piped_queue := remove1 (stale h) (piped_queue st)\<rparr>"
    obtain s2 where u: "update_hqc r (self_qc (blk st r)) ?s = Inr s2"
      and rec: "resolve_ready stale n (hash (blk s2 r)) (on_qc_finish r s2) = Inr st'"
      by (rule resolve_ready_round [OF Suc.prems 2]) simp
    have "appends ?s st'" by (rule appends_trans [OF appends_finish_hqc [OF u] Suc.IH [OF rec]])
    then show ?thesis by (simp add: appends_def)
  qed (use Suc.prems in simp)
qed simp

lemma appends_finish_relay:
  assumes "finish_relay stale r q st = Inr st'"
  shows "appends st st'"
proof -
  have u: "appends st (on_qc_finish r st1)" if "update_hqc r (Some q) (st\<lparr>piped_queue := hs\<rparr>) = Inr st1" for hs st1
    using appends_finish_hqc [OF that] by (simp add: appends_def)
  have u0: "appends st (on_qc_finish r st1)" if "update_hqc r (Some q) st = Inr st1" for st1
    using appends_finish_hqc [OF that] .
  show ?thesis
  proof (cases "piped_queue st")
    case Nil
    then show ?thesis using assms by (auto simp: finish_relay_def bind_Inr_iff intro: u0)
  next
    case (Cons h hs)
    then have "(\<exists>st1. update_hqc r (Some q) st = Inr st1 \<and> st' = on_qc_finish r st1) \<or> appends st st' \<or>
      (\<exists>st1. update_hqc r (Some q) (st\<lparr>piped_queue := hs\<rparr>) = Inr st1 \<and> pop_and_resolve stale r (on_qc_finish r st1) = Inr st')"
      using assms by (auto simp: finish_relay_def bind_Inr_iff appends_same split: if_split_asm)
    then show ?thesis
      using u0 u appends_trans appends_resolve_ready unfolding pop_and_resolve_def by metis
  qed
qed

lemma appends_root_vote:
  assumes "root_vote E r v pc q st = Inr st'"
  shows "appends st st'"
proof -
  have u: "appends st (on_qc_finish r st1)" if "update_hqc r q1 (put_cert r q2 st) = Inr st1" for q1 q2 st1
    using appends_finish_hqc [OF that] by simp
  show ?thesis using assms
    by (auto simp: root_vote_def Let_def bind_Inr_iff appends_same split: if_split_asm intro: u)
qed

lemma appends_propose_piped: "propose_piped E cm ps c now st = Inr st' \<Longrightarrow> appends st st'"
  by (auto simp: propose_piped_def Let_def bind_Inr_iff appends_def dest!: new_blk_outs)

lemma dispatch_log:
  assumes "dispatch E x b = Inr b'"
  shows "consensus_log (app b') = consensus_log (app b) @ executed [x] \<and> execution_log (app b') = execution_log (app b) @ decided [x]"
  using assms
  by (cases x) (auto simp: do_broadcast_proposal_def do_vote_def do_decide_def do_consensus_def Let_def bind_Inr_iff
      split: option.split_asm)

lemma dispatch_all_log:
  assumes "fold_res (dispatch E) xs b = Inr b'"
  shows "consensus_log (app b') = consensus_log (app b) @ executed xs \<and> execution_log (app b') = execution_log (app b) @ decided xs"
  using assms
proof (induction xs arbitrary: b)
  case (Cons x xs)
  then obtain b1 where d: "dispatch E x b = Inr b1" and f: "fold_res (dispatch E) xs b1 = Inr b'" by (auto simp: bind_Inr_iff)
  show ?case using dispatch_log [OF d] Cons.IH [OF f] executed_append [of "[x]" xs] decided_append [of "[x]" xs] by simp
qed simp

lemma run_core_sync:
  assumes "run_core E f b = Inr b'" "in_sync b" "\<And>st'. f (hsc b) = Inr st' \<Longrightarrow> appends (hsc b) st'"
  shows "in_sync b'"
proof -
  from assms(1) obtain st where f: "f (hsc b) = Inr st"
    and d: "fold_res (dispatch E) (drop (length (outs (hsc b))) (outs st)) (b\<lparr>hsc := st\<rparr>) = Inr b'"
    by (auto simp: run_core_def bind_Inr_iff)
  obtain xs where xs: "outs st = outs (hsc b) @ xs" using assms(3) [OF f] by (auto simp: appends_def)
  have "hsc b' = st" using run_core_hsc [OF assms(1)] f by simp
  with dispatch_all_log [OF d] assms(2) xs show ?thesis by (simp add: in_sync_def)
qed

section \<open>Invariants of the handlers\<close>

text \<open>What the application and the clients see of the state, and what it depends on.\<close>

definition user_view ::
  "('p, 'k, 's, 'b) base \<Rightarrow> app_event list \<times> (uint256 \<times> nat) list \<times> (uint256 \<times> nat) list \<times> 's out_event list" where
  "user_view b = (app b, decision_waiting b, cmd_pending b, outs (hsc b))"

lemma user_view_hsc [simp]: "outs st = outs (hsc b) \<Longrightarrow> user_view (b\<lparr>hsc := st\<rparr>) = user_view b"
  by (simp add: user_view_def)

lemma fetch_view [simp]:
  "user_view (fetch_send E h p b) = user_view b"
  "user_view (fetch_add_replica E h p f b) = user_view b"
  "user_view (async_fetch_blk E h q f b) = user_view b"
  "user_view (async_deliver_blk E h p b) = user_view b"
  "user_view (on_fetch_blk r b) = user_view b"
  by (simp_all add: user_view_def fetch_send_def fetch_add_replica_def async_fetch_blk_def async_deliver_blk_def
      on_fetch_blk_def Let_def split: option.split)

lemma fold_view:
  assumes "\<And>x b. user_view (f x b) = user_view b"
  shows "user_view (fold f xs b) = user_view b"
  by (induction xs arbitrary: b) (simp_all add: assms)

lemma fold_fetch_view [simp]:
  "user_view (fold (fetch_send E h) xs b) = user_view b"
  "user_view (fold (\<lambda>h. async_fetch_blk E h q f) hs b) = user_view b"
  "user_view (fold (\<lambda>h. async_deliver_blk E h p) hs b) = user_view b"
  "user_view (fold on_fetch_blk rs b) = user_view b"
  by (simp_all add: fold_view)

lemma later_view [simp]: "user_view (later j b) = user_view b" "user_view (send m b) = user_view b"
  "user_view (b\<lparr>jobs := js\<rparr>) = user_view b"
  by (simp_all add: user_view_def)

lemma get_blocks_outs: "get_blocks E n s st = Inr (rs, st') \<Longrightarrow> outs st' = outs st"
  by (induction n arbitrary: s st rs) (fastforce simp: bind_Inr_iff store_blk_def Let_def case_prod_unfold)+

lemma send_relay_view: "send_relay E h q b = Inr b' \<Longrightarrow> user_view b' = user_view b"
  by (auto simp: send_relay_def bind_Inr_iff)

lemma pop_piped_outs: "pop_piped r st = Inr st' \<Longrightarrow> outs st' = outs st"
  by (auto simp: pop_piped_def bind_Inr_iff split: if_split_asm)

lemma inner_vote_view: "inner_vote E r v pc q b = Inr b' \<Longrightarrow> user_view b' = user_view b"
  by (auto simp: inner_vote_def Let_def bind_Inr_iff split: if_split_asm dest!: send_relay_view pop_piped_outs)

lemma deliver_cont_view:
  assumes "deliver_cont E r ok now b = Inr b'"
  shows "user_view b' = user_view b"
proof (cases ok)
  case True
  with assms obtain f where d: "base_on_deliver_blk E r now b = Inr (f, b')" by (auto simp: deliver_cont_def bind_Inr_iff)
  then have "app b' = app b \<and> decision_waiting b' = decision_waiting b \<and> cmd_pending b' = cmd_pending b"
    by (auto simp: base_on_deliver_blk_def Let_def bind_Inr_iff split: if_split_asm)
  moreover have "outs (hsc b') = outs (hsc b)" using base_on_deliver_hsc [OF d] on_deliver_blk_outs by blast
  ultimately show ?thesis by (simp add: user_view_def)
qed (use assms in \<open>simp add: deliver_cont_def\<close>)

lemma fetched_cont_view: "fetched_cont E h p b = Inr b' \<Longrightarrow> user_view b' = user_view b"
  by (auto simp: fetched_cont_def Let_def bind_Inr_iff split: option.split_asm if_split_asm)

lemma resp_cont_view: "resp_cont E p hs b = Inr b' \<Longrightarrow> user_view b' = user_view b"
  by (auto simp: resp_cont_def bind_Inr_iff)

lemma do_vote_cont_view: "do_vote_cont E p v prid b = Inr b' \<Longrightarrow> user_view b' = user_view b"
  by (auto simp: do_vote_cont_def bind_Inr_iff split: if_split_asm)

lemma propose_handler_view: "propose_handler E msg peer b = Inr b' \<Longrightarrow> user_view b' = user_view b"
  by (auto simp: propose_handler_def MsgPropose_parse_def proposal_unserialize_def store_blk_def Let_def bind_Inr_iff
      case_prod_unfold split: option.split_asm if_split_asm)

text \<open>
  A property of this view that survives every call into the core is kept by every step of the
  network layer, except for the arrival of a command, which is left to the client of the contract.
\<close>

locale handler_invariant =
  fixes P :: "('p, 'k, 's, 'b) base \<Rightarrow> bool"
  assumes frame: "P b \<Longrightarrow> user_view b' = user_view b \<Longrightarrow> P b'"
    and run_core_keeps: "P b \<Longrightarrow> run_core E f b = Inr b' \<Longrightarrow> (\<And>st'. f (hsc b) = Inr st' \<Longrightarrow> appends (hsc b) st') \<Longrightarrow> P b'"
    and commands_keep: "P b \<Longrightarrow> P (snd (cmd_handler E prid b))"
begin

lemma normalise_piped_keeps:
  assumes "normalise_piped E prid h now b = Inr b'" "P b"
  shows "P b'"
proof -
  have "b' = b \<or> (\<exists>r. run_core E (\<lambda>st. bind (process_block E r False now st) (\<lambda>(_, st). Inr st)) b = Inr b')"
    using assms(1) by (auto simp: normalise_piped_def bind_Inr_iff split: if_split_asm)
  then show ?thesis
    using assms(2) run_core_keeps [of b E _ b'] appends_process_block by (fastforce simp: bind_Inr_iff)
qed

lemma vote_handler_keeps:
  assumes "vote_handler E prid msg peer now b = Inr b'" "P b"
  shows "P b'"
proof (cases peer)
  case None
  then show ?thesis using assms by (simp add: vote_handler_def)
next
  case (Some p)
  with assms(1) obtain v b1 r st where m: "MsgVote_parse E (sch (hsc b)) msg = Inr v"
    and n: "normalise_piped E prid (v_blk_hash v) now b = Inr b1"
    and r: "get_potentially_not_delivered_blk (v_blk_hash v) (hsc b1) = Inr r"
    and e: "ensure_cert E r (hsc b1) = Inr st"
    by (auto simp: vote_handler_def bind_Inr_iff)
  from assms(1) Some m n r e ensure_cert_frame(3) [OF e] have "user_view b' = user_view b1"
    by (auto simp: vote_handler_def Let_def bind_Inr_iff split: if_split_asm)
  then show ?thesis using normalise_piped_keeps [OF n assms(2)] frame by blast
qed

lemma vote_relay_handler_keeps:
  assumes "vote_relay_handler E prid stale msg peer now b = Inr b'" "P b"
  shows "P b'"
proof (cases peer)
  case None
  then show ?thesis using assms by (simp add: vote_relay_handler_def)
next
  case (Some p)
  with assms(1) obtain v b1 r st where m: "MsgRelay_parse E (sch (hsc b)) msg = Inr v"
    and n: "normalise_piped E prid (vr_blk_hash v) now b = Inr b1"
    and r: "get_potentially_not_delivered_blk (vr_blk_hash v) (hsc b1) = Inr r"
    and e: "ensure_cert E r (hsc b1) = Inr st"
    by (auto simp: vote_relay_handler_def bind_Inr_iff)
  let ?b = "b1\<lparr>hsc := st\<lparr>piped_queue := tl (piped_queue st)\<rparr>\<rparr>"
  from assms(1) Some m n r e ensure_cert_frame(3) [OF e]
  have j: "run_core E (pop_and_resolve stale r) ?b = Inr b' \<or> user_view b' = user_view b1"
    by (auto simp: vote_relay_handler_def Let_def bind_Inr_iff split: if_split_asm)
  have "P b1" using normalise_piped_keeps [OF n assms(2)] .
  then have s: "P ?b" by (rule frame) (simp add: ensure_cert_frame(3) [OF e])
  from j show ?thesis
  proof
    assume "run_core E (pop_and_resolve stale r) ?b = Inr b'"
    from run_core_keeps [OF s this] show ?thesis using appends_resolve_ready unfolding pop_and_resolve_def by blast
  qed (use \<open>P b1\<close> frame in blast)
qed

lemma vote_cont_keeps:
  assumes "vote_cont E prid r v ok b = Inr b'" "P b"
  shows "P b'"
  using assms
  by (auto simp: vote_cont_def bind_Inr_iff split: if_split_asm
      intro: frame inner_vote_view run_core_keeps appends_root_vote)

lemma relay_cont_keeps:
  assumes "relay_cont E prid stale r v ok b = Inr b'" "P b"
  shows "P b'"
proof -
  have p: "P (b\<lparr>hsc := st\<rparr>)" if "outs st = outs (hsc b)" for st
    by (rule frame [OF assms(2)]) (simp add: that)
  have f: "P b'" if "run_core E (finish_relay stale r q) (b\<lparr>hsc := st\<rparr>) = Inr b'" "outs st = outs (hsc b)" for q st
    using run_core_keeps [OF p [OF that(2)] that(1)] appends_finish_relay by blast
  have g: "P b'" if "send_relay E h q (b\<lparr>hsc := st\<rparr>) = Inr b'" "outs st = outs (hsc b)" for h q st
    using frame [OF p [OF that(2)] send_relay_view [OF that(1)]] .
  show ?thesis
    using assms
    by (cases "self_qc (bblk b r)")
       (auto simp: relay_cont_def Let_def bind_Inr_iff split: if_split_asm intro: p elim: f g)
qed

lemma beat_cont_keeps:
  assumes "beat_cont E prid ps c now t1 t2 t3 b = Inr b'" "P b"
  shows "P b'"
proof -
  have p: "appends st st'" if "bind (on_propose E cm ps [] t1 t2 t3 (st\<lparr>last_block_time := now\<rparr>)) (\<lambda>(_, st). Inr st) = Inr st'" for cm st st'
    using that appends_on_propose by (fastforce simp: bind_Inr_iff appends_def)
  show ?thesis
    using assms by (auto simp: beat_cont_def Let_def split: if_split_asm intro: run_core_keeps p appends_propose_piped)
qed

lemma run_job_keeps: "run_job E a j b = Inr b' \<Longrightarrow> P b \<Longrightarrow> P b'"
  by (cases j) (auto simp: proposal_cont_def intro: frame resp_cont_view fetched_cont_view deliver_cont_view do_vote_cont_view
      run_core_keeps appends_on_receive_proposal vote_cont_keeps relay_cont_keeps beat_cont_keeps)

lemma step_keeps:
  assumes "base_step E b b'" "P b"
  shows "P b' \<or> (\<exists>h cb. b' = exec_command h cb b)"
  using assms(1)
proof cases
  case (propose_msg msg peer)
  then show ?thesis using frame [OF assms(2) propose_handler_view] by blast
next
  case (resp_msg msg)
  then have "user_view b' = user_view b"
    by (auto simp: resp_blk_handler_def MsgRespBlock_parse_def bind_Inr_iff dest!: get_blocks_outs)
  then show ?thesis using frame [OF assms(2)] by blast
next
  case (req_msg msg peer)
  then have "user_view b' = user_view b" by (auto simp: req_blk_handler_def bind_Inr_iff split: option.split_asm)
  then show ?thesis using frame [OF assms(2)] by blast
next
  case (timer h)
  then have "user_view b' = user_view b" by (simp add: fetch_timeout_cb_def split: option.split)
  then show ?thesis using frame [OF assms(2)] by blast
next
  case (commands prid again)
  then show ?thesis using commands_keep [OF assms(2), of E prid] by simp
next
  case (job xs j ys a)
  then show ?thesis using run_job_keeps frame [OF assms(2), of "b\<lparr>jobs := xs @ ys\<rparr>"] by auto
qed (use assms(2) vote_handler_keeps vote_relay_handler_keeps in blast)+

end

lemma cmd_loop_sync: "in_sync b \<Longrightarrow> in_sync (snd (cmd_loop E prid q b))"
  by (induction E prid q b rule: cmd_loop.induct) (auto simp: Let_def accept_command_def in_sync_def)

interpretation sync: handler_invariant in_sync
proof unfold_locales
  show "in_sync b'" if "in_sync b" "user_view b' = user_view b" for b b' :: "('a, 'b, 'c, 'd) base"
    using that by (simp add: in_sync_def user_view_def)
  show "in_sync (snd (cmd_handler E prid b))" if "in_sync b" for b :: "('a, 'b, 'c, 'd) base" and E prid
    using that cmd_loop_sync by (simp add: cmd_handler_def)
qed (rule run_core_sync)

lemma base_step_sync:
  assumes "base_step E b b'" "in_sync b"
  shows "in_sync b'"
  using sync.step_keeps [OF assms] assms(2) by (auto simp: exec_command_def in_sync_def)

lemma base_reachable_facts:
  assumes "base_reachable E b"
  shows "reachable E (hsc b)" "in_sync b"
proof -
  from assms obtain b0 where b0: "started E b0" "(base_low_step E)\<^sup>*\<^sup>* b0 b" by (auto simp: base_reachable_def)
  from base_sys.reach_inv [OF b0] show "reachable E (hsc b)" by simp
  obtain st n where st: "booted E st" "hsc b0 = st\<lparr>numberOfChildren := n\<rparr>" using started_boot(1) [OF b0(1)] by blast
  then have "outs (hsc b0) = []" using boot_shape unfolding booted_def by (metis core.select_convs(24) core.surjective core.update_convs(20))
  then have "in_sync b0" using started_boot(3) [OF b0(1)] by (simp add: in_sync_def)
  with b0(2) show "in_sync b"
    by (induction rule: rtranclp_induct) (auto simp: base_low_step_def intro: base_step_sync)
qed

end
