(* ===== verification/Hs_Pacemaker.thy ===== *)
theory Hs_Pacemaker
  imports Hs_Net_Log "HOL-Library.Multiset"
begin

text \<open>
  The liveness gadgets of \<^verbatim>\<open>include/hotstuff/liveness.h\<close>: parent selection
  (\<open>PMHighTail\<close>), the beat that waits for a quorum certificate (\<open>PMWaitQC\<close>), their
  combinations \<open>PaceMakerDummy\<close> and \<open>PaceMakerDummyFixed\<close>, and the rotating proposer
  (\<open>PMRoundRobinProposer\<close>, \<open>PaceMakerRR\<close>).

  A promise the gadget creates for a beat is a number, given out in order. The promise stored in
  \<open>qc_waiting\<close> under a block is named by the block; the lambdas attached to it are the
  continuations listed under that block, and they run when the core reports
  \<open>OutQcFinish\<close>. A lambda that is attached to a promise already resolved runs at once.
  Resolving a beat appends it to a log: what its own subscriber does (\<open>beat_cont\<close>) is a
  separate step, as for every lambda of the network layer. The iteration order of
  \<open>std::set<block_t>\<close> is that of the pointers, so the tails are passed as a list in any order.
\<close>

section \<open>Parent selection\<close>

record PMHighTail =
  hqc_tail :: blkref
  parent_limit :: "32 word"

definition check_ancestry :: "('p, 'k, 's, 'b) core \<Rightarrow> blkref \<Rightarrow> blkref \<Rightarrow> bool res" where
  "check_ancestry st a b =
     bind (run_loop (walk_down (heap (mem st)) (height (blk st a)) b)) (\<lambda>x. Inr (x = a))"

definition try_tail :: "('p, 'k, 's, 'b) core \<Rightarrow> blkref \<Rightarrow> blkref \<Rightarrow> blkref \<Rightarrow> blkref res" where
  "try_tail st h t best =
     bind (check_ancestry st h t) (\<lambda>anc.
       Inr (if anc \<and> height (blk st t) > height (blk st best) then t else best))"

text \<open>The lambda of \<open>reg_hqc_update\<close>.\<close>

definition tail_hqc_update :: "('p, 'k, 's, 'b) core \<Rightarrow> blkref list \<Rightarrow> PMHighTail \<Rightarrow> PMHighTail res" where
  "tail_hqc_update st ts pm =
     bind (deref (hqc st)) (\<lambda>(h, _).
     bind (fold_res (try_tail st h) ts h) (\<lambda>t. Inr (pm\<lparr>hqc_tail := t\<rparr>)))"

definition tail_proposal :: "Proposal \<Rightarrow> PMHighTail \<Rightarrow> PMHighTail" where
  "tail_proposal p pm = pm\<lparr>hqc_tail := prop_blk p\<rparr>"

definition tail_receive_proposal :: "('p, 'k, 's, 'b) core \<Rightarrow> Proposal \<Rightarrow> PMHighTail \<Rightarrow> PMHighTail res" where
  "tail_receive_proposal st p pm =
     bind (deref (hqc st)) (\<lambda>(h, _).
     bind (try_tail st h (prop_blk p) (hqc_tail pm)) (\<lambda>t. Inr (pm\<lparr>hqc_tail := t\<rparr>)))"

definition tail_init :: "32 word \<Rightarrow> ('p, 'k, 's, 'b) core \<Rightarrow> PMHighTail" where
  "tail_init lim st = \<lparr>hqc_tail = b0 st, parent_limit = lim\<rparr>"

definition get_parents :: "PMHighTail \<Rightarrow> blkref list" where
  "get_parents pm = [hqc_tail pm]"

fun tail_event ::
  "('p, 'k, 's, 'b) core \<Rightarrow> blkref list \<Rightarrow> 's out_event \<Rightarrow> PMHighTail \<Rightarrow> PMHighTail res" where
  "tail_event st ts OutHqcUpdate pm = tail_hqc_update st ts pm"
| "tail_event st ts (OutPropose p) pm = Inr (tail_proposal p pm)"
| "tail_event st ts (OutReceiveProposal p) pm = tail_receive_proposal st p pm"
| "tail_event st ts _ pm = Inr pm"

section \<open>Waiting for the certificate of the last proposal\<close>

record PMWaitQC =
  pending_beats :: "nat list"
  last_proposed :: blkref
  locked :: bool
  qc_then :: "(blkref \<times> nat) list"
  beat_log :: "(nat \<times> ReplicaID) list"
  next_beat :: nat

definition resolve_beat :: "nat \<Rightarrow> ReplicaID \<Rightarrow> PMWaitQC \<Rightarrow> PMWaitQC" where
  "resolve_beat n prid w = w\<lparr>beat_log := beat_log w @ [(n, prid)]\<rparr>"

text \<open>\<open>gettimeofday\<close> against the time of the last block, in milliseconds.\<close>

definition latency_passed :: "timeval \<Rightarrow> ('p, 'k, 's, 'b) core \<Rightarrow> bool" where
  "latency_passed now st \<longleftrightarrow>
     c_div (usec_between (last_block_time st) now) 1000 > sint (piped_latency (config st))"

text \<open>The second reason to issue an extra block: the pipeline has run more than
  \<open>async_blocks + 10\<close> blocks ahead of the last normal block. The comparison is one of unsigned
  32-bit numbers.\<close>

definition needs_recovery :: "timeval \<Rightarrow> ('p, 'k, 's, 'b) core \<Rightarrow> bool res" where
  "needs_recovery now st =
     (if piped_queue st \<noteq> [] \<and> b_normal_height st > 0 then
        bind (deref (find_blk (last (piped_queue st)) (mem st))) (\<lambda>r.
          let ahead = async_blocks (config st) + 10 in
          Inr (height (blk st r) > ahead \<and> b_normal_height st < height (blk st r) - ahead \<and>
               latency_passed now st))
      else Inr False)"

definition schedule_next ::
  "ReplicaID \<Rightarrow> timeval \<Rightarrow> PMWaitQC \<Rightarrow> ('p, 'k, 's, 'b) core \<Rightarrow> (PMWaitQC \<times> ('p, 'k, 's, 'b) core) res" where
  "schedule_next prid now w st =
     (case pending_beats w of [] \<Rightarrow> Inr (w, st) | n # ns \<Rightarrow>
      if locked w then
        if length (piped_queue st) < async_blocks64 st \<and> \<not> piped_submitted st \<and> latency_passed now st
        then Inr (resolve_beat n prid (w\<lparr>pending_beats := ns\<rparr>), st\<lparr>piped_submitted := True\<rparr>)
        else bind (needs_recovery now st) (\<lambda>rec.
          Inr (if rec then (resolve_beat n prid (w\<lparr>pending_beats := ns\<rparr>), st\<lparr>piped_submitted := True\<rparr>)
               else (w, st)))
      else
        let w = w\<lparr>pending_beats := ns, locked := True\<rparr> in
        case async_qc_finish (last_proposed w) st of
          (Resolved, st) \<Rightarrow> Inr (resolve_beat n prid w, st)
        | (WaitingFor r, st) \<Rightarrow> Inr (w\<lparr>qc_then := qc_then w @ [(r, n)]\<rparr>, st))"

text \<open>The lambda of \<open>update_last_proposed\<close>, and the ones of \<open>schedule_next\<close> that wait for a
  block's certificate.\<close>

definition wait_proposal ::
  "ReplicaID \<Rightarrow> timeval \<Rightarrow> Proposal \<Rightarrow> PMWaitQC \<Rightarrow> ('p, 'k, 's, 'b) core \<Rightarrow> (PMWaitQC \<times> ('p, 'k, 's, 'b) core) res" where
  "wait_proposal prid now p w st = schedule_next prid now (w\<lparr>last_proposed := prop_blk p, locked := False\<rparr>) st"

definition wait_qc_finish :: "ReplicaID \<Rightarrow> blkref \<Rightarrow> PMWaitQC \<Rightarrow> PMWaitQC" where
  "wait_qc_finish prid r w =
     fold (\<lambda>(_, n). resolve_beat n prid) (filter (\<lambda>(q, _). q = r) (qc_then w))
       (w\<lparr>qc_then := filter (\<lambda>(q, _). q \<noteq> r) (qc_then w)\<rparr>)"

definition wait_init :: "('p, 'k, 's, 'b) core \<Rightarrow> PMWaitQC" where
  "wait_init st = \<lparr>pending_beats = [], last_proposed = b0 st, locked = False, qc_then = [],
     beat_log = [], next_beat = 0\<rparr>"

definition get_pending_size :: "PMWaitQC \<Rightarrow> nat" where
  "get_pending_size w = length (pending_beats w)"

definition get_current_proposal :: "PMWaitQC \<Rightarrow> blkref" where
  "get_current_proposal w = last_proposed w"

definition beat ::
  "ReplicaID \<Rightarrow> timeval \<Rightarrow> PMWaitQC \<Rightarrow> ('p, 'k, 's, 'b) core \<Rightarrow> (nat \<times> PMWaitQC \<times> ('p, 'k, 's, 'b) core) res" where
  "beat prid now w st =
     bind (schedule_next prid now
            (w\<lparr>pending_beats := pending_beats w @ [next_beat w], next_beat := Suc (next_beat w)\<rparr>) st)
       (\<lambda>(w', st'). Inr (next_beat w, w', st'))"

section \<open>PaceMakerDummy and PaceMakerDummyFixed\<close>

record PaceMakerDummy =
  pm_tail :: PMHighTail
  pm_wait :: PMWaitQC
  fixed_proposer :: "ReplicaID option"    \<comment> \<open>\<open>None\<close> for \<open>PaceMakerDummy\<close> itself\<close>

definition pm_init :: "32 word \<Rightarrow> ReplicaID option \<Rightarrow> ('p, 'k, 's, 'b) core \<Rightarrow> PaceMakerDummy" where
  "pm_init lim fx st = \<lparr>pm_tail = tail_init lim st, pm_wait = wait_init st, fixed_proposer = fx\<rparr>"

definition get_proposer :: "PaceMakerDummy \<Rightarrow> ('p, 'k, 's, 'b) core \<Rightarrow> ReplicaID" where
  "get_proposer pm st = (case fixed_proposer pm of None \<Rightarrow> my_id st | Some p \<Rightarrow> p)"

definition beat_resp :: "ReplicaID \<Rightarrow> PaceMakerDummy \<Rightarrow> ReplicaID" where
  "beat_resp last_proposer pm = (case fixed_proposer pm of None \<Rightarrow> last_proposer | Some p \<Rightarrow> p)"

text \<open>What the gadget does on one report of the core: the lambdas of \<open>PMHighTail\<close> were
  registered before those of \<open>PMWaitQC\<close>.\<close>

definition pm_event ::
  "blkref list \<Rightarrow> timeval \<Rightarrow> 's out_event \<Rightarrow> PaceMakerDummy \<times> ('p, 'k, 's, 'b) core \<Rightarrow>
     (PaceMakerDummy \<times> ('p, 'k, 's, 'b) core) res" where
  "pm_event ts now e = (\<lambda>(pm, st).
     bind (tail_event st ts e (pm_tail pm)) (\<lambda>t.
     let pm = pm\<lparr>pm_tail := t\<rparr> in
     case e of
       OutPropose p \<Rightarrow>
         bind (wait_proposal (get_proposer pm st) now p (pm_wait pm) st) (\<lambda>(w, st). Inr (pm\<lparr>pm_wait := w\<rparr>, st))
     | OutQcFinish r \<Rightarrow> Inr (pm\<lparr>pm_wait := wait_qc_finish (get_proposer pm st) r (pm_wait pm)\<rparr>, st)
     | _ \<Rightarrow> Inr (pm, st)))"

definition pm_events ::
  "blkref list \<Rightarrow> timeval \<Rightarrow> 's out_event list \<Rightarrow> PaceMakerDummy \<times> ('p, 'k, 's, 'b) core \<Rightarrow>
     (PaceMakerDummy \<times> ('p, 'k, 's, 'b) core) res" where
  "pm_events ts now es s = fold_res (pm_event ts now) es s"

definition pm_beat ::
  "timeval \<Rightarrow> PaceMakerDummy \<times> ('p, 'k, 's, 'b) core \<Rightarrow> (nat \<times> PaceMakerDummy \<times> ('p, 'k, 's, 'b) core) res" where
  "pm_beat now = (\<lambda>(pm, st).
     bind (beat (get_proposer pm st) now (pm_wait pm) st) (\<lambda>(n, w, st). Inr (n, pm\<lparr>pm_wait := w\<rparr>, st)))"

text \<open>What the network layer reads from the gadget.\<close>

definition pm_answers ::
  "PaceMakerDummy \<Rightarrow> ('p, 'k, 's, 'b) core \<Rightarrow> timeval \<Rightarrow> timeval \<Rightarrow> timeval \<Rightarrow> timeval \<Rightarrow> (uint256 \<Rightarrow> uint256) \<Rightarrow> answers" where
  "pm_answers pm st now t1 t2 t3 stale =
     \<lparr>ans_proposer = get_proposer pm st, ans_parents = get_parents (pm_tail pm),
      ans_current = get_current_proposal (pm_wait pm), ans_now = now, ans_t1 = t1, ans_t2 = t2, ans_t3 = t3,
      ans_stale = stale\<rparr>"

section \<open>The tail that is chosen\<close>

definition ancestor :: "('p, 'k, 's, 'b) core \<Rightarrow> blkref \<Rightarrow> blkref \<Rightarrow> bool" where
  "ancestor st a b \<longleftrightarrow> (\<exists>xs. is_path (heap (mem st)) a xs b)"

lemma check_ancestry_iff:
  assumes "heap_ok (mem st) (b0 st)" "a < nxt (mem st)" "b < nxt (mem st)"
  shows "check_ancestry st a b = Inr (ancestor st a b)"
  using walk_down_ok [OF assms(1,3,2)] by (auto simp: check_ancestry_def ancestor_def)

lemma try_tail_eq:
  assumes "heap_ok (mem st) (b0 st)" "h < nxt (mem st)" "t < nxt (mem st)"
  shows "try_tail st h t best =
    Inr (if ancestor st h t \<and> height (blk st t) > height (blk st best) then t else best)"
  by (simp add: try_tail_def check_ancestry_iff [OF assms])

lemma try_tails:
  assumes "heap_ok (mem st) (b0 st)" "h < nxt (mem st)" "\<forall>t \<in> set ts. t < nxt (mem st)" "ancestor st h best"
  shows "\<exists>t. fold_res (try_tail st h) ts best = Inr t \<and> ancestor st h t \<and> (t = best \<or> t \<in> set ts) \<and>
    height (blk st best) \<le> height (blk st t) \<and>
    (\<forall>u \<in> set ts. ancestor st h u \<longrightarrow> height (blk st u) \<le> height (blk st t))"
  using assms(3,4)
proof (induction ts arbitrary: best)
  case Nil
  then show ?case by simp
next
  case (Cons u ts)
  let ?b = "if ancestor st h u \<and> height (blk st u) > height (blk st best) then u else best"
  have "ancestor st h ?b" using Cons.prems by simp
  then obtain t where t: "fold_res (try_tail st h) ts ?b = Inr t" "ancestor st h t" "t = ?b \<or> t \<in> set ts"
    "height (blk st ?b) \<le> height (blk st t)"
    "\<forall>u \<in> set ts. ancestor st h u \<longrightarrow> height (blk st u) \<le> height (blk st t)"
    using Cons.IH [of ?b] Cons.prems by auto
  have "height (blk st best) \<le> height (blk st t)" "ancestor st h u \<longrightarrow> height (blk st u) \<le> height (blk st t)"
    using t(4) by (auto split: if_split_asm)
  then show ?case
    using t Cons.prems by (intro exI [of _ t]) (auto simp: try_tail_eq [OF assms(1,2)] split: if_split_asm)
qed

lemma ancestor_refl [simp]: "ancestor st a a"
  unfolding ancestor_def by (rule exI [of _ "[]"]) simp

section \<open>No beat is lost\<close>

text \<open>Where the beats given out are: resolved, waiting for a certificate, or pending.\<close>

definition beats :: "PMWaitQC \<Rightarrow> nat multiset" where
  "beats w = mset (map fst (beat_log w)) + mset (map snd (qc_then w)) + mset (pending_beats w)"

definition beats_ok :: "PMWaitQC \<Rightarrow> bool" where
  "beats_ok w \<longleftrightarrow> beats w = mset [0..<next_beat w]"

lemma resolve_beat_simps [simp]:
  "beats (resolve_beat n prid w) = add_mset n (beats w)"
  "next_beat (resolve_beat n prid w) = next_beat w"
  "last_proposed (resolve_beat n prid w) = last_proposed w"
  by (simp_all add: beats_def resolve_beat_def)

lemma async_qc_finish_frame:
  assumes "async_qc_finish r st = (p, st')"
  shows "mem st' = mem st" "b0 st' = b0 st" "outs st' = outs st" "my_id st' = my_id st" "hqc st' = hqc st"
  using assms by (auto simp: async_qc_finish_def split: if_split_asm)

text \<open>What \<open>schedule_next\<close> can do: nothing, answer the oldest beat with an extra block, or
  let it wait for the certificate of the last proposal.\<close>

lemma schedule_next_cases:
  assumes "schedule_next prid now w st = Inr (w', st')"
  obtains (same) "w' = w" "st' = st"
  | (issued) n ns where "pending_beats w = n # ns" "locked w"
      "w' = resolve_beat n prid (w\<lparr>pending_beats := ns\<rparr>)" "st' = st\<lparr>piped_submitted := True\<rparr>"
  | (now_done) n ns where "pending_beats w = n # ns" "\<not> locked w"
      "async_qc_finish (last_proposed w) st = (Resolved, st')"
      "w' = resolve_beat n prid (w\<lparr>pending_beats := ns, locked := True\<rparr>)"
  | (wait) n ns r where "pending_beats w = n # ns" "\<not> locked w"
      "async_qc_finish (last_proposed w) st = (WaitingFor r, st')"
      "w' = w\<lparr>pending_beats := ns, locked := True, qc_then := qc_then w @ [(r, n)]\<rparr>"
proof (cases "pending_beats w")
  case Nil
  then show ?thesis using assms same by (simp add: schedule_next_def)
next
  case (Cons n ns)
  show ?thesis
  proof (cases "locked w")
    case True
    then show ?thesis using assms Cons same issued
      by (auto simp: schedule_next_def bind_Inr_iff split: if_split_asm)
  next
    case False
    obtain p st1 where a: "async_qc_finish (last_proposed w) st = (p, st1)" by (cases "async_qc_finish (last_proposed w) st")
    then show ?thesis using assms Cons False now_done wait
      by (cases p) (auto simp: schedule_next_def Let_def)
  qed
qed

lemma schedule_next_beats:
  assumes "schedule_next prid now w st = Inr (w', st')"
  shows "beats w' = beats w \<and> next_beat w' = next_beat w \<and> last_proposed w' = last_proposed w"
  using assms by (cases rule: schedule_next_cases) (auto simp: beats_def resolve_beat_def)

lemma schedule_next_core:
  assumes "schedule_next prid now w st = Inr (w', st')"
  shows "mem st' = mem st \<and> b0 st' = b0 st \<and> outs st' = outs st \<and> my_id st' = my_id st \<and> hqc st' = hqc st"
  using assms by (cases rule: schedule_next_cases) (auto dest: async_qc_finish_frame)

lemma tame_wait:
  assumes "async_qc_finish r st = (p, st')"
  shows "(tame E)\<^sup>*\<^sup>* st st'"
proof -
  have "tame E st st'" using assms
    by (intro tame_graph core_step.wait) (auto simp: async_qc_finish_def idle_def Let_def split: if_splits)
  then show ?thesis by blast
qed

lemma schedule_next_run:
  assumes "schedule_next prid now w st = Inr (w', st')"
  shows "(tame E)\<^sup>*\<^sup>* st st'"
  using assms
proof (cases rule: schedule_next_cases)
  case (issued n ns)
  have "tame E st (st\<lparr>last_block_time := last_block_time st, piped_submitted := True, numberOfChildren := numberOfChildren st\<rparr>)"
    by (rule tame_timing)
  then show ?thesis using issued by auto
qed (auto intro: tame_wait)

lemma fold_resolve_beats:
  "beats (fold (\<lambda>(_, n). resolve_beat n prid) qs w) = mset (map snd qs) + beats w"
  "next_beat (fold (\<lambda>(_, n). resolve_beat n prid) qs w) = next_beat w"
  "last_proposed (fold (\<lambda>(_, n). resolve_beat n prid) qs w) = last_proposed w"
  by (induction qs arbitrary: w) auto

lemma wait_qc_finish_beats [simp]:
  "beats (wait_qc_finish prid r w) = beats w"
  "next_beat (wait_qc_finish prid r w) = next_beat w"
  "last_proposed (wait_qc_finish prid r w) = last_proposed w"
proof -
  have "mset (map snd (filter (\<lambda>(q, _). q = r) xs)) + mset (map snd (filter (\<lambda>(q, _). q \<noteq> r) xs)) = mset (map snd xs)"
    for xs :: "(blkref \<times> nat) list" by (induction xs) auto
  note split = this [of "qc_then w"]
  let ?w = "w\<lparr>qc_then := filter (\<lambda>(q, _). q \<noteq> r) (qc_then w)\<rparr>"
  have "beats (wait_qc_finish prid r w) = mset (map snd (filter (\<lambda>(q, _). q = r) (qc_then w))) + beats ?w"
    unfolding wait_qc_finish_def fold_resolve_beats ..
  also have "\<dots> = beats w" unfolding beats_def split [symmetric] by (simp add: ac_simps del: mset_map mset_filter)
  finally show "beats (wait_qc_finish prid r w) = beats w" .
qed (simp_all add: wait_qc_finish_def fold_resolve_beats)

lemma beats_same: "pending_beats w' = pending_beats w \<Longrightarrow> qc_then w' = qc_then w \<Longrightarrow> beat_log w' = beat_log w \<Longrightarrow> beats w' = beats w"
  by (simp add: beats_def)

lemma wait_proposal_beats:
  assumes "wait_proposal prid now p w st = Inr (w', st')"
  shows "beats w' = beats w \<and> next_beat w' = next_beat w \<and> last_proposed w' = prop_blk p"
proof -
  have "beats (w\<lparr>last_proposed := prop_blk p, locked := False\<rparr>) = beats w" by (rule beats_same) simp_all
  with schedule_next_beats [OF assms [unfolded wait_proposal_def]] show ?thesis by simp
qed

lemma beat_beats:
  assumes "beat prid now w st = Inr (n, w', st')" "beats_ok w"
  shows "beats_ok w' \<and> n = next_beat w \<and> last_proposed w' = last_proposed w"
proof -
  let ?w = "w\<lparr>pending_beats := pending_beats w @ [next_beat w], next_beat := Suc (next_beat w)\<rparr>"
  from assms(1) have s: "schedule_next prid now ?w st = Inr (w', st')" and n: "n = next_beat w"
    by (auto simp: beat_def bind_Inr_iff)
  have "beats ?w = add_mset (next_beat w) (beats w)" by (simp add: beats_def)
  then have "beats_ok ?w" using assms(2) by (simp add: beats_ok_def)
  with schedule_next_beats [OF s] n show ?thesis by (simp add: beats_ok_def)
qed

section \<open>The gadget beside the core\<close>

text \<open>The blocks the core reports are stored ones.\<close>

fun report_ok :: "('p, 'k, 's, 'b) core \<Rightarrow> 's out_event \<Rightarrow> bool" where
  "report_ok st OutHqcUpdate = (case hqc st of None \<Rightarrow> False | Some (r, _) \<Rightarrow> parent_ok (mem st) (b0 st) r)"
| "report_ok st (OutPropose p) = parent_ok (mem st) (b0 st) (prop_blk p)"
| "report_ok st (OutReceiveProposal p) = parent_ok (mem st) (b0 st) (prop_blk p)"
| "report_ok st _ = True"

definition tails_ok :: "('p, 'k, 's, 'b) core \<Rightarrow> blkref list \<Rightarrow> bool" where
  "tails_ok st ts \<longleftrightarrow> set ts = tails st \<and> list_all (parent_ok (mem st) (b0 st)) ts"

inductive pm_step ::
  "('p, 'k, 's, 'b) env \<Rightarrow> PaceMakerDummy \<times> ('p, 'k, 's, 'b) core \<Rightarrow> PaceMakerDummy \<times> ('p, 'k, 's, 'b) core \<Rightarrow> bool"
  for E where
  report: "core_low_step E st st' \<Longrightarrow> es = drop (length (outs st)) (outs st') \<Longrightarrow> list_all (report_ok st') es \<Longrightarrow>
    tails_ok st' ts \<Longrightarrow> pm_events ts now es (pm, st') = Inr s \<Longrightarrow> pm_step E (pm, st) s"
| ask: "pm_beat now (pm, st) = Inr (n, s) \<Longrightarrow> pm_step E (pm, st) s"

definition pm_started :: "('p, 'k, 's, 'b) env \<Rightarrow> PaceMakerDummy \<times> ('p, 'k, 's, 'b) core \<Rightarrow> bool" where
  "pm_started E s \<longleftrightarrow> booted E (snd s) \<and> (\<exists>lim fx. fst s = pm_init lim fx (snd s))"

definition pm_reachable :: "('p, 'k, 's, 'b) env \<Rightarrow> PaceMakerDummy \<times> ('p, 'k, 's, 'b) core \<Rightarrow> bool" where
  "pm_reachable E s \<longleftrightarrow> (\<exists>s0. pm_started E s0 \<and> (pm_step E)\<^sup>*\<^sup>* s0 s)"

text \<open>A beat that waits for a certificate waits on a promise the core still holds, or on one whose
  resolution is among the reports not seen yet.\<close>

definition awake :: "PMWaitQC \<Rightarrow> ('p, 'k, 's, 'b) core \<Rightarrow> 's out_event list \<Rightarrow> bool" where
  "awake w st es \<longleftrightarrow> (\<forall>(r, n) \<in> set (qc_then w). r \<in> qc_waiting st \<or> OutQcFinish r \<in> set es)"

fun pm_ok ::
  "('p, 'k, 's, 'b) env \<Rightarrow> 's out_event list \<Rightarrow> PaceMakerDummy \<times> ('p, 'k, 's, 'b) core \<Rightarrow> bool" where
  "pm_ok E es (pm, st) \<longleftrightarrow> reachable E st \<and> parent_ok (mem st) (b0 st) (hqc_tail (pm_tail pm)) \<and>
     parent_ok (mem st) (b0 st) (last_proposed (pm_wait pm)) \<and> beats_ok (pm_wait pm) \<and> awake (pm_wait pm) st es"

lemma core_step_appends:
  assumes "core_step E st st'"
  shows "appends st st'"
  using assms
proof cases
  case (wait r p)
  then show ?thesis by (auto simp: async_qc_finish_def appends_def split: if_split_asm)
qed (auto intro: appends_update_hqc appends_on_propose appends_process_block appends_on_receive_vote
    appends_on_receive_proposal appends_same simp: appends_emit dest: new_blk_outs on_deliver_blk_outs)

lemma schedule_next_awake:
  assumes "schedule_next prid now w st = Inr (w', st')" "awake w st es"
  shows "awake w' st' es"
  using assms(1)
proof (cases rule: schedule_next_cases)
  case (now_done n ns)
  then show ?thesis using assms(2)
    by (auto simp: awake_def resolve_beat_def async_qc_finish_def split: if_split_asm)
next
  case (wait n ns r)
  then show ?thesis using assms(2)
    by (auto simp: awake_def async_qc_finish_def split: if_split_asm)
qed (use assms(2) in \<open>auto simp: awake_def resolve_beat_def\<close>)

lemma fold_resolve_waits: "qc_then (fold (\<lambda>(_, n). resolve_beat n prid) qs w) = qc_then w"
  by (induction qs arbitrary: w) (auto simp: resolve_beat_def)

lemma wait_qc_finish_awake: "awake w st (OutQcFinish r # es) \<Longrightarrow> awake (wait_qc_finish prid r w) st es"
  by (auto simp: awake_def wait_qc_finish_def fold_resolve_waits)

lemma parent_ok_grows:
  assumes "graph_grows st st'" "parent_ok (mem st) (b0 st) p"
  shows "parent_ok (mem st') (b0 st') p"
proof -
  have "p < nxt (mem st)" using assms(2) by (simp add: parent_ok_def)
  moreover have "ref_ok st p" using assms(2) by (simp add: parent_ok_def ref_ok_def)
  ultimately show ?thesis using assms unfolding graph_grows_def parent_ok_def ref_ok_def by metis
qed

lemma tail_event_stored:
  assumes "tail_event st ts e t = Inr t'" "report_ok st e" "list_all (parent_ok (mem st) (b0 st)) ts"
    "parent_ok (mem st) (b0 st) (hqc_tail t)"
  shows "parent_ok (mem st) (b0 st) (hqc_tail t')"
proof (cases e)
  case OutHqcUpdate
  with assms obtain h q where h: "hqc st = Some (h, q)" "parent_ok (mem st) (b0 st) h"
    "fold_res (try_tail st h) ts h = Inr (hqc_tail t')"
    by (auto simp: tail_hqc_update_def bind_Inr_iff split: option.split_asm)
  show ?thesis using h(3) h(2)
    by (rule fold_res_inv)
       (use assms(3) in \<open>auto simp: try_tail_def bind_Inr_iff list_all_iff split: if_split_asm\<close>)
qed (use assms in \<open>auto simp: tail_proposal_def tail_receive_proposal_def try_tail_def bind_Inr_iff split: if_split_asm\<close>)

text \<open>One report keeps everything but the graph, which it does not touch.\<close>

lemma pm_event_ok:
  assumes "pm_event ts now e (pm, st) = Inr (pm', st')" "report_ok st e"
    "list_all (parent_ok (mem st) (b0 st)) ts" "pm_ok E (e # es) (pm, st)"
  shows "pm_ok E es (pm', st') \<and> mem st' = mem st \<and> b0 st' = b0 st \<and> hqc st' = hqc st"
proof -
  from assms(1) obtain t where t: "tail_event st ts e (pm_tail pm) = Inr t"
    by (auto simp: pm_event_def bind_Inr_iff)
  have tok: "parent_ok (mem st) (b0 st) (hqc_tail t)"
    using tail_event_stored [OF t assms(2,3)] assms(4) by simp
  show ?thesis
  proof (cases "\<exists>p. e = OutPropose p")
    case True
    then obtain p where p: "e = OutPropose p" by blast
    with assms(1) t obtain w prid where w: "wait_proposal prid now p (pm_wait pm) st = Inr (w, st')"
      and pm': "pm' = pm\<lparr>pm_tail := t, pm_wait := w\<rparr>"
      by (auto simp: pm_event_def Let_def bind_Inr_iff)
    note f = schedule_next_core [OF w [unfolded wait_proposal_def]]
    have "reachable E st'"
      using reachable_run core_run_tame [OF schedule_next_run [OF w [unfolded wait_proposal_def]]] assms(4)
        reachable_inv(2) f by (metis low_def pm_ok.simps)
    moreover have "awake (pm_wait pm) st es" using assms(4) p by (auto simp: awake_def)
    then have "awake w st' es"
      by (intro schedule_next_awake [OF w [unfolded wait_proposal_def]]) (simp add: awake_def)
    ultimately show ?thesis using wait_proposal_beats [OF w] f tok pm' p assms(2,4) by (simp add: beats_ok_def)
  next
    case False
    have "awake (pm_wait pm) st es" if "\<nexists>r. e = OutQcFinish r" using that assms(4) by (auto simp: awake_def)
    then show ?thesis using False assms(1,4) t tok
      by (cases e) (auto simp: pm_event_def Let_def beats_ok_def intro: wait_qc_finish_awake)
  qed
qed

lemma report_ok_same: "mem st' = mem st \<Longrightarrow> b0 st' = b0 st \<Longrightarrow> hqc st' = hqc st \<Longrightarrow> report_ok st' e = report_ok st e"
  by (cases e) (simp_all split: option.split)

lemma pm_events_ok:
  assumes "pm_events ts now es (pm, st) = Inr s" "list_all (report_ok st) es"
    "list_all (parent_ok (mem st) (b0 st)) ts" "pm_ok E es (pm, st)"
  shows "pm_ok E [] s"
  using assms
proof (induction es arbitrary: pm st)
  case Nil
  then show ?case by (simp add: pm_events_def)
next
  case (Cons e es)
  then obtain pm1 st1 where e: "pm_event ts now e (pm, st) = Inr (pm1, st1)" and es: "pm_events ts now es (pm1, st1) = Inr s"
    by (auto simp: pm_events_def bind_Inr_iff)
  from Cons.prems have r: "report_ok st e" "list_all (report_ok st) es" by simp_all
  note ok = pm_event_ok [OF e r(1) Cons.prems(3,4)]
  from r(2) ok have "list_all (report_ok st1) es" using report_ok_same [of st1 st] by (simp add: list_all_iff)
  from Cons.IH [OF es this] ok Cons.prems(3) show ?case by metis
qed

lemma pm_step_ok:
  assumes "pm_step E s s'" "pm_ok E [] s"
  shows "pm_ok E [] s'"
  using assms
proof (cases rule: pm_step.cases)
  case (report st st' es ts now pm)
  from report(1) assms(2) have r: "reachable E st" by simp
  from r report(2) have r': "reachable E st'" unfolding reachable_def by (meson rtranclp.rtrancl_into_rtrancl)
  have "evolves st st'" using reachable_evolves [OF r] report(2) by blast
  then have g: "graph_grows st st'" by (simp add: evolves_def progress_def)
  obtain xs where xs: "outs st' = outs st @ xs" "qc_waiting st \<subseteq> qc_waiting st' \<union> {r. OutQcFinish r \<in> set xs}"
    using core_step_appends [of E st st'] report(2) unfolding core_low_step_def appends_def by blast
  then have "awake (pm_wait pm) st' es" using assms(2) report(1,3) by (auto simp: awake_def)
  then have "pm_ok E es (pm, st')" using assms(2) report(1) r' parent_ok_grows [OF g] by simp
  moreover have "list_all (parent_ok (mem st') (b0 st')) ts" using report(5) by (simp add: tails_ok_def)
  ultimately show ?thesis using pm_events_ok [OF report(6) report(4)] by blast
next
  case (ask now pm st n)
  from ask obtain prid w st' where b: "beat prid now (pm_wait pm) st = Inr (n, w, st')" and s: "s' = (pm\<lparr>pm_wait := w\<rparr>, st')"
    by (auto simp: pm_beat_def bind_Inr_iff)
  then obtain w0 where sn: "schedule_next prid now w0 st = Inr (w, st')" and w0: "qc_then w0 = qc_then (pm_wait pm)"
    by (auto simp: beat_def bind_Inr_iff)
  note f = schedule_next_core [OF sn]
  have "reachable E st'"
    using reachable_run core_run_tame [OF schedule_next_run [OF sn]] assms(2) ask(1) reachable_inv(2) f
    by (metis low_def pm_ok.simps)
  moreover have "awake w st' []"
    using assms(2) ask(1) by (intro schedule_next_awake [OF sn]) (simp add: awake_def w0)
  ultimately show ?thesis using beat_beats [OF b] assms(2) ask(1) s f by simp
qed

lemma pm_started_ok:
  assumes "pm_started E s"
  shows "pm_ok E [] s"
proof -
  from assms obtain lim fx where b: "booted E (snd s)" and s: "fst s = pm_init lim fx (snd s)"
    by (auto simp: pm_started_def)
  from b obtain sc i sk lat0 cnt0 t0 fo pl ab rs nf where
    bt: "boot E sc i sk lat0 cnt0 t0 fo pl ab rs nf = Inr (snd s)" by (auto simp: booted_def)
  have "parent_ok (mem (snd s)) (b0 (snd s)) (b0 (snd s))"
    by (rule boot_shape [OF bt]) (simp add: parent_ok_def find_blk_def rooted_def)
  moreover have "beats_ok (wait_init (snd s))" by (simp add: beats_ok_def beats_def wait_init_def)
  ultimately show ?thesis using booted_reachable [OF b] s
    by (cases s) (simp add: pm_init_def tail_init_def wait_init_def awake_def)
qed

interpretation pm_sys: evolving_system "pm_started E" "pm_step E" "pm_ok E []" "\<lambda>_ _. True" for E
  by unfold_locales (auto intro: pm_started_ok pm_step_ok)

lemma pm_reachable_ok: "pm_reachable E s \<Longrightarrow> pm_ok E [] s"
  unfolding pm_reachable_def using pm_sys.reach_inv by blast

section \<open>Properties\<close>

text \<open>One replica that has asked for a beat: its genesis block is certified, so the beat is answered at
  once.\<close>

lemma sample_pm_run:
  "\<exists>pm st. pm_reachable tiny_env (pm, st) \<and> beat_log (pm_wait pm) = [(0, 0)] \<and> next_beat (pm_wait pm) = 1 \<and> b0 st = 0 \<and>
     hqc_tail (pm_tail pm) = 0 \<and> my_id st = 0"
proof -
  have "\<exists>st0 :: sample_core. boot tiny_env AggBLS 0 7 0 0 (0, 0) 2 0 0 [(0, 0, 7)] 0 = Inr st0 \<and> b0 st0 = 0 \<and> my_id st0 = 0 \<and>
      voted (blk st0 0) = {0} \<and> nmajority (config st0) = 1"
    by (simp add: boot_eval)
  then obtain st0 :: sample_core where st0: "boot tiny_env AggBLS 0 7 0 0 (0, 0) 2 0 0 [(0, 0, 7)] 0 = Inr st0"
    "b0 st0 = 0" "my_id st0 = 0" "voted (blk st0 0) = {0}" "nmajority (config st0) = 1" by blast
  let ?s = "(pm_init 0 None st0, st0)"
  have "booted tiny_env st0" unfolding booted_def using st0(1) by blast
  then have start: "pm_started tiny_env ?s" by (auto simp: pm_started_def)
  have "\<exists>pm. pm_beat (0, 0) ?s = Inr (0, pm, st0) \<and> beat_log (pm_wait pm) = [(0, 0)] \<and> next_beat (pm_wait pm) = 1 \<and>
      hqc_tail (pm_tail pm) = 0"
    using st0 by (simp add: pm_beat_def pm_init_def get_proposer_def beat_def schedule_next_def wait_init_def tail_init_def
        async_qc_finish_def resolve_beat_def)
  then obtain pm where pm: "pm_beat (0, 0) ?s = Inr (0, pm, st0)" "beat_log (pm_wait pm) = [(0, 0)]"
    "next_beat (pm_wait pm) = 1" "hqc_tail (pm_tail pm) = 0" by blast
  have "pm_reachable tiny_env (pm, st0)"
    unfolding pm_reachable_def using start pm_step.ask [OF pm(1)] by blast
  with pm st0 show ?thesis by blast
qed

text \<open>One of two replicas proposes a block, then asks for a beat: it waits for the block's certificate.\<close>

lemma sample_wait_run:
  "\<exists>pm (st :: sample_core). pm_reachable tiny_env (pm, st) \<and> qc_then (pm_wait pm) = [(1, 0)]"
proof -
  have "\<exists>st1. scenario 0 [(0, 0, 7), (1, 1, 7)] [CallPropose [1] [0]] = Inr st1 \<and>
      outs st1 = [OutPropose \<lparr>proposer = 0, prop_blk = 1\<rparr>, OutBroadcast \<lparr>proposer = 0, prop_blk = 1\<rparr>] \<and>
      tails st1 = {1} \<and> parent_ok (mem st1) (b0 st1) 1 \<and> voted (blk st1 1) = {0} \<and> nmajority (config st1) = 2 \<and>
      (case self_qc (blk st1 1) of None \<Rightarrow> True | Some q \<Rightarrow> \<not> qc_has_n (nmaj st1) q)"
    by (simp add: scenario_def boot_eval core_eval check_eval two_bits)
  then obtain st1 where sc: "scenario 0 [(0, 0, 7), (1, 1, 7)] [CallPropose [1] [0]] = Inr st1"
    and st1: "outs st1 = [OutPropose \<lparr>proposer = 0, prop_blk = 1\<rparr>, OutBroadcast \<lparr>proposer = 0, prop_blk = 1\<rparr>]"
      "tails st1 = {1}" "parent_ok (mem st1) (b0 st1) 1" "voted (blk st1 1) = {0}" "nmajority (config st1) = 2"
      "case self_qc (blk st1 1) of None \<Rightarrow> True | Some q \<Rightarrow> \<not> qc_has_n (nmaj st1) q" by blast
  from sc obtain st0 where boot: "boot tiny_env AggBLS 0 7 0 0 (0, 0) 2 0 0 [(0, 0, 7), (1, 1, 7)] 0 = Inr st0"
    and call: "run_call tiny_env (CallPropose [1] [0]) st0 = Inr st1" by (auto simp: scenario_def bind_Inr_iff)
  have st0: "outs st0 = []" "b0 st0 = 0" by (rule boot_shape [OF boot], simp)+
  let ?s0 = "(pm_init 0 None st0, st0)"
  define pm1 where "pm1 = (pm_init 0 None st0)\<lparr>pm_tail := \<lparr>hqc_tail = 1, parent_limit = 0\<rparr>,
    pm_wait := (wait_init st0)\<lparr>last_proposed := 1\<rparr>\<rparr>"
  have "booted tiny_env st0" unfolding booted_def using boot by blast
  then have start: "pm_started tiny_env ?s0" by (auto simp: pm_started_def)
  have "pm_step tiny_env ?s0 (pm1, st1)"
    by (rule pm_step.report [OF run_call_step [OF call] refl, of "[1]" "(0, 0)"])
       (use st0 st1 in \<open>simp_all add: tails_ok_def pm_events_def pm_event_def pm_init_def pm1_def tail_init_def tail_proposal_def
          wait_proposal_def schedule_next_def wait_init_def\<close>)
  moreover have aq: "async_qc_finish (Suc 0) st1 = (WaitingFor (Suc 0), st1\<lparr>qc_waiting := insert (Suc 0) (qc_waiting st1)\<rparr>)"
    using st1(4-6) by (simp add: async_qc_finish_def split: option.split_asm)
  have "\<exists>st2. pm_beat (0, 0) (pm1, st1) = Inr (0, pm1\<lparr>pm_wait := (wait_init st0)\<lparr>last_proposed := 1, locked := True,
      next_beat := 1, qc_then := [(1, 0)]\<rparr>\<rparr>, st2)"
    using st0 aq by (simp add: pm_beat_def pm1_def pm_init_def beat_def schedule_next_def wait_init_def Let_def)
  then obtain st2 where "pm_step tiny_env (pm1, st1) (pm1\<lparr>pm_wait := (wait_init st0)\<lparr>last_proposed := 1, locked := True,
      next_beat := 1, qc_then := [(1, 0)]\<rparr>\<rparr>, st2)" using pm_step.ask by blast
  ultimately have "pm_reachable tiny_env (pm1\<lparr>pm_wait := (wait_init st0)\<lparr>last_proposed := 1, locked := True,
      next_beat := 1, qc_then := [(1, 0)]\<rparr>\<rparr>, st2)"
    unfolding pm_reachable_def using start by (meson converse_rtranclp_into_rtranclp r_into_rtranclp)
  then show ?thesis by (intro exI conjI) (assumption, simp)
qed

text \<open>
  \<open>check_ancestry\<close> always returns, never reads the parent of a block without parents, and
  answers whether its first argument is on the first-parent path of the second.
\<close>

theorem check_ancestry_decides:
  assumes "reachable E st" "a < nxt (mem st)" "b < nxt (mem st)"
  shows "check_ancestry st a b = Inr (\<exists>xs. is_path (heap (mem st)) a xs b)"
  using check_ancestry_iff [OF core_invD(1) [OF reachable_inv(1) [OF assms(1)]] assms(2,3)] by (simp add: ancestor_def)

theorem check_ancestry_decides_witness:
  "\<exists>st :: sample_core. reachable tiny_env st \<and> check_ancestry st 0 1 = Inr True"
proof -
  obtain st :: sample_core where st: "scenario 0 [(0, 0, 7)] [CallPropose [1] [0], CallPropose [2] [1], CallPropose [3] [2], CallPropose [4] [3]] = Inr st"
    "executed (outs st) = [1]" "b_exec st = 1" "b0 st = 0" using leader_run by blast
  note r = scenario_reachable [OF st(1)]
  note i = core_invD [OF reachable_inv(1) [OF r]]
  have p: "is_path (heap (mem st)) 0 [1] 1" using i(3) st by (simp add: log_ok_def)
  have n: "1 < nxt (mem st)" using i(6) st by (simp add: ref_ok_def)
  from check_ancestry_decides [OF r _ n, of 0] n p have "check_ancestry st 0 1 = Inr True" by (auto simp del: is_path.simps)
  with r show ?thesis by blast
qed

text \<open>
  Parent selection. When the core reports a new highest certificate, the gadget ends up with a tail that
  follows the certified block (or is it), and no tail that follows it is higher.
\<close>

theorem highest_tail_chosen:
  assumes "reachable E st" "hqc st = Some (h, q)" "\<forall>t \<in> set ts. t < nxt (mem st)"
  shows "\<exists>pm'. tail_hqc_update st ts pm = Inr pm' \<and> hqc_tail pm' \<in> insert h (set ts) \<and>
    ancestor st h (hqc_tail pm') \<and>
    (\<forall>u \<in> insert h (set ts). ancestor st h u \<longrightarrow> height (blk st u) \<le> height (blk st (hqc_tail pm')))"
proof -
  note i = core_invD [OF reachable_inv(1) [OF assms(1)]]
  have "h < nxt (mem st)" using i(7) [OF assms(2)] by (simp add: ref_ok_def)
  from try_tails [OF i(1) this assms(3) ancestor_refl] assms(2) show ?thesis
    by (fastforce simp: tail_hqc_update_def)
qed

theorem highest_tail_chosen_witness:
  "\<exists>(st :: sample_core) pm'. reachable tiny_env st \<and> tail_hqc_update st [0, 4] (tail_init 0 st) = Inr pm' \<and> hqc_tail pm' = 4"
proof -
  have "\<exists>(st :: sample_core) q. scenario 0 [(0, 0, 7)] [CallPropose [1] [0], CallPropose [2] [1], CallPropose [3] [2], CallPropose [4] [3]] = Inr st \<and>
     hqc st = Some (4, q) \<and> nxt (mem st) = 5 \<and> height (blk st 4) = 4 \<and> height (blk st 0) = 0"
    by (simp add: scenario_def boot_eval core_eval check_eval)
  then obtain st :: sample_core and q where st: "scenario 0 [(0, 0, 7)] [CallPropose [1] [0], CallPropose [2] [1], CallPropose [3] [2], CallPropose [4] [3]] = Inr st"
     "hqc st = Some (4, q)" "nxt (mem st) = 5" "height (blk st 4) = 4" "height (blk st 0) = 0" by blast
  note r = scenario_reachable [OF st(1)]
  obtain pm' where pm': "tail_hqc_update st [0, 4] (tail_init 0 st) = Inr pm'" "hqc_tail pm' \<in> {4, 0}"
    "\<forall>u \<in> {4, 0}. ancestor st 4 u \<longrightarrow> height (blk st u) \<le> height (blk st (hqc_tail pm'))"
    using highest_tail_chosen [OF r st(2), of "[0, 4]" "tail_init 0 st"] st(3) by auto
  then have "hqc_tail pm' = 4" using st(4,5) by auto
  with r pm' show ?thesis by blast
qed

text \<open>
  C19: The gadget keeps its promise to the network layer: at every moment of every run beside the core, the
  parents and the current proposal it answers with are stored, connected blocks.
\<close>

theorem pacemaker_answers_ok:
  assumes "pm_reachable E (pm, st)"
  shows "answers_ok (pm_answers pm st now t1 t2 t3 stale) st"
  using pm_reachable_ok [OF assms]
  by (simp add: answers_ok_def pm_answers_def get_parents_def get_current_proposal_def)

theorem pacemaker_answers_ok_witness:
  "\<exists>pm (st :: sample_core). pm_reachable tiny_env (pm, st) \<and> beat_log (pm_wait pm) = [(0, 0)] \<and>
     answers_ok (pm_answers pm st (0, 0) (0, 0) (0, 0) (0, 0) id) st"
proof -
  obtain pm and st :: sample_core where s: "pm_reachable tiny_env (pm, st)" "beat_log (pm_wait pm) = [(0, 0)]"
    using sample_pm_run by blast
  from pacemaker_answers_ok [OF s(1)] s show ?thesis by blast
qed

text \<open>
  C20: No beat is lost or answered twice. In every reachable state each beat handed out so far is in exactly one
  place: answered, waiting for the certificate of a block, or pending.
\<close>

theorem beats_answered_once:
  assumes "pm_reachable E (pm, st)"
  shows "mset (map fst (beat_log (pm_wait pm))) + mset (map snd (qc_then (pm_wait pm))) + mset (pending_beats (pm_wait pm))
    = mset [0..<next_beat (pm_wait pm)]"
  using pm_reachable_ok [OF assms] by (simp add: beats_ok_def beats_def)

theorem beats_answered_once_witness:
  "\<exists>pm (st :: sample_core). pm_reachable tiny_env (pm, st) \<and> beat_log (pm_wait pm) = [(0, 0)] \<and>
     qc_then (pm_wait pm) = [] \<and> pending_beats (pm_wait pm) = []"
proof -
  obtain pm and st :: sample_core where s: "pm_reachable tiny_env (pm, st)" "beat_log (pm_wait pm) = [(0, 0)]"
    "next_beat (pm_wait pm) = 1" using sample_pm_run by blast
  from beats_answered_once [OF s(1)] s show ?thesis by auto
qed

text \<open>
  C21: No wake-up is lost. In every reachable state, a beat that waits for the certificate of a block waits on a
  promise the core still keeps under that block, so the core's report will reach it.
\<close>

theorem waiting_beats_reachable:
  assumes "pm_reachable E (pm, st)"
  shows "fst ` set (qc_then (pm_wait pm)) \<subseteq> qc_waiting st"
  using pm_reachable_ok [OF assms] by (auto simp: awake_def)

theorem waiting_beats_reachable_witness:
  "\<exists>pm (st :: sample_core). pm_reachable tiny_env (pm, st) \<and> qc_then (pm_wait pm) = [(1, 0)] \<and> 1 \<in> qc_waiting st"
proof -
  obtain pm and st :: sample_core where s: "pm_reachable tiny_env (pm, st)" "qc_then (pm_wait pm) = [(1, 0)]"
    using sample_wait_run by blast
  from waiting_beats_reachable [OF s(1)] s show ?thesis by auto
qed

end
