(* ===== verification/Hs_Rotate.thy ===== *)
theory Hs_Rotate
  imports Hs_Pacemaker
begin

text \<open>
  The rotating proposer of \<^verbatim>\<open>include/hotstuff/liveness.h\<close>
  (\<open>PMRoundRobinProposer\<close>, \<open>PaceMakerRR\<close>).

  \<open>async_qc_finish\<close> hands out the promise the core keeps in \<open>qc_waiting\<close>, so rejecting
  \<open>pm_qc_finish\<close> or \<open>pm_qc_manual\<close> rejects that shared promise: its lambdas are dropped,
  and lambdas attached to it later never run (\<open>dead\<close>), until the core removes it. A handle is the
  block of a promise not settled by the core yet. The lambda of \<open>do_new_consensus\<close> and the call
  posted by \<open>stop_rotate\<close> propose blocks; they are put on a list and each runs as a step of its
  own. The timeouts are doubles: the current one is \<open>base_timeout\<close> doubled \<open>backoff\<close> times.
\<close>

section \<open>State\<close>

datatype rr_cont = ContBeat nat | ContNew nat

datatype rr_todo = TodoNew nat | TodoRepropose

datatype rr_timer = TimerExp nat | TimerPropDelay

record PMRoundRobinProposer =
  rr_proposer :: ReplicaID
  rr_prop_blk :: "ReplicaID \<rightharpoonup> blkref"
  rotating :: bool
  rr_timer :: "rr_timer option"
  backoff :: nat
  rr_pending :: "nat list"
  rr_last_proposed :: blkref
  rr_locked :: bool
  pm_qc_finish :: "blkref option"
  pm_wait_propose :: bool
  pm_qc_manual :: "blkref option"
  reg_own :: nat
  reg_recv :: nat
  rr_conts :: "(blkref \<times> rr_cont) list"
  dead :: "blkref set"
  todo :: "rr_todo list"
  rr_log :: "(nat \<times> ReplicaID) list"
  rr_next :: nat

section \<open>Promises shared with the core\<close>

definition rr_reject :: "blkref option \<Rightarrow> PMRoundRobinProposer \<Rightarrow> PMRoundRobinProposer" where
  "rr_reject h rr =
     (case h of None \<Rightarrow> rr
      | Some r \<Rightarrow> rr\<lparr>rr_conts := filter (\<lambda>(q, _). q \<noteq> r) (rr_conts rr), dead := insert r (dead rr)\<rparr>)"

text \<open>The bodies of the two lambdas.\<close>

fun run_cont :: "rr_cont \<Rightarrow> PMRoundRobinProposer \<Rightarrow> PMRoundRobinProposer" where
  "run_cont (ContBeat n) rr = rr\<lparr>rr_log := rr_log rr @ [(n, rr_proposer rr)]\<rparr>"
| "run_cont (ContNew x) rr = (if 3 \<le> x then rr else rr\<lparr>todo := todo rr @ [TodoNew (x + 1)]\<rparr>)"

fun rr_then :: "qc_promise \<Rightarrow> rr_cont \<Rightarrow> PMRoundRobinProposer \<Rightarrow> PMRoundRobinProposer" where
  "rr_then Resolved c rr = run_cont c rr"
| "rr_then (WaitingFor r) c rr = (if r \<in> dead rr then rr else rr\<lparr>rr_conts := rr_conts rr @ [(r, c)]\<rparr>)"

fun handle :: "qc_promise \<Rightarrow> blkref option" where
  "handle Resolved = None"
| "handle (WaitingFor r) = Some r"

section \<open>Operations\<close>

definition proposer_schedule_next ::
  "PMRoundRobinProposer \<Rightarrow> ('p, 'k, 's, 'b) core \<Rightarrow> PMRoundRobinProposer \<times> ('p, 'k, 's, 'b) core" where
  "proposer_schedule_next rr st =
     (case rr_pending rr of [] \<Rightarrow> (rr, st) | n # ns \<Rightarrow>
      if rr_locked rr then (rr, st)
      else
        let rr = rr_reject (pm_qc_finish rr) (rr\<lparr>rr_pending := ns\<rparr>);
            (p, st) = async_qc_finish (rr_last_proposed rr) st in
        ((rr_then p (ContBeat n) (rr\<lparr>pm_qc_finish := handle p\<rparr>))\<lparr>rr_locked := True\<rparr>, st))"

definition proposer_update_last_proposed :: "PMRoundRobinProposer \<Rightarrow> PMRoundRobinProposer" where
  "proposer_update_last_proposed rr = rr\<lparr>pm_wait_propose := True\<rparr>"

definition reg_proposal :: "PMRoundRobinProposer \<Rightarrow> PMRoundRobinProposer" where
  "reg_proposal rr = rr\<lparr>reg_own := Suc (reg_own rr)\<rparr>"

definition reg_receive_proposal :: "PMRoundRobinProposer \<Rightarrow> PMRoundRobinProposer" where
  "reg_receive_proposal rr = rr\<lparr>reg_recv := Suc (reg_recv rr)\<rparr>"

definition note_prop_blk :: "ReplicaID \<Rightarrow> blkref \<Rightarrow> PMRoundRobinProposer \<Rightarrow> PMRoundRobinProposer" where
  "note_prop_blk i r rr =
     (if rr_prop_blk rr i = None then rr\<lparr>rr_prop_blk := (rr_prop_blk rr)(i \<mapsto> r)\<rparr> else rr)"

text \<open>All registered lambdas of \<open>reg_proposal\<close> run; each registers itself again while rotating.\<close>

definition own_proposal :: "ReplicaID \<Rightarrow> Proposal \<Rightarrow> PMRoundRobinProposer \<Rightarrow> PMRoundRobinProposer" where
  "own_proposal me p rr =
     (let rr = (if 0 < reg_own rr then note_prop_blk me (prop_blk p) rr else rr) in
      if rotating rr then rr else rr\<lparr>reg_own := 0\<rparr>)"

definition received_proposal :: "Proposal \<Rightarrow> PMRoundRobinProposer \<Rightarrow> PMRoundRobinProposer" where
  "received_proposal p rr =
     (let rr = (if 0 < reg_recv rr then note_prop_blk (proposer p) (prop_blk p) rr else rr) in
      if rotating rr then rr else rr\<lparr>reg_recv := 0\<rparr>)"

definition reject_all :: "PMRoundRobinProposer \<Rightarrow> PMRoundRobinProposer" where
  "reject_all rr = rr_reject (pm_qc_manual rr) ((rr_reject (pm_qc_finish rr) rr)\<lparr>pm_wait_propose := False\<rparr>)"

definition rotate_proposer ::
  "('p, 'k, 's, 'b) core \<Rightarrow> PMRoundRobinProposer \<Rightarrow> PMRoundRobinProposer res" where
  "rotate_proposer st rr =
     (let n = unat (nreplicas (config st));
          rr = (reg_receive_proposal (reg_proposal rr))\<lparr>rr_prop_blk := Map.empty, rotating := True\<rparr> in
      if n = 0 then Inl DivByZero
      else
        let rr = reject_all (rr\<lparr>rr_proposer := of_nat ((unat (rr_proposer rr) + 1) mod n)\<rparr>) in
        Inr (rr\<lparr>rr_timer := Some (TimerExp (backoff rr)), backoff := Suc (backoff rr)\<rparr>))"

definition stop_rotate :: "('p, 'k, 's, 'b) core \<Rightarrow> PMRoundRobinProposer \<Rightarrow> PMRoundRobinProposer" where
  "stop_rotate st rr =
     (let rr = reject_all (rr\<lparr>rr_timer := None\<rparr>);
          rr = proposer_update_last_proposed
                 (rr\<lparr>rotating := False, rr_locked := False, rr_last_proposed := b0 st\<rparr>) in
      if rr_proposer rr = my_id st then rr\<lparr>todo := todo rr @ [TodoRepropose]\<rparr> else rr)"

definition rr_on_consensus :: "blkref \<Rightarrow> ('p, 'k, 's, 'b) core \<Rightarrow> PMRoundRobinProposer \<Rightarrow> PMRoundRobinProposer" where
  "rr_on_consensus r st rr =
     (let rr = rr\<lparr>rr_timer := None, backoff := 0\<rparr> in
      if rr_prop_blk rr (rr_proposer rr) = Some r then stop_rotate st rr else rr)"

definition impeach :: "('p, 'k, 's, 'b) core \<Rightarrow> PMRoundRobinProposer \<Rightarrow> PMRoundRobinProposer res" where
  "impeach st rr = (if rotating rr then Inr rr else rotate_proposer st rr)"

definition PMRoundRobinProposer_new :: "PMRoundRobinProposer" where
  "PMRoundRobinProposer_new =
     \<lparr>rr_proposer = 0, rr_prop_blk = Map.empty, rotating = False, rr_timer = None, backoff = 0, rr_pending = [],
      rr_last_proposed = 0, rr_locked = False, pm_qc_finish = None, pm_wait_propose = False, pm_qc_manual = None,
      reg_own = 0, reg_recv = 0, rr_conts = [], dead = {}, todo = [], rr_log = [], rr_next = 0\<rparr>"

definition rr_init :: "('p, 'k, 's, 'b) core \<Rightarrow> PMRoundRobinProposer \<Rightarrow> PMRoundRobinProposer" where
  "rr_init st rr = stop_rotate st (rr\<lparr>backoff := 0\<rparr>)"

text \<open>A beat: a promise of its own for the proposer, otherwise one resolved with the proposer.\<close>

datatype beat_answer = BeatWaits nat | BeatNow ReplicaID

definition rr_beat ::
  "PMRoundRobinProposer \<Rightarrow> ('p, 'k, 's, 'b) core \<Rightarrow> beat_answer \<times> PMRoundRobinProposer \<times> ('p, 'k, 's, 'b) core" where
  "rr_beat rr st =
     (if \<not> rotating rr \<and> rr_proposer rr = my_id st then
        (BeatWaits (rr_next rr),
         proposer_schedule_next (rr\<lparr>rr_pending := rr_pending rr @ [rr_next rr], rr_next := Suc (rr_next rr)\<rparr>) st)
      else (BeatNow (rr_proposer rr), rr, st))"

definition rr_beat_resp :: "PMRoundRobinProposer \<Rightarrow> ReplicaID" where
  "rr_beat_resp rr = rr_proposer rr"

section \<open>Reports of the core\<close>

definition rr_qc_finish :: "blkref \<Rightarrow> PMRoundRobinProposer \<Rightarrow> PMRoundRobinProposer" where
  "rr_qc_finish r rr =
     fold (\<lambda>(_, c). run_cont c) (filter (\<lambda>(q, _). q = r) (rr_conts rr))
       (rr\<lparr>rr_conts := filter (\<lambda>(q, _). q \<noteq> r) (rr_conts rr), dead := dead rr - {r},
           pm_qc_finish := (if pm_qc_finish rr = Some r then None else pm_qc_finish rr),
           pm_qc_manual := (if pm_qc_manual rr = Some r then None else pm_qc_manual rr)\<rparr>)"

fun rr_event ::
  "'s out_event \<Rightarrow> PMRoundRobinProposer \<times> ('p, 'k, 's, 'b) core \<Rightarrow> PMRoundRobinProposer \<times> ('p, 'k, 's, 'b) core" where
  "rr_event (OutPropose p) (rr, st) =
     (let rr = own_proposal (my_id st) p rr in
      if pm_wait_propose rr then
        let (rr, st) = proposer_schedule_next (rr\<lparr>rr_last_proposed := prop_blk p, rr_locked := False\<rparr>) st in
        (proposer_update_last_proposed rr, st)
      else (rr, st))"
| "rr_event (OutReceiveProposal p) (rr, st) = (received_proposal p rr, st)"
| "rr_event (OutQcFinish r) (rr, st) = (rr_qc_finish r rr, st)"
| "rr_event (OutConsensus r) (rr, st) = (rr_on_consensus r st rr, st)"
| "rr_event _ (rr, st) = (rr, st)"

record PaceMakerRR =
  prr_tail :: PMHighTail
  prr :: PMRoundRobinProposer

definition prr_init :: "32 word \<Rightarrow> ('p, 'k, 's, 'b) core \<Rightarrow> PaceMakerRR" where
  "prr_init lim st = \<lparr>prr_tail = tail_init lim st, prr = rr_init st PMRoundRobinProposer_new\<rparr>"

definition prr_event ::
  "blkref list \<Rightarrow> 's out_event \<Rightarrow> PaceMakerRR \<times> ('p, 'k, 's, 'b) core \<Rightarrow> (PaceMakerRR \<times> ('p, 'k, 's, 'b) core) res" where
  "prr_event ts e = (\<lambda>(pm, st).
     bind (tail_event st ts e (prr_tail pm)) (\<lambda>t.
       let (rr, st) = rr_event e (prr pm, st) in Inr (pm\<lparr>prr_tail := t, prr := rr\<rparr>, st)))"

section \<open>Proposing blocks on its own\<close>

definition do_new_consensus ::
  "('p, 'k, 's, 'b) env \<Rightarrow> nat \<Rightarrow> uint256 list \<Rightarrow> blkref list \<Rightarrow> timeval \<Rightarrow> timeval \<Rightarrow> timeval \<Rightarrow>
     PaceMakerRR \<times> ('p, 'k, 's, 'b) core \<Rightarrow> (PaceMakerRR \<times> ('p, 'k, 's, 'b) core) res" where
  "do_new_consensus E x cm ts t1 t2 t3 = (\<lambda>(pm, st).
     bind (on_propose E cm (get_parents (prr_tail pm)) [] t1 t2 t3 st) (\<lambda>(r, st').
     bind (fold_res (prr_event ts) (drop (length (outs st)) (outs st')) (pm, st')) (\<lambda>(pm, st).
     let rr = rr_reject (pm_qc_manual (prr pm)) (prr pm); (p, st) = async_qc_finish r st in
     Inr (pm\<lparr>prr := rr_then p (ContNew x) (rr\<lparr>pm_qc_manual := handle p\<rparr>)\<rparr>, st))))"

definition on_exp_timeout ::
  "('p, 'k, 's, 'b) env \<Rightarrow> blkref list \<Rightarrow> timeval \<Rightarrow> timeval \<Rightarrow> timeval \<Rightarrow>
     PaceMakerRR \<times> ('p, 'k, 's, 'b) core \<Rightarrow> (PaceMakerRR \<times> ('p, 'k, 's, 'b) core) res" where
  "on_exp_timeout E ts t1 t2 t3 = (\<lambda>(pm, st).
     bind (if rr_proposer (prr pm) = my_id st then do_new_consensus E 0 [] ts t1 t2 t3 (pm, st) else Inr (pm, st))
       (\<lambda>(pm, st). Inr (pm\<lparr>prr := (prr pm)\<lparr>rr_timer := Some TimerPropDelay\<rparr>\<rparr>, st)))"

text \<open>The commands waiting for a decision, in the order of the hash table.\<close>

fun run_todo ::
  "('p, 'k, 's, 'b) env \<Rightarrow> uint256 list \<Rightarrow> blkref list \<Rightarrow> timeval \<Rightarrow> timeval \<Rightarrow> timeval \<Rightarrow> rr_todo \<Rightarrow>
     PaceMakerRR \<times> ('p, 'k, 's, 'b) core \<Rightarrow> (PaceMakerRR \<times> ('p, 'k, 's, 'b) core) res" where
  "run_todo E waiting ts t1 t2 t3 (TodoNew x) s = do_new_consensus E x [] ts t1 t2 t3 s"
| "run_todo E waiting ts t1 t2 t3 TodoRepropose s =
     (if waiting = [] then Inr s else do_new_consensus E 0 waiting ts t1 t2 t3 s)"

section \<open>Beats are answered at most once, chains of own proposals are short\<close>

primrec cont_beats :: "rr_cont \<Rightarrow> nat list" where
  "cont_beats (ContBeat n) = [n]"
| "cont_beats (ContNew x) = []"

primrec cont_short :: "rr_cont \<Rightarrow> bool" where
  "cont_short (ContBeat n) = True"
| "cont_short (ContNew x) = (x \<le> 3)"

primrec todo_short :: "rr_todo \<Rightarrow> bool" where
  "todo_short (TodoNew x) = (x \<le> 3)"
| "todo_short TodoRepropose = True"

definition rr_beats :: "PMRoundRobinProposer \<Rightarrow> nat multiset" where
  "rr_beats rr = mset (map fst (rr_log rr)) + mset (concat (map (cont_beats \<circ> snd) (rr_conts rr))) + mset (rr_pending rr)"

definition rr_short :: "PMRoundRobinProposer \<Rightarrow> bool" where
  "rr_short rr \<longleftrightarrow> list_all (cont_short \<circ> snd) (rr_conts rr) \<and> list_all todo_short (todo rr)"

text \<open>\<open>shrinks rr rr'\<close>: no beat appears out of nothing, and chains stay short.\<close>

definition shrinks :: "PMRoundRobinProposer \<Rightarrow> PMRoundRobinProposer \<Rightarrow> bool" where
  "shrinks rr rr' \<longleftrightarrow> rr_beats rr' \<subseteq># rr_beats rr \<and> rr_next rr' = rr_next rr \<and> (rr_short rr \<longrightarrow> rr_short rr')"

lemma shrinks_refl [simp]: "shrinks rr rr"
  by (simp add: shrinks_def)

lemma shrinks_trans [trans]: "shrinks rr rr1 \<Longrightarrow> shrinks rr1 rr2 \<Longrightarrow> shrinks rr rr2"
  unfolding shrinks_def using subset_mset.order_trans by auto

lemma shrinks_same:
  "rr_log rr' = rr_log rr \<Longrightarrow> rr_conts rr' = rr_conts rr \<Longrightarrow> rr_pending rr' = rr_pending rr \<Longrightarrow>
   rr_next rr' = rr_next rr \<Longrightarrow> todo rr' = todo rr \<Longrightarrow> shrinks rr rr'"
  by (simp add: shrinks_def rr_beats_def rr_short_def)

lemma mset_concat_filter: "mset (concat (map f (filter P xs))) \<subseteq># mset (concat (map f xs))"
  by (induction xs) (auto intro: subset_mset.order_trans)

lemma list_all_filter: "list_all P xs \<Longrightarrow> list_all P (filter Q xs)"
  by (simp add: list_all_iff)

lemma rr_reject_shrinks: "shrinks rr (rr_reject h rr)"
proof (cases h)
  case (Some r)
  have "rr_beats (rr_reject h rr) \<subseteq># rr_beats rr"
    by (simp add: Some rr_reject_def rr_beats_def mset_concat_filter)
  then show ?thesis by (simp add: shrinks_def Some rr_reject_def rr_short_def list_all_filter)
qed (simp add: rr_reject_def)

text \<open>A continuation that runs, or is stored, accounts for the beat it holds.\<close>

lemma run_cont_beats [simp]:
  "rr_beats (run_cont c rr) = mset (cont_beats c) + rr_beats rr"
  "rr_next (run_cont c rr) = rr_next rr"
  "rr_conts (run_cont c rr) = rr_conts rr"
  by (cases c; simp add: rr_beats_def)+

lemma run_cont_short: "cont_short c \<Longrightarrow> rr_short rr \<Longrightarrow> rr_short (run_cont c rr)"
  by (cases c) (auto simp: rr_short_def)

lemma rr_then_shrinks:
  "rr_beats (rr_then p c rr) \<subseteq># mset (cont_beats c) + rr_beats rr"
  "rr_next (rr_then p c rr) = rr_next rr"
  "cont_short c \<Longrightarrow> rr_short rr \<Longrightarrow> rr_short (rr_then p c rr)"
proof -
  show "rr_beats (rr_then p c rr) \<subseteq># mset (cont_beats c) + rr_beats rr"
  proof (cases p)
    case (WaitingFor r)
    then show ?thesis by (auto simp: rr_beats_def ac_simps)
  qed simp
  show "rr_next (rr_then p c rr) = rr_next rr" by (cases p) auto
  show "cont_short c \<Longrightarrow> rr_short rr \<Longrightarrow> rr_short (rr_then p c rr)"
    by (cases p) (auto simp: run_cont_short, auto simp: rr_short_def)
qed

lemma proposer_schedule_next_shrinks:
  assumes "proposer_schedule_next rr st = (rr', st')"
  shows "shrinks rr rr'"
proof (cases "rr_pending rr = [] \<or> rr_locked rr")
  case True
  then show ?thesis using assms by (auto simp: proposer_schedule_next_def split: list.split_asm)
next
  case False
  then obtain n ns where n: "rr_pending rr = n # ns" "\<not> rr_locked rr" by (auto simp: neq_Nil_conv)
  let ?r1 = "rr_reject (pm_qc_finish rr) (rr\<lparr>rr_pending := ns\<rparr>)"
  obtain p st1 where a: "async_qc_finish (rr_last_proposed ?r1) st = (p, st1)" by fastforce
  let ?r2 = "?r1\<lparr>pm_qc_finish := handle p\<rparr>"
  have r': "rr' = (rr_then p (ContBeat n) ?r2)\<lparr>rr_locked := True\<rparr>"
    using assms n a by (simp add: proposer_schedule_next_def Let_def)
  have s: "shrinks (rr\<lparr>rr_pending := ns\<rparr>) ?r2"
    using shrinks_trans [OF rr_reject_shrinks shrinks_same [of ?r2 ?r1]] by simp
  have "rr_beats rr = add_mset n (rr_beats (rr\<lparr>rr_pending := ns\<rparr>))" using n by (simp add: rr_beats_def)
  moreover have "rr_beats ?r2 \<subseteq># rr_beats (rr\<lparr>rr_pending := ns\<rparr>)" using s by (simp add: shrinks_def)
  moreover have "rr_beats rr' = rr_beats (rr_then p (ContBeat n) ?r2)" by (simp add: r' rr_beats_def)
  moreover note rr_then_shrinks(1) [of p "ContBeat n" ?r2]
  ultimately have "rr_beats rr' \<subseteq># rr_beats rr"
    using subset_mset.order_trans by fastforce
  moreover have "rr_short rr \<longrightarrow> rr_short rr'"
  proof
    assume "rr_short rr"
    then have "rr_short ?r2" using s by (auto simp: shrinks_def rr_short_def)
    then have "rr_short (rr_then p (ContBeat n) ?r2)" by (intro rr_then_shrinks(3)) simp_all
    then show "rr_short rr'" by (simp add: r' rr_short_def)
  qed
  moreover have "rr_next rr' = rr_next rr" using s rr_then_shrinks(2) [of p "ContBeat n" ?r2] by (simp add: r' shrinks_def)
  ultimately show ?thesis by (simp add: shrinks_def)
qed

lemma fold_run_cont:
  "rr_beats (fold (\<lambda>(_, c). run_cont c) cs rr) = mset (concat (map (cont_beats \<circ> snd) cs)) + rr_beats rr"
  "rr_next (fold (\<lambda>(_, c). run_cont c) cs rr) = rr_next rr"
  "list_all (cont_short \<circ> snd) cs \<Longrightarrow> rr_short rr \<Longrightarrow> rr_short (fold (\<lambda>(_, c). run_cont c) cs rr)"
  by (induction cs arbitrary: rr) (auto simp: run_cont_short)

lemma rr_qc_finish_shrinks: "shrinks rr (rr_qc_finish r rr)"
proof -
  let ?cs = "filter (\<lambda>(q, _). q = r) (rr_conts rr)"
  define rr1 where "rr1 = rr\<lparr>rr_conts := filter (\<lambda>(q, _). q \<noteq> r) (rr_conts rr), dead := dead rr - {r},
           pm_qc_finish := (if pm_qc_finish rr = Some r then None else pm_qc_finish rr),
           pm_qc_manual := (if pm_qc_manual rr = Some r then None else pm_qc_manual rr)\<rparr>"
  have q: "rr_qc_finish r rr = fold (\<lambda>(_, c). run_cont c) ?cs rr1" by (simp add: rr_qc_finish_def rr1_def)
  have "mset (concat (map f (filter (\<lambda>(q, _). q = r) xs))) + mset (concat (map f (filter (\<lambda>(q, _). q \<noteq> r) xs)))
      = mset (concat (map f xs))" for f :: "blkref \<times> rr_cont \<Rightarrow> nat list" and xs by (induction xs) auto
  then have "mset (concat (map (cont_beats \<circ> snd) ?cs)) + rr_beats rr1 = rr_beats rr"
    by (simp add: rr_beats_def rr1_def ac_simps del: mset_concat)
  moreover have "rr_short rr \<longrightarrow> list_all (cont_short \<circ> snd) ?cs \<and> rr_short rr1"
    by (simp add: rr_short_def rr1_def list_all_filter)
  ultimately show ?thesis unfolding shrinks_def q fold_run_cont using fold_run_cont(3) by (auto simp: rr1_def)
qed

lemma reject_all_shrinks: "shrinks rr (reject_all rr)"
proof -
  have "shrinks rr ((rr_reject (pm_qc_finish rr) rr)\<lparr>pm_wait_propose := False\<rparr>)"
    by (rule shrinks_trans [OF rr_reject_shrinks shrinks_same]) simp_all
  then show ?thesis unfolding reject_all_def by (rule shrinks_trans [OF _ rr_reject_shrinks])
qed

lemma stop_rotate_shrinks: "shrinks rr (stop_rotate st rr)"
proof -
  define rr1 where "rr1 = proposer_update_last_proposed
    ((reject_all (rr\<lparr>rr_timer := None\<rparr>))\<lparr>rotating := False, rr_locked := False, rr_last_proposed := b0 st\<rparr>)"
  have "shrinks (rr\<lparr>rr_timer := None\<rparr>) rr1" unfolding rr1_def proposer_update_last_proposed_def
    by (rule shrinks_trans [OF reject_all_shrinks shrinks_same]) simp_all
  moreover have "shrinks rr (rr\<lparr>rr_timer := None\<rparr>)" by (rule shrinks_same) simp_all
  ultimately have "shrinks rr rr1" by (rule shrinks_trans [rotated])
  moreover have "stop_rotate st rr = rr1 \<or> stop_rotate st rr = rr1\<lparr>todo := todo rr1 @ [TodoRepropose]\<rparr>"
    by (simp add: stop_rotate_def rr1_def Let_def)
  moreover have "shrinks rr1 (rr1\<lparr>todo := todo rr1 @ [TodoRepropose]\<rparr>)"
    by (simp add: shrinks_def rr_short_def rr_beats_def)
  ultimately show ?thesis using shrinks_trans by metis
qed

text \<open>The state of a rotation before the promises are rejected and the timer is set.\<close>

definition turned :: "('p, 'k, 's, 'b) core \<Rightarrow> PMRoundRobinProposer \<Rightarrow> PMRoundRobinProposer" where
  "turned st rr = rr\<lparr>reg_own := Suc (reg_own rr), reg_recv := Suc (reg_recv rr), rr_prop_blk := Map.empty, rotating := True,
     rr_proposer := of_nat ((unat (rr_proposer rr) + 1) mod unat (nreplicas (config st)))\<rparr>"

lemma rotate_proposer_eq:
  "rotate_proposer st rr = (if unat (nreplicas (config st)) = 0 then Inl DivByZero else
     Inr ((reject_all (turned st rr))\<lparr>rr_timer := Some (TimerExp (backoff (reject_all (turned st rr)))),
       backoff := Suc (backoff (reject_all (turned st rr)))\<rparr>))"
  by (simp add: rotate_proposer_def turned_def reg_proposal_def reg_receive_proposal_def Let_def)

lemma rotate_proposer_shrinks:
  assumes "rotate_proposer st rr = Inr rr'"
  shows "shrinks rr rr'"
proof -
  have "shrinks rr (turned st rr)" by (rule shrinks_same) (simp_all add: turned_def)
  moreover have "shrinks (reject_all (turned st rr)) rr'"
    using assms by (intro shrinks_same) (auto simp: rotate_proposer_eq split: if_split_asm)
  ultimately show ?thesis using reject_all_shrinks shrinks_trans by blast
qed

lemma rr_event_shrinks:
  assumes "rr_event e (rr, st) = (rr', st')"
  shows "shrinks rr rr'"
proof (cases e)
  case (OutPropose p)
  let ?r1 = "own_proposal (my_id st) p rr"
  have own: "shrinks rr ?r1" by (rule shrinks_same) (simp_all add: own_proposal_def note_prop_blk_def Let_def)
  show ?thesis
  proof (cases "pm_wait_propose ?r1")
    case True
    obtain r2 st2 where s: "proposer_schedule_next (?r1\<lparr>rr_last_proposed := prop_blk p, rr_locked := False\<rparr>) st = (r2, st2)"
      by fastforce
    have "shrinks ?r1 (?r1\<lparr>rr_last_proposed := prop_blk p, rr_locked := False\<rparr>)" by (rule shrinks_same) simp_all
    from shrinks_trans [OF own shrinks_trans [OF this proposer_schedule_next_shrinks [OF s]]] have "shrinks rr r2" .
    moreover have "shrinks r2 rr'" using assms OutPropose True s
      by (intro shrinks_same) (auto simp: Let_def proposer_update_last_proposed_def)
    ultimately show ?thesis by (rule shrinks_trans)
  qed (use assms OutPropose own in \<open>auto simp: Let_def\<close>)
next
  case (OutReceiveProposal p)
  then show ?thesis using assms
    by (intro shrinks_same) (auto simp: received_proposal_def note_prop_blk_def Let_def)
next
  case (OutConsensus r)
  let ?r1 = "rr\<lparr>rr_timer := None, backoff := 0\<rparr>"
  have "shrinks rr ?r1" by (rule shrinks_same) simp_all
  then show ?thesis using assms OutConsensus shrinks_trans [OF _ stop_rotate_shrinks]
    by (auto simp: rr_on_consensus_def Let_def split: if_split_asm)
qed (use assms rr_qc_finish_shrinks in auto)

lemma prr_events_shrinks:
  assumes "fold_res (prr_event ts) es (pm, st) = Inr (pm', st')"
  shows "shrinks (prr pm) (prr pm')"
proof -
  have "(\<lambda>s. shrinks (prr pm) (prr (fst s))) (pm', st')"
    using assms
  proof (rule fold_res_inv)
    fix e s s'
    assume pre: "shrinks (prr pm) (prr (fst s))" and e: "prr_event ts e s = Inr s'"
    have "shrinks (prr (fst s)) (prr (fst s'))"
      using e by (cases s; cases "rr_event e (prr (fst s), snd s)")
        (auto simp: prr_event_def bind_Inr_iff dest: rr_event_shrinks)
    with pre show "shrinks (prr pm) (prr (fst s'))" by (rule shrinks_trans)
  qed simp
  then show ?thesis by simp
qed

lemma do_new_consensus_shrinks:
  assumes "do_new_consensus E x cm ts t1 t2 t3 (pm, st) = Inr (pm', st')" "x \<le> 3"
  shows "shrinks (prr pm) (prr pm')"
proof -
  from assms(1) obtain r s1 pm1 s2 where ev: "fold_res (prr_event ts) (drop (length (outs st)) (outs s1)) (pm, s1) = Inr (pm1, s2)"
    and fin: "(let rr = rr_reject (pm_qc_manual (prr pm1)) (prr pm1); (p, st) = async_qc_finish r s2 in
      Inr (pm1\<lparr>prr := rr_then p (ContNew x) (rr\<lparr>pm_qc_manual := handle p\<rparr>)\<rparr>, st)) = (Inr (pm', st') :: _ res)"
    by (auto simp: do_new_consensus_def bind_Inr_iff)
  obtain p s3 where a: "async_qc_finish r s2 = (p, s3)" by fastforce
  let ?r2 = "(rr_reject (pm_qc_manual (prr pm1)) (prr pm1))\<lparr>pm_qc_manual := handle p\<rparr>"
  have "prr pm' = rr_then p (ContNew x) ?r2" using fin a by auto
  moreover have "shrinks ?r2 (rr_then p (ContNew x) ?r2)"
    using rr_then_shrinks [where c = "ContNew x"] assms(2) by (simp add: shrinks_def)
  moreover have "shrinks (prr pm1) ?r2"
    by (rule shrinks_trans [OF rr_reject_shrinks shrinks_same]) simp_all
  ultimately show ?thesis using shrinks_trans prr_events_shrinks [OF ev] by metis
qed

lemma run_todo_shrinks:
  assumes "run_todo E waiting ts t1 t2 t3 j (pm, st) = Inr s" "todo_short j"
  shows "shrinks (prr pm) (prr (fst s))"
proof (cases j)
  case (TodoNew x)
  then show ?thesis using assms do_new_consensus_shrinks [of E x "[]" ts t1 t2 t3 pm st "fst s" "snd s"] by simp
next
  case TodoRepropose
  then show ?thesis using assms(1) do_new_consensus_shrinks [of E 0 waiting ts t1 t2 t3 pm st "fst s" "snd s"]
    by (auto split: if_split_asm)
qed

section \<open>Runs\<close>

inductive rr_step ::
  "('p, 'k, 's, 'b) env \<Rightarrow> PaceMakerRR \<times> ('p, 'k, 's, 'b) core \<Rightarrow> PaceMakerRR \<times> ('p, 'k, 's, 'b) core \<Rightarrow> bool" for E where
  report: "core_step E st st' \<Longrightarrow> fold_res (prr_event ts) (drop (length (outs st)) (outs st')) (pm, st') = Inr s \<Longrightarrow>
    rr_step E (pm, st) s"
| ask: "rr_beat (prr pm) st = (a, rr, st') \<Longrightarrow> rr_step E (pm, st) (pm\<lparr>prr := rr\<rparr>, st')"
| impeached: "impeach st (prr pm) = Inr rr \<Longrightarrow> rr_step E (pm, st) (pm\<lparr>prr := rr\<rparr>, st)"
| expired: "rr_timer (prr pm) = Some (TimerExp k) \<Longrightarrow> on_exp_timeout E ts t1 t2 t3 (pm, st) = Inr s \<Longrightarrow> rr_step E (pm, st) s"
| delayed: "rr_timer (prr pm) = Some TimerPropDelay \<Longrightarrow> rotate_proposer st (prr pm) = Inr rr \<Longrightarrow>
    rr_step E (pm, st) (pm\<lparr>prr := rr\<rparr>, st)"
| posted: "todo (prr pm) = xs @ j # ys \<Longrightarrow>
    run_todo E waiting ts t1 t2 t3 j (pm\<lparr>prr := (prr pm)\<lparr>todo := xs @ ys\<rparr>\<rparr>, st) = Inr s \<Longrightarrow> rr_step E (pm, st) s"

definition rr_started :: "PaceMakerRR \<times> ('p, 'k, 's, 'b) core \<Rightarrow> bool" where
  "rr_started s \<longleftrightarrow> (\<exists>lim. fst s = prr_init lim (snd s))"

definition rr_reachable :: "('p, 'k, 's, 'b) env \<Rightarrow> PaceMakerRR \<times> ('p, 'k, 's, 'b) core \<Rightarrow> bool" where
  "rr_reachable E s \<longleftrightarrow> (\<exists>s0. rr_started s0 \<and> (rr_step E)\<^sup>*\<^sup>* s0 s)"

definition rr_ok :: "PMRoundRobinProposer \<Rightarrow> bool" where
  "rr_ok rr \<longleftrightarrow> rr_beats rr \<subseteq># mset [0..<rr_next rr] \<and> rr_short rr"

lemma rr_ok_shrinks: "shrinks rr rr' \<Longrightarrow> rr_ok rr \<Longrightarrow> rr_ok rr'"
  unfolding shrinks_def rr_ok_def using subset_mset.order_trans by auto

lemma rr_beat_ok:
  assumes "rr_beat rr st = (a, rr', st')" "rr_ok rr"
  shows "rr_ok rr'"
proof (cases "\<not> rotating rr \<and> rr_proposer rr = my_id st")
  case True
  let ?r = "rr\<lparr>rr_pending := rr_pending rr @ [rr_next rr], rr_next := Suc (rr_next rr)\<rparr>"
  have "rr_beats ?r = add_mset (rr_next rr) (rr_beats rr)" by (simp add: rr_beats_def)
  then have "rr_ok ?r" using assms(2) by (simp add: rr_ok_def rr_short_def)
  moreover have "proposer_schedule_next ?r st = (rr', st')" using assms(1) True by (simp add: rr_beat_def)
  ultimately show ?thesis using rr_ok_shrinks proposer_schedule_next_shrinks by blast
qed (use assms in \<open>auto simp: rr_beat_def\<close>)

lemma rr_ok_todo: "rr_ok rr \<Longrightarrow> todo rr = xs @ j # ys \<Longrightarrow> todo_short j \<and> rr_ok (rr\<lparr>todo := xs @ ys\<rparr>)"
  by (simp add: rr_ok_def rr_beats_def rr_short_def)

lemma rr_step_ok:
  assumes "rr_step E s s'" "rr_ok (prr (fst s))"
  shows "rr_ok (prr (fst s'))"
  using assms
proof (cases rule: rr_step.cases)
  case (report st st' ts pm)
  obtain pm' st2 where "s' = (pm', st2)" by (cases s')
  then show ?thesis using assms(2) rr_ok_shrinks [OF prr_events_shrinks] report(1,3) by simp
next
  case (impeached st pm rr)
  then show ?thesis using assms(2)
    by (auto simp: impeach_def split: if_split_asm dest!: rotate_proposer_shrinks intro: rr_ok_shrinks)
next
  case (expired pm k ts t1 t2 t3 st)
  then obtain pm1 st1 where n: "(if rr_proposer (prr pm) = my_id st then do_new_consensus E 0 [] ts t1 t2 t3 (pm, st) else Inr (pm, st)) = Inr (pm1, st1)"
    and s': "s' = (pm1\<lparr>prr := (prr pm1)\<lparr>rr_timer := Some TimerPropDelay\<rparr>\<rparr>, st1)"
    by (auto simp: on_exp_timeout_def bind_Inr_iff)
  have "shrinks (prr pm) (prr pm1)" using n do_new_consensus_shrinks by (fastforce split: if_split_asm)
  moreover have "shrinks (prr pm1) (prr (fst s'))" unfolding s' by (rule shrinks_same) simp_all
  ultimately show ?thesis using assms(2) expired(1) rr_ok_shrinks shrinks_trans by (metis fst_conv)
next
  case (posted pm xs j ys waiting ts t1 t2 t3 st)
  let ?pm = "pm\<lparr>prr := (prr pm)\<lparr>todo := xs @ ys\<rparr>\<rparr>"
  have ok: "todo_short j" "rr_ok (prr ?pm)" using rr_ok_todo [OF _ posted(2)] assms(2) posted(1) by simp_all
  have "shrinks (prr ?pm) (prr (fst s'))"
    using posted(3) ok(1) by (rule run_todo_shrinks)
  then show ?thesis using ok(2) rr_ok_shrinks by blast
qed (auto intro: rr_beat_ok rr_ok_shrinks rotate_proposer_shrinks)

lemma rr_started_ok: "rr_started s \<Longrightarrow> rr_ok (prr (fst s))"
proof -
  assume "rr_started s"
  then obtain lim where s: "fst s = prr_init lim (snd s)" by (auto simp: rr_started_def)
  have "rr_ok (PMRoundRobinProposer_new\<lparr>backoff := 0\<rparr>)"
    by (simp add: rr_ok_def rr_beats_def rr_short_def PMRoundRobinProposer_new_def)
  then show ?thesis unfolding s prr_init_def rr_init_def using rr_ok_shrinks [OF stop_rotate_shrinks] by simp
qed

interpretation rr_sys: evolving_system rr_started "rr_step E" "\<lambda>s. rr_ok (prr (fst s))" "\<lambda>_ _. True" for E
  by unfold_locales (auto intro: rr_started_ok rr_step_ok)

lemma rr_reachable_ok: "rr_reachable E s \<Longrightarrow> rr_ok (prr (fst s))"
  unfolding rr_reachable_def using rr_sys.reach_inv by blast

section \<open>Properties\<close>

definition rotations :: "nat \<Rightarrow> ('p, 'k, 's, 'b) core \<Rightarrow> PMRoundRobinProposer \<Rightarrow> PMRoundRobinProposer res" where
  "rotations k st rr = fold_res (\<lambda>_. rotate_proposer st) (replicate k ()) rr"

lemma rr_reject_frame [simp]:
  "rr_proposer (rr_reject h rr) = rr_proposer rr" "backoff (rr_reject h rr) = backoff rr" "rr_log (rr_reject h rr) = rr_log rr"
  "pm_qc_manual (rr_reject h rr) = pm_qc_manual rr"
  by (simp_all add: rr_reject_def split: option.split)

lemma rotate_proposer_next:
  assumes "unat (nreplicas (config st)) = n" "0 < n" "n \<le> 2 ^ 16"
  shows "\<exists>rr'. rotate_proposer st rr = Inr rr' \<and> unat (rr_proposer rr') = (unat (rr_proposer rr) + 1) mod n \<and>
    backoff rr' = Suc (backoff rr)"
proof -
  have "(unat (rr_proposer rr) + 1) mod n < 2 ^ 16" using assms(2,3) by (meson less_le_trans mod_less_divisor)
  then have "unat (of_nat ((unat (rr_proposer rr) + 1) mod n) :: ReplicaID) = (unat (rr_proposer rr) + 1) mod n"
    by (simp add: unsigned_of_nat take_bit_nat_eq_self)
  then show ?thesis using assms(1,2) by (simp add: rotate_proposer_eq turned_def reject_all_def)
qed

lemma rotations_next:
  assumes "unat (nreplicas (config st)) = n" "0 < n" "n \<le> 2 ^ 16"
  shows "\<exists>rr'. rotations k st rr = Inr rr' \<and> (unat (rr_proposer rr) < n \<longrightarrow> unat (rr_proposer rr') = (unat (rr_proposer rr) + k) mod n) \<and>
    backoff rr' = backoff rr + k"
proof (induction k arbitrary: rr)
  case 0
  then show ?case by (simp add: rotations_def)
next
  case (Suc k)
  obtain rr1 where r1: "rotate_proposer st rr = Inr rr1" "unat (rr_proposer rr1) = (unat (rr_proposer rr) + 1) mod n"
    "backoff rr1 = Suc (backoff rr)" using rotate_proposer_next [OF assms] by blast
  have "unat (rr_proposer rr1) < n" using r1(2) assms(2) by simp
  with Suc.IH [of rr1] obtain rr' where r': "rotations k st rr1 = Inr rr'"
    "unat (rr_proposer rr') = (unat (rr_proposer rr1) + k) mod n" "backoff rr' = backoff rr1 + k" by blast
  show ?case by (rule exI [of _ rr']) (use r1 r' in \<open>simp add: rotations_def mod_simps\<close>)
qed

text \<open>
  C22: Liveness of the rotation. From any proposer, fewer than \<open>n\<close> rotations make any chosen replica the
  proposer, and \<open>k\<close> rotations double the timeout \<open>k\<close> times; a rotation never fails while there are
  replicas.
\<close>

theorem rotation_reaches_all:
  assumes "unat (nreplicas (config st)) = n" "n \<le> 2 ^ 16" "unat (rr_proposer rr) < n" "t < n"
  shows "\<exists>k < n. \<exists>rr'. rotations k st rr = Inr rr' \<and> unat (rr_proposer rr') = t \<and> backoff rr' = backoff rr + k"
proof -
  define k where "k = (t + n - unat (rr_proposer rr)) mod n"
  have n: "0 < n" using assms(4) by simp
  have "(unat (rr_proposer rr) + k) mod n = (unat (rr_proposer rr) + (t + n - unat (rr_proposer rr))) mod n"
    unfolding k_def by (simp add: mod_simps)
  also have "\<dots> = t" using assms(3,4) by simp
  finally have "(unat (rr_proposer rr) + k) mod n = t" .
  moreover have "k < n" using n by (simp add: k_def)
  ultimately show ?thesis using rotations_next [OF assms(1) n assms(2), of k rr] assms(3) by blast
qed

lemma sample_three:
  "\<exists>st :: sample_core. boot tiny_env AggBLS 0 7 0 0 (0, 0) 2 0 0 [(0, 0, 7), (1, 1, 7), (2, 2, 7)] 0 = Inr st \<and>
     unat (nreplicas (config st)) = 3"
  by (simp add: boot_eval)

theorem rotation_reaches_all_witness:
  "\<exists>(st :: sample_core) k rr'. k < 3 \<and> rotations k st PMRoundRobinProposer_new = Inr rr' \<and> unat (rr_proposer rr') = 2"
proof -
  obtain st :: sample_core where st: "unat (nreplicas (config st)) = 3" using sample_three by blast
  have "unat (rr_proposer PMRoundRobinProposer_new) < 3" by (simp add: PMRoundRobinProposer_new_def)
  from rotation_reaches_all [OF st _ this, of 2] show ?thesis by auto
qed

text \<open>
  A beat of the rotating proposer is answered at most once, in every reachable state.
\<close>

theorem rotating_beat_at_most_once:
  assumes "rr_reachable E (pm, st)"
  shows "distinct (map fst (rr_log (prr pm)))"
proof -
  have "rr_beats (prr pm) \<subseteq># mset [0..<rr_next (prr pm)]" using rr_reachable_ok [OF assms] by (simp add: rr_ok_def)
  then have "mset (map fst (rr_log (prr pm))) \<subseteq># mset [0..<rr_next (prr pm)]"
    unfolding rr_beats_def by (metis mset_subset_eq_add_left subset_mset.order_trans)
  then obtain rest where "mset [0..<rr_next (prr pm)] = mset (map fst (rr_log (prr pm)) @ rest)"
    by (metis ex_mset mset_append subset_mset.less_eqE)
  then have "distinct (map fst (rr_log (prr pm)) @ rest)" by (metis distinct_upt mset_eq_imp_distinct_iff)
  then show ?thesis by simp
qed

text \<open>A replica that is the proposer answers a beat at once, because its genesis block is certified.\<close>

lemma sample_rr_run:
  "\<exists>pm (st :: sample_core). rr_reachable tiny_env (pm, st) \<and> rr_log (prr pm) = [(0, 0)] \<and> todo (prr pm) = [TodoRepropose]"
proof -
  have "\<exists>st0 :: sample_core. boot tiny_env AggBLS 0 7 0 0 (0, 0) 2 0 0 [(0, 0, 7)] 0 = Inr st0 \<and> b0 st0 = 0 \<and> my_id st0 = 0 \<and>
      voted (blk st0 0) = {0} \<and> nmajority (config st0) = 1"
    by (simp add: boot_eval)
  then obtain st0 :: sample_core where st0: "b0 st0 = 0" "my_id st0 = 0" "voted (blk st0 0) = {0}" "nmajority (config st0) = 1" by blast
  let ?pm = "prr_init 0 st0"
  have "\<exists>a rr. rr_beat (prr ?pm) st0 = (a, rr, st0) \<and> rr_log rr = [(0, 0)] \<and> todo rr = [TodoRepropose]"
    using st0 by (simp add: rr_beat_def prr_init_def rr_init_def stop_rotate_def reject_all_def rr_reject_def Let_def
        PMRoundRobinProposer_new_def proposer_update_last_proposed_def proposer_schedule_next_def async_qc_finish_def)
  then obtain a rr where r: "rr_beat (prr ?pm) st0 = (a, rr, st0)" "rr_log rr = [(0, 0)]" "todo rr = [TodoRepropose]" by blast
  have "rr_started (?pm, st0)" by (auto simp: rr_started_def)
  then have "rr_reachable tiny_env (?pm\<lparr>prr := rr\<rparr>, st0)"
    unfolding rr_reachable_def using rr_step.ask [OF r(1)] by blast
  with r show ?thesis by (intro exI conjI) (assumption, simp_all)
qed

theorem rotating_beat_at_most_once_witness:
  "\<exists>pm (st :: sample_core). rr_reachable tiny_env (pm, st) \<and> rr_log (prr pm) = [(0, 0)] \<and> distinct (map fst (rr_log (prr pm)))"
proof -
  obtain pm and st :: sample_core where s: "rr_reachable tiny_env (pm, st)" "rr_log (prr pm) = [(0, 0)]" using sample_rr_run by blast
  from rotating_beat_at_most_once [OF s(1)] s show ?thesis by blast
qed

text \<open>
  C23: Rotating loses a beat. When a beat waits for the certificate of the last proposal, a rotation rejects the
  promise it waits on; the later arrival of the certificate answers no beat.
\<close>

theorem rotation_drops_beat:
  assumes "pm_qc_finish rr = Some r" "rotate_proposer st rr = Inr rr'"
  shows "rr_log (rr_qc_finish r rr') = rr_log rr"
proof -
  have "rr_conts rr' = rr_conts (reject_all (turned st rr))"
    using assms(2) by (auto simp: rotate_proposer_eq split: if_split_asm)
  then have "filter (\<lambda>(q, _). q = r) (rr_conts rr') = []"
    using assms(1) by (cases "pm_qc_manual rr") (auto simp: turned_def reject_all_def rr_reject_def filter_empty_conv)
  moreover have "rr_log rr' = rr_log rr" using assms(2) by (auto simp: rotate_proposer_eq turned_def reject_all_def split: if_split_asm)
  ultimately show ?thesis by (simp add: rr_qc_finish_def)
qed

theorem rotation_drops_beat_witness:
  "\<exists>(st :: sample_core) rr rr'. rr_conts rr = [(4, ContBeat 0)] \<and> rotate_proposer st rr = Inr rr' \<and> rr_log (rr_qc_finish 4 rr') = []"
proof -
  obtain st :: sample_core where st: "unat (nreplicas (config st)) = 3" using sample_three by blast
  let ?rr = "PMRoundRobinProposer_new\<lparr>rr_conts := [(4, ContBeat 0)], pm_qc_finish := Some 4, rr_next := 1\<rparr>"
  obtain rr' where r: "rotate_proposer st ?rr = Inr rr'" using rotate_proposer_next [OF st, of ?rr] by auto
  from rotation_drops_beat [OF _ r, of 4] have "rr_log (rr_qc_finish 4 rr') = []" by (simp add: PMRoundRobinProposer_new_def)
  with r show ?thesis by (intro exI [of _ st] exI [of _ ?rr] exI [of _ rr']) simp
qed

end
