(* ===== verification/Hs_Promise.thy ===== *)
theory Hs_Promise
  imports Hs_Prelude "HOL-Library.Multiset"
begin

text \<open>
  The promises of \<^verbatim>\<open>include/hotstuff/promise.hpp\<close>, in the variant the build
  compiles (\<open>CPPROMISE_USE_STACK_FREE\<close> is not defined): resolving a promise calls its callbacks
  before it returns.

  A \<open>promise_t\<close> is an address in a list of \<open>Promise\<close> objects. Callbacks are closures over
  addresses: the function they apply (a user's function, known by a number, or one of the lambdas
  of the header), the promise whose result they read, and the promise \<open>then\<close> returned. What a
  user's function does is a parameter: the promises it settles, and whether it returns nothing, a
  value or a promise; a value of the wrong type makes it throw. Nested calls are run depth first
  from an agenda, whose order is the order of the calls in C++.
\<close>

section \<open>Promises, callbacks and calls\<close>

text \<open>\<open>pm_any_t\<close>: empty, a value, or the vector of values of \<open>all\<close>.\<close>

datatype 'v any = Empty | Val 'v | Vals "'v any list"

datatype pm_state = Pending | Fulfilled | Rejected

datatype fn =
    FnUser nat
  | FnResolve nat          \<comment> \<open>\<open>[npm](pm_any_t result) {npm->resolve(result);}\<close>\<close>
  | FnReject nat
  | FnAll nat nat nat      \<comment> \<open>the lambda of \<open>all\<close>: its counter, its index, its promise\<close>

datatype callback =
    Clo fn nat nat bool    \<comment> \<open>function, source, promise of \<open>then\<close>, called on rejection\<close>
  | Forward nat nat bool   \<comment> \<open>\<open>[this, npm]() {npm->_reject(reason);}\<close>\<close>

record 'v Promise =
  fulfilled_callbacks :: "callback list"
  rejected_callbacks :: "callback list"
  state :: pm_state
  result :: "'v any"
  reason :: "'v any"

definition Promise_new :: "'v Promise" where
  "Promise_new = \<lparr>fulfilled_callbacks = [], rejected_callbacks = [], state = Pending, result = Empty, reason = Empty\<rparr>"

text \<open>What is still to be called: settle a promise (with or without a value), call a callback,
  clear the callbacks after the loop over them, \<open>then\<close> with two functions.\<close>

datatype 'v task =
    TSettle bool nat "'v any option"
  | TCall callback
  | TClear nat bool
  | TThen nat fn fn

datatype 'v ret = RetVoid | RetAny "'v any" | RetPromise nat

record 'v action =
  act_reject :: bool
  act_target :: nat
  act_value :: "'v any option"

type_synonym 'v user = "nat \<Rightarrow> 'v any \<Rightarrow> ('v action list \<times> 'v ret) res"

record 'v pstate =
  pms :: "'v Promise list"
  cells :: "(nat \<times> 'v any list) list"
  calls :: "(nat \<times> 'v any) list"

definition upd_pm :: "nat \<Rightarrow> ('v Promise \<Rightarrow> 'v Promise) \<Rightarrow> 'v pstate \<Rightarrow> 'v pstate" where
  "upd_pm p f s = s\<lparr>pms := (pms s)[p := f (pms s ! p)]\<rparr>"

section \<open>Settling\<close>

definition trigger_fulfill :: "nat \<Rightarrow> 'v pstate \<Rightarrow> 'v task list \<times> 'v pstate" where
  "trigger_fulfill p s =
     (map TCall (fulfilled_callbacks (pms s ! p)) @ [TClear p False], upd_pm p (\<lambda>x. x\<lparr>state := Fulfilled\<rparr>) s)"

definition trigger_reject :: "nat \<Rightarrow> 'v pstate \<Rightarrow> 'v task list \<times> 'v pstate" where
  "trigger_reject p s =
     (map TCall (rejected_callbacks (pms s ! p)) @ [TClear p True], upd_pm p (\<lambda>x. x\<lparr>state := Rejected\<rparr>) s)"

text \<open>The four members \<open>resolve\<close> and \<open>reject\<close>.\<close>

definition settle :: "bool \<Rightarrow> nat \<Rightarrow> 'v any option \<Rightarrow> 'v pstate \<Rightarrow> ('v task list \<times> 'v pstate) res" where
  "settle rej p v s =
     bind (guard (p < length (pms s)) NullDeref) (\<lambda>_.
       if state (pms s ! p) \<noteq> Pending then Inr ([], s)
       else if rej then
         Inr (trigger_reject p (case v of None \<Rightarrow> s | Some x \<Rightarrow> upd_pm p (\<lambda>y. y\<lparr>reason := x\<rparr>) s))
       else
         Inr (trigger_fulfill p (case v of None \<Rightarrow> s | Some x \<Rightarrow> upd_pm p (\<lambda>y. y\<lparr>result := x\<rparr>) s)))"

section \<open>Registering callbacks\<close>

definition alloc_pm :: "'v pstate \<Rightarrow> nat \<times> 'v pstate" where
  "alloc_pm s = (length (pms s), s\<lparr>pms := pms s @ [Promise_new]\<rparr>)"

definition add_callbacks :: "nat \<Rightarrow> callback \<Rightarrow> callback \<Rightarrow> 'v pstate \<Rightarrow> 'v pstate" where
  "add_callbacks p f g s =
     upd_pm p (\<lambda>x. x\<lparr>fulfilled_callbacks := fulfilled_callbacks x @ [f],
                     rejected_callbacks := rejected_callbacks x @ [g]\<rparr>) s"

text \<open>The three ways to attach to a promise: the callback for each outcome, which is stored when the
  promise is pending and called at once when it is settled.\<close>

definition attach :: "nat \<Rightarrow> (nat \<Rightarrow> callback) \<Rightarrow> (nat \<Rightarrow> callback) \<Rightarrow> 'v pstate \<Rightarrow> (nat \<times> 'v task list \<times> 'v pstate) res" where
  "attach p f g s =
     bind (guard (p < length (pms s)) NullDeref) (\<lambda>_.
       let (npm, s) = alloc_pm s in
       Inr (case state (pms s ! p) of
              Pending \<Rightarrow> (npm, [], add_callbacks p (f npm) (g npm) s)
            | Fulfilled \<Rightarrow> (npm, [TCall (f npm)], s)
            | Rejected \<Rightarrow> (npm, [TCall (g npm)], s)))"

definition then_both :: "nat \<Rightarrow> fn \<Rightarrow> fn \<Rightarrow> 'v pstate \<Rightarrow> (nat \<times> 'v task list \<times> 'v pstate) res" where
  "then_both p f g = attach p (\<lambda>npm. Clo f p npm False) (\<lambda>npm. Clo g p npm True)"

definition then_ful :: "nat \<Rightarrow> fn \<Rightarrow> 'v pstate \<Rightarrow> (nat \<times> 'v task list \<times> 'v pstate) res" where
  "then_ful p f = attach p (\<lambda>npm. Clo f p npm False) (\<lambda>npm. Forward p npm True)"

definition fail :: "nat \<Rightarrow> fn \<Rightarrow> 'v pstate \<Rightarrow> (nat \<times> 'v task list \<times> 'v pstate) res" where
  "fail p g = attach p (\<lambda>npm. Forward p npm False) (\<lambda>npm. Clo g p npm True)"

definition all_pm :: "nat list \<Rightarrow> 'v pstate \<Rightarrow> (nat \<times> 'v task list \<times> 'v pstate) res" where
  "all_pm ps s =
     (let (npm, s) = alloc_pm s in
      if ps = [] then Inl (RuntimeError ''mismatching promise value types'')
      else
        let c = length (cells s); s = s\<lparr>cells := cells s @ [(length ps, replicate (length ps) Empty)]\<rparr> in
        Inr (npm, map (\<lambda>(i, p). TThen p (FnAll c i npm) (FnReject npm)) (zip [0..<length ps] ps), s))"

definition race :: "nat list \<Rightarrow> 'v pstate \<Rightarrow> (nat \<times> 'v task list \<times> 'v pstate) res" where
  "race ps s =
     (let (npm, s) = alloc_pm s in Inr (npm, map (\<lambda>p. TThen p (FnResolve npm) (FnReject npm)) ps, s))"

section \<open>Calling callbacks\<close>

definition action_task :: "'v action \<Rightarrow> 'v task" where
  "action_task a = TSettle (act_reject a) (act_target a) (act_value a)"

fun ret_tasks :: "bool \<Rightarrow> nat \<Rightarrow> 'v ret \<Rightarrow> 'v task list" where
  "ret_tasks rej npm RetVoid = [TSettle rej npm None]"
| "ret_tasks rej npm (RetAny v) = [TSettle rej npm (Some v)]"
| "ret_tasks rej npm (RetPromise q) = [TThen q (FnResolve npm) (FnReject npm)]"

text \<open>\<open>--*size\<close> on a \<open>size_t\<close>.\<close>

definition dec_size :: "nat \<Rightarrow> nat" where
  "dec_size n = (if n = 0 then 2 ^ 64 - 1 else n - 1)"

fun apply_fn ::
  "'v user \<Rightarrow> fn \<Rightarrow> 'v any \<Rightarrow> nat \<Rightarrow> bool \<Rightarrow> 'v pstate \<Rightarrow> ('v task list \<times> 'v pstate) res" where
  "apply_fn U (FnUser i) arg npm rej s =
     bind (U i arg) (\<lambda>(acts, ret).
       Inr (map action_task acts @ ret_tasks rej npm ret, s\<lparr>calls := calls s @ [(i, arg)]\<rparr>))"
| "apply_fn U (FnResolve q) arg npm rej s = Inr ([TSettle False q (Some arg), TSettle rej npm None], s)"
| "apply_fn U (FnReject q) arg npm rej s = Inr ([TSettle True q (Some arg), TSettle rej npm None], s)"
| "apply_fn U (FnAll c i q) arg npm rej s =
     bind (guard (c < length (cells s)) NullDeref) (\<lambda>_.
     case cells s ! c of (n, rs) \<Rightarrow>
     bind (guard (i < length rs) OutOfRange) (\<lambda>_.
     let n = dec_size n; rs = rs[i := arg]; s = s\<lparr>cells := (cells s)[c := (n, rs)]\<rparr> in
     Inr ((if n = 0 then [TSettle False q (Some (Vals rs))] else []) @ [TSettle rej npm None], s)))"

definition outcome_of :: "bool \<Rightarrow> nat \<Rightarrow> 'v pstate \<Rightarrow> 'v any res" where
  "outcome_of rej p s =
     bind (guard (p < length (pms s)) NullDeref) (\<lambda>_.
       Inr (if rej then reason (pms s ! p) else result (pms s ! p)))"

fun call_back :: "'v user \<Rightarrow> callback \<Rightarrow> 'v pstate \<Rightarrow> ('v task list \<times> 'v pstate) res" where
  "call_back U (Clo f p npm rej) s = bind (outcome_of rej p s) (\<lambda>arg. apply_fn U f arg npm rej s)"
| "call_back U (Forward p npm rej) s = bind (outcome_of rej p s) (\<lambda>arg. Inr ([TSettle rej npm (Some arg)], s))"

definition clear_callbacks :: "nat \<Rightarrow> bool \<Rightarrow> 'v pstate \<Rightarrow> 'v pstate" where
  "clear_callbacks p rej s =
     upd_pm p (\<lambda>x. if rej then x\<lparr>rejected_callbacks := []\<rparr> else x\<lparr>fulfilled_callbacks := []\<rparr>) s"

fun exec1 :: "'v user \<Rightarrow> 'v task \<Rightarrow> 'v pstate \<Rightarrow> ('v task list \<times> 'v pstate) res" where
  "exec1 U (TSettle rej p v) s = settle rej p v s"
| "exec1 U (TCall cb) s = call_back U cb s"
| "exec1 U (TClear p rej) s = Inr ([], clear_callbacks p rej s)"
| "exec1 U (TThen p f g) s = bind (then_both p f g s) (\<lambda>(_, ts, s). Inr (ts, s))"

section \<open>Every call returns\<close>

text \<open>The functions that can still be called: those of the callbacks on the agenda and of the
  callbacks of pending promises. \<open>None\<close> stands for a callback that only forwards.\<close>

fun user_fn :: "fn option \<Rightarrow> bool" where
  "user_fn (Some (FnUser i)) = True"
| "user_fn _ = False"

fun cb_fn :: "callback \<Rightarrow> fn option" where
  "cb_fn (Clo f p npm rej) = Some f"
| "cb_fn (Forward p npm rej) = None"

definition stored :: "'v Promise \<Rightarrow> fn option multiset" where
  "stored x = (if state x = Pending then mset (map cb_fn (fulfilled_callbacks x @ rejected_callbacks x)) else {#})"

fun task_fns :: "'v task \<Rightarrow> fn option multiset" where
  "task_fns (TCall cb) = {#cb_fn cb#}"
| "task_fns (TThen p f g) = {#Some f, Some g#}"
| "task_fns _ = {#}"

definition heap_fns :: "'v pstate \<Rightarrow> fn option multiset" where
  "heap_fns s = sum_list (map stored (pms s))"

definition agenda_fns :: "'v task list \<Rightarrow> fn option multiset" where
  "agenda_fns ts = sum_list (map task_fns ts)"

definition left :: "'v task list \<Rightarrow> 'v pstate \<Rightarrow> fn option multiset" where
  "left ts s = agenda_fns ts + heap_fns s"

fun is_then :: "'v task \<Rightarrow> bool" where
  "is_then (TThen p f g) = True"
| "is_then _ = False"

definition user_left :: "'v task list \<Rightarrow> 'v pstate \<Rightarrow> nat" where
  "user_left ts s = size (filter_mset user_fn (left ts s))"

definition lib_left :: "'v task list \<Rightarrow> 'v pstate \<Rightarrow> nat" where
  "lib_left ts s = size (filter_mset (\<lambda>f. \<not> user_fn f) (left ts s)) + length (filter is_then ts)"

definition pending_left :: "'v pstate \<Rightarrow> nat" where
  "pending_left s = sum_list (map (\<lambda>x. of_bool (state x = Pending)) (pms s))"

lemma agenda_fns_simps [simp]:
  "agenda_fns [] = {#}" "agenda_fns (t # ts) = task_fns t + agenda_fns ts"
  "agenda_fns (ts @ ts') = agenda_fns ts + agenda_fns ts'"
  by (simp_all add: agenda_fns_def)

lemma agenda_fns_calls [simp]:
  "agenda_fns (map TCall cs) = mset (map cb_fn cs)"
  "agenda_fns (map action_task as) = {#}"
  "filter is_then (map TCall cs) = []"
  "filter is_then (map action_task as) = []"
  by (induction cs; simp) (induction as; simp add: action_task_def)+

text \<open>Replacing one promise of the list.\<close>

lemma sum_list_upd:
  fixes f :: "'a \<Rightarrow> 'm :: comm_monoid_add"
  shows "p < length xs \<Longrightarrow> sum_list (map f (xs[p := x])) + f (xs ! p) = sum_list (map f xs) + f x"
proof (induction xs arbitrary: p)
  case (Cons y ys)
  show ?case
  proof (cases p)
    case (Suc q)
    then have "sum_list (map f (ys[q := x])) + f (ys ! q) = sum_list (map f ys) + f x" using Cons by simp
    then show ?thesis using Suc by (simp add: add.assoc)
  qed (simp add: ac_simps)
qed simp

lemma heap_fns_upd:
  "p < length (pms s) \<Longrightarrow> heap_fns (upd_pm p f s) + stored (pms s ! p) = heap_fns s + stored (f (pms s ! p))"
  unfolding heap_fns_def upd_pm_def by (simp add: sum_list_upd)

lemma pending_left_upd:
  assumes "p < length (pms s)" "state (pms s ! p) = Pending" "state (f (pms s ! p)) \<noteq> Pending"
  shows "pending_left (upd_pm p f s) < pending_left s"
  using sum_list_upd [OF assms(1), of "\<lambda>x. of_bool (state x = Pending) :: nat" "f (pms s ! p)"] assms(2,3)
  by (simp add: pending_left_def upd_pm_def)

text \<open>Settling moves the callbacks of one outcome to the agenda.\<close>

lemma settle_cases:
  assumes "settle rej p v s = Inr (ts', s')"
  obtains (settled) "p < length (pms s)" "state (pms s ! p) \<noteq> Pending" "ts' = []" "s' = s"
  | (pending) f cs where "p < length (pms s)" "state (pms s ! p) = Pending" "s' = upd_pm p f s"
      "state (f (pms s ! p)) = (if rej then Rejected else Fulfilled)" "ts' = map TCall cs @ [TClear p rej]"
      "cs = (if rej then rejected_callbacks (pms s ! p) else fulfilled_callbacks (pms s ! p))"
proof -
  from assms have p: "p < length (pms s)" by (auto simp: settle_def res_iff)
  show ?thesis
  proof (cases "state (pms s ! p) = Pending")
    case True
    define f where "f = (\<lambda>x :: 'a Promise. (case v of None \<Rightarrow> x | Some y \<Rightarrow> if rej then x\<lparr>reason := y\<rparr> else x\<lparr>result := y\<rparr>)
      \<lparr>state := if rej then Rejected else Fulfilled\<rparr>)"
    let ?cs = "if rej then rejected_callbacks (pms s ! p) else fulfilled_callbacks (pms s ! p)"
    have "s' = upd_pm p f s \<and> ts' = map TCall ?cs @ [TClear p rej]"
      using assms True p
      by (cases v; cases rej) (auto simp: settle_def trigger_fulfill_def trigger_reject_def upd_pm_def f_def)
    moreover have "state (f (pms s ! p)) = (if rej then Rejected else Fulfilled)" by (simp add: f_def)
    ultimately show ?thesis using pending [of f ?cs] p True by simp
  next
    case False
    then show ?thesis using settled p assms by (simp add: settle_def)
  qed
qed

lemma settle_left:
  assumes "settle rej p v s = Inr (ts', s')"
  shows "left (ts' @ ts) s' \<subseteq># left ts s \<and> filter is_then ts' = [] \<and> pending_left s' \<le> pending_left s \<and>
    (ts' \<noteq> [] \<longrightarrow> pending_left s' < pending_left s)"
  using assms
proof (cases rule: settle_cases)
  case (pending f cs)
  have "stored (f (pms s ! p)) = {#}" using pending(4) by (simp add: stored_def)
  with heap_fns_upd [OF pending(1), of f] have h: "heap_fns s' + stored (pms s ! p) = heap_fns s" using pending(3) by simp
  have "mset (map cb_fn cs) \<subseteq># stored (pms s ! p)" using pending(2,6) by (simp add: stored_def)
  then have "agenda_fns ts' + heap_fns s' \<subseteq># heap_fns s" unfolding h [symmetric] using pending(5) by (simp add: add.commute)
  then have "left (ts' @ ts) s' \<subseteq># left ts s" by (simp add: left_def add.assoc add.left_commute)
  moreover have "pending_left s' < pending_left s" using pending_left_upd [OF pending(1,2), of f] pending(3,4) by simp
  ultimately show ?thesis using pending(5) by simp
qed simp

lemma upd_pm_outside: "\<not> p < length (pms s) \<Longrightarrow> upd_pm p f s = s"
  by (simp add: upd_pm_def list_update_beyond)

lemma clear_left:
  "left ts (clear_callbacks p rej s) \<subseteq># left ts s \<and> pending_left (clear_callbacks p rej s) = pending_left s"
proof (cases "p < length (pms s)")
  case True
  define f where "f = (\<lambda>x :: 'a Promise. if rej then x\<lparr>rejected_callbacks := []\<rparr> else x\<lparr>fulfilled_callbacks := []\<rparr>)"
  have c: "clear_callbacks p rej s = upd_pm p f s" by (simp add: clear_callbacks_def f_def)
  have "stored (f (pms s ! p)) \<subseteq># stored (pms s ! p)" by (simp add: stored_def f_def)
  then have "heap_fns (upd_pm p f s) + stored (f (pms s ! p)) \<subseteq># heap_fns s + stored (f (pms s ! p))"
    using heap_fns_upd [OF True, of f] by (metis subset_mset.add_left_mono)
  then have "heap_fns (upd_pm p f s) \<subseteq># heap_fns s" by simp
  moreover have "state (f (pms s ! p)) = state (pms s ! p)" by (simp add: f_def)
  with sum_list_upd [OF True, of "\<lambda>x. of_bool (state x = Pending) :: nat" "f (pms s ! p)"]
  have "pending_left (upd_pm p f s) = pending_left s" by (simp add: pending_left_def upd_pm_def)
  ultimately show ?thesis unfolding c by (simp add: left_def)
qed (simp add: clear_callbacks_def upd_pm_outside)

lemma stored_new [simp]: "stored Promise_new = {#}"
  by (simp add: stored_def Promise_new_def)

lemma attach_left:
  assumes "attach p f g s = Inr (npm, ts', s')"
  shows "left ts' s' \<subseteq># {#cb_fn (f npm), cb_fn (g npm)#} + heap_fns s \<and> (\<forall>t \<in> set ts'. \<exists>c. t = TCall c) \<and>
    length ts' \<le> 1 \<and> npm = length (pms s) \<and> calls s' = calls s"
proof -
  let ?s1 = "s\<lparr>pms := pms s @ [Promise_new]\<rparr>"
  from assms have p: "p < length (pms s)" and npm: "npm = length (pms s)" by (auto simp: attach_def alloc_pm_def Let_def res_iff split: pm_state.split_asm)
  have h1: "heap_fns ?s1 = heap_fns s" and p1: "p < length (pms ?s1)" using p by (simp_all add: heap_fns_def)
  show ?thesis
  proof (cases "state (pms ?s1 ! p)")
    case Pending
    then have s': "ts' = []" "s' = add_callbacks p (f npm) (g npm) ?s1"
      using assms p npm by (auto simp: attach_def alloc_pm_def Let_def)
    let ?h = "\<lambda>x :: 'a Promise. x\<lparr>fulfilled_callbacks := fulfilled_callbacks x @ [f npm], rejected_callbacks := rejected_callbacks x @ [g npm]\<rparr>"
    have "stored (?h (pms ?s1 ! p)) = {#cb_fn (f npm), cb_fn (g npm)#} + stored (pms ?s1 ! p)"
      using Pending by (simp add: stored_def)
    with heap_fns_upd [OF p1, of ?h] h1 have "heap_fns (upd_pm p ?h ?s1) = {#cb_fn (f npm), cb_fn (g npm)#} + heap_fns s"
      by (simp add: add.assoc)
    then show ?thesis using s' npm by (simp add: left_def add_callbacks_def upd_pm_def)
  qed (use assms p npm h1 in \<open>auto simp: attach_def alloc_pm_def Let_def left_def\<close>)
qed

text \<open>Calling a callback: one function fewer. A user's function may hand over to two more lambdas of
  the header.\<close>

lemma apply_fn_left:
  assumes "apply_fn U f arg npm rej s = Inr (ts', s')"
  shows "heap_fns s' = heap_fns s \<and> filter_mset user_fn (agenda_fns ts') = {#} \<and>
    (\<not> user_fn (Some f) \<longrightarrow> agenda_fns ts' = {#} \<and> filter is_then ts' = [] \<and> calls s' = calls s) \<and>
    (\<forall>i. f = FnUser i \<longrightarrow> calls s' = calls s @ [(i, arg)])"
proof (cases f)
  case (FnUser i)
  with assms obtain acts ret where "U i arg = Inr (acts, ret)" and ts': "ts' = map action_task acts @ ret_tasks rej npm ret"
    and s': "s' = s\<lparr>calls := calls s @ [(i, arg)]\<rparr>" by (auto simp: bind_Inr_iff)
  have "filter_mset user_fn (agenda_fns (ret_tasks rej npm ret)) = {#}" by (cases ret) simp_all
  then show ?thesis using FnUser by (simp add: ts' s' heap_fns_def)
qed (use assms in \<open>auto simp: heap_fns_def bind_Inr_iff Let_def case_prod_unfold split: if_split_asm\<close>)

lemma call_back_left:
  assumes "call_back U cb s = Inr (ts', s')"
  shows "heap_fns s' = heap_fns s \<and> filter_mset user_fn (agenda_fns ts') = {#} \<and>
    (\<not> user_fn (cb_fn cb) \<longrightarrow> agenda_fns ts' = {#} \<and> filter is_then ts' = [] \<and> calls s' = calls s) \<and>
    (\<forall>i. cb_fn cb = Some (FnUser i) \<longrightarrow> (\<exists>arg. calls s' = calls s @ [(i, arg)]))"
proof (cases cb)
  case (Clo f p n rej)
  with assms obtain arg where "apply_fn U f arg n rej s = Inr (ts', s')" by (auto simp: bind_Inr_iff)
  from apply_fn_left [OF this] Clo show ?thesis by auto
qed (use assms in \<open>auto simp: bind_Inr_iff\<close>)

lemma size_filter_mono: "A \<subseteq># B \<Longrightarrow> size (filter_mset P A) \<le> size (filter_mset P B)"
  by (simp add: size_mset_mono multiset_filter_mono)

lemma exec1_decreases:
  assumes "exec1 U t s = Inr (ts', s')"
  shows "user_left (ts' @ ts) s' < user_left (t # ts) s \<or>
    user_left (ts' @ ts) s' \<le> user_left (t # ts) s \<and> lib_left (ts' @ ts) s' < lib_left (t # ts) s \<or>
    user_left (ts' @ ts) s' \<le> user_left (t # ts) s \<and> lib_left (ts' @ ts) s' \<le> lib_left (t # ts) s \<and>
      (pending_left s' < pending_left s \<or> pending_left s' \<le> pending_left s \<and> length (ts' @ ts) < length (t # ts))"
proof -
  have less: "user_left us s1 \<le> user_left ts1 s \<and> size (filter_mset (\<lambda>f. \<not> user_fn f) (left us s1)) \<le> size (filter_mset (\<lambda>f. \<not> user_fn f) (left ts1 s))"
    if "left us s1 \<subseteq># left ts1 s" for us ts1 :: "'a task list" and s1
    using size_filter_mono [OF that] by (simp add: user_left_def)
  show ?thesis
  proof (cases t)
    case (TSettle rej p v)
    with assms have "settle rej p v s = Inr (ts', s')" by simp
    from settle_left [OF this, of ts] have l: "left (ts' @ ts) s' \<subseteq># left (t # ts) s" "filter is_then ts' = []"
      "pending_left s' \<le> pending_left s" "ts' \<noteq> [] \<longrightarrow> pending_left s' < pending_left s"
      using TSettle by (auto simp: left_def)
    with less [OF l(1)] TSettle show ?thesis by (cases "ts' = []") (auto simp: lib_left_def)
  next
    case (TClear p rej)
    with assms have e: "ts' = []" "s' = clear_callbacks p rej s" by simp_all
    have "left (ts' @ ts) s' \<subseteq># left (t # ts) s" using clear_left [of ts p rej s] TClear e by (simp add: left_def)
    from less [OF this] clear_left [of ts p rej s] e TClear show ?thesis by (auto simp: lib_left_def)
  next
    case (TThen p f g)
    with assms obtain n where "attach p (\<lambda>npm. Clo f p npm False) (\<lambda>npm. Clo g p npm True) s = Inr (n, ts', s')"
      by (auto simp: bind_Inr_iff then_both_def)
    from attach_left [OF this] have l: "left ts' s' \<subseteq># {#Some f, Some g#} + heap_fns s" and c: "\<forall>t \<in> set ts'. \<exists>c. t = TCall c"
      by auto
    have "left (ts' @ ts) s' = left ts' s' + agenda_fns ts" by (simp add: left_def ac_simps)
    also have "\<dots> \<subseteq># ({#Some f, Some g#} + heap_fns s) + agenda_fns ts" using l by (rule subset_mset.add_right_mono)
    also have "\<dots> = left (t # ts) s" using TThen by (simp add: left_def ac_simps)
    finally have "left (ts' @ ts) s' \<subseteq># left (t # ts) s" .
    moreover have "filter is_then ts' = []" using c by (fastforce simp: filter_empty_conv)
    ultimately show ?thesis using less TThen by (force simp: lib_left_def)
  next
    case (TCall cb)
    with assms have "call_back U cb s = Inr (ts', s')" by simp
    note c = call_back_left [OF this]
    show ?thesis
    proof (cases "user_fn (cb_fn cb)")
      case True
      then have "user_left (ts' @ ts) s' < user_left (t # ts) s" using c TCall by (simp add: user_left_def left_def)
      then show ?thesis by simp
    next
      case False
      then show ?thesis using c TCall by (simp add: user_left_def lib_left_def left_def)
    qed
  qed
qed

function run :: "'v user \<Rightarrow> 'v task list \<Rightarrow> 'v pstate \<Rightarrow> 'v pstate res" where
  "run U [] s = Inr s"
| "run U (t # ts) s = bind (exec1 U t s) (\<lambda>(ts', s'). run U (ts' @ ts) s')"
  by pat_completeness auto

termination
proof (relation "measures [\<lambda>(U, ts, s). user_left ts s, \<lambda>(U, ts, s). lib_left ts s, \<lambda>(U, ts, s). pending_left s, \<lambda>(U, ts, s). length ts]")
  show "wf (measures [\<lambda>(U, ts, s). user_left ts s, \<lambda>(U, ts, s). lib_left ts s, \<lambda>(U, ts, s). pending_left s, \<lambda>(U, ts, s). length ts])"
    by simp
next
  fix U :: "'v user" and t ts s x ts' s'
  assume "exec1 U t s = Inr x" "(ts', s') = x"
  then have "exec1 U t s = Inr (ts', s')" by simp
  from exec1_decreases [OF this, of ts]
  show "((U, ts' @ ts, s'), U, t # ts, s) \<in> measures [\<lambda>(U, ts, s). user_left ts s, \<lambda>(U, ts, s). lib_left ts s, \<lambda>(U, ts, s). pending_left s, \<lambda>(U, ts, s). length ts]"
    by (auto simp: measures_def)
qed

text \<open>The calls a program makes: they return when every call they started has returned.\<close>

definition resolve :: "'v user \<Rightarrow> nat \<Rightarrow> 'v any option \<Rightarrow> 'v pstate \<Rightarrow> 'v pstate res" where
  "resolve U p v s = run U [TSettle False p v] s"

definition reject :: "'v user \<Rightarrow> nat \<Rightarrow> 'v any option \<Rightarrow> 'v pstate \<Rightarrow> 'v pstate res" where
  "reject U p v s = run U [TSettle True p v] s"

definition after_calls :: "'v user \<Rightarrow> (nat \<times> 'v task list \<times> 'v pstate) res \<Rightarrow> (nat \<times> 'v pstate) res" where
  "after_calls U m = bind m (\<lambda>(npm, ts, s). bind (run U ts s) (\<lambda>s. Inr (npm, s)))"

text \<open>What every call keeps, of the agenda and the promises together.\<close>

lemma run_keeps:
  assumes "run U ts s = Inr s'" "P ts s"
    and "\<And>t ts s ts' s'. P (t # ts) s \<Longrightarrow> exec1 U t s = Inr (ts', s') \<Longrightarrow> P (ts' @ ts) s'"
  shows "P [] s'"
  using assms
proof (induction U ts s rule: run.induct)
  case (2 U t ts s)
  from "2.prems"(1) obtain ts1 s1 where e: "exec1 U t s = Inr (ts1, s1)" and r: "run U (ts1 @ ts) s1 = Inr s'"
    by (auto simp: bind_Inr_iff)
  show ?case by (rule "2.IH" [OF e refl r "2.prems"(3) [OF "2.prems"(2) e] "2.prems"(3)])
qed simp

section \<open>A settled promise stays settled\<close>

definition same_outcome :: "'v pstate \<Rightarrow> 'v pstate \<Rightarrow> bool" where
  "same_outcome s s' \<longleftrightarrow> length (pms s) \<le> length (pms s') \<and>
     (\<forall>p < length (pms s). state (pms s ! p) \<noteq> Pending \<longrightarrow>
        state (pms s' ! p) = state (pms s ! p) \<and> result (pms s' ! p) = result (pms s ! p) \<and> reason (pms s' ! p) = reason (pms s ! p))"

lemma same_outcome_refl [simp]: "same_outcome s s"
  by (simp add: same_outcome_def)

lemma same_outcome_trans: "same_outcome s s1 \<Longrightarrow> same_outcome s1 s2 \<Longrightarrow> same_outcome s s2"
  unfolding same_outcome_def by (metis order.strict_trans2 order.trans)

lemma same_outcome_upd:
  assumes "\<And>x. x = pms s ! p \<Longrightarrow> state x \<noteq> Pending \<Longrightarrow> state (f x) = state x \<and> result (f x) = result x \<and> reason (f x) = reason x"
  shows "same_outcome s (upd_pm p f s)"
proof -
  have "pms (upd_pm p f s) ! q = (if q = p then f (pms s ! p) else pms s ! q)" if "q < length (pms s)" for q
    using that by (simp add: upd_pm_def nth_list_update)
  then show ?thesis using assms by (auto simp: same_outcome_def) (simp_all add: upd_pm_def)
qed

lemma apply_fn_pms: "apply_fn U f arg npm rej s = Inr (ts', s') \<Longrightarrow> pms s' = pms s"
  by (cases f) (auto simp: bind_Inr_iff Let_def case_prod_unfold)

lemma call_back_pms: "call_back U cb s = Inr (ts', s') \<Longrightarrow> pms s' = pms s"
  by (cases cb) (auto simp: bind_Inr_iff dest: apply_fn_pms)

lemma attach_outcome:
  assumes "attach p f g s = Inr (npm, ts', s')"
  shows "same_outcome s s'"
proof -
  let ?s1 = "s\<lparr>pms := pms s @ [Promise_new]\<rparr>"
  have "same_outcome s ?s1" by (simp add: same_outcome_def nth_append)
  moreover have "s' = ?s1 \<or> s' = add_callbacks p (f npm) (g npm) ?s1"
    using assms by (auto simp: attach_def alloc_pm_def Let_def res_iff split: pm_state.split_asm)
  moreover have "same_outcome ?s1 (add_callbacks p (f npm) (g npm) ?s1)"
    unfolding add_callbacks_def by (rule same_outcome_upd) simp
  ultimately show ?thesis using same_outcome_trans by blast
qed

lemma exec1_outcome:
  assumes "exec1 U t s = Inr (ts', s')"
  shows "same_outcome s s'"
proof (cases t)
  case (TSettle rej p v)
  with assms have "settle rej p v s = Inr (ts', s')" by simp
  then show ?thesis by (cases rule: settle_cases) (auto intro: same_outcome_upd)
next
  case (TCall cb)
  then have "pms s' = pms s" using assms call_back_pms by auto
  then show ?thesis by (simp add: same_outcome_def)
next
  case (TClear p rej)
  then have "s' = clear_callbacks p rej s" using assms by simp
  then show ?thesis by (auto simp: clear_callbacks_def intro!: same_outcome_upd)
next
  case (TThen p f g)
  then show ?thesis using assms attach_outcome by (auto simp: bind_Inr_iff then_both_def)
qed

lemma run_outcome:
  assumes "run U ts s = Inr s'"
  shows "same_outcome s s'"
  using assms same_outcome_refl
  by (rule run_keeps [where P = "\<lambda>_. same_outcome s"]) (blast intro: same_outcome_trans exec1_outcome)

section \<open>Users' functions are called at most once\<close>

definition called :: "'v pstate \<Rightarrow> fn option multiset" where
  "called s = mset (map (\<lambda>(i, _). Some (FnUser i)) (calls s))"

definition callable :: "'v task list \<Rightarrow> 'v pstate \<Rightarrow> fn option multiset" where
  "callable ts s = filter_mset user_fn (left ts s)"

lemma user_fn_iff: "user_fn f \<longleftrightarrow> (\<exists>i. f = Some (FnUser i))"
  by (cases f rule: user_fn.cases) auto

lemma callable_mono: "left ts s \<subseteq># left ts' s' \<Longrightarrow> callable ts s \<subseteq># callable ts' s'"
  unfolding callable_def by (rule multiset_filter_mono)

lemma settle_calls: "settle rej p v s = Inr (ts', s') \<Longrightarrow> calls s' = calls s"
  by (cases rule: settle_cases) (auto simp: upd_pm_def)

lemma exec1_called:
  assumes "exec1 U t s = Inr (ts', s')"
  shows "called s' + callable (ts' @ ts) s' \<subseteq># called s + callable (t # ts) s"
proof -
  have *: "called s' + callable (ts' @ ts) s' \<subseteq># called s + callable (t # ts) s"
    if "calls s' = calls s" "left (ts' @ ts) s' \<subseteq># left (t # ts) s"
    using that callable_mono by (simp add: called_def)
  show ?thesis
  proof (cases t)
    case (TSettle rej p v)
    with assms have st: "settle rej p v s = Inr (ts', s')" by simp
    show ?thesis using settle_left [OF st, of ts] settle_calls [OF st] TSettle by (intro *) (auto simp: left_def)
  next
    case (TClear p rej)
    with assms show ?thesis using clear_left [of ts p rej s] by (intro *) (auto simp: left_def clear_callbacks_def upd_pm_def)
  next
    case (TThen p f g)
    with assms obtain n where "attach p (\<lambda>npm. Clo f p npm False) (\<lambda>npm. Clo g p npm True) s = Inr (n, ts', s')"
      by (auto simp: bind_Inr_iff then_both_def)
    from attach_left [OF this] have l: "left ts' s' \<subseteq># {#Some f, Some g#} + heap_fns s" "calls s' = calls s" by auto
    have "left (ts' @ ts) s' = left ts' s' + agenda_fns ts" by (simp add: left_def ac_simps)
    also have "\<dots> \<subseteq># ({#Some f, Some g#} + heap_fns s) + agenda_fns ts" using l(1) by (rule subset_mset.add_right_mono)
    finally show ?thesis using l(2) TThen by (intro *) (simp_all add: left_def ac_simps)
  next
    case (TCall cb)
    with assms have "call_back U cb s = Inr (ts', s')" by simp
    note c = call_back_left [OF this]
    show ?thesis
    proof (cases "user_fn (cb_fn cb)")
      case True
      then obtain i where i: "cb_fn cb = Some (FnUser i)" by (auto simp: user_fn_iff)
      with c obtain arg where "calls s' = calls s @ [(i, arg)]" by blast
      then show ?thesis using c TCall i by (simp add: called_def callable_def left_def)
    next
      case False
      then show ?thesis using c TCall by (intro *) (simp_all add: left_def)
    qed
  qed
qed

lemma run_called:
  assumes "run U ts s = Inr s'"
  shows "called s' + callable [] s' \<subseteq># called s + callable ts s"
  using assms subset_mset.order_refl
  by (rule run_keeps [where P = "\<lambda>us x. called x + callable us x \<subseteq># called s + callable ts s"])
     (blast intro: subset_mset.order_trans exec1_called)

section \<open>Calls return normally\<close>

text \<open>Addresses are those of objects that exist; objects are never freed while a pointer counts them.\<close>

fun fn_ok :: "'v pstate \<Rightarrow> fn \<Rightarrow> bool" where
  "fn_ok s (FnUser i) = True"
| "fn_ok s (FnResolve q) = (q < length (pms s))"
| "fn_ok s (FnReject q) = (q < length (pms s))"
| "fn_ok s (FnAll c i q) = (q < length (pms s) \<and> c < length (cells s) \<and> i < length (snd (cells s ! c)))"

fun cb_ok :: "'v pstate \<Rightarrow> callback \<Rightarrow> bool" where
  "cb_ok s (Clo f p npm rej) = (fn_ok s f \<and> p < length (pms s) \<and> npm < length (pms s))"
| "cb_ok s (Forward p npm rej) = (p < length (pms s) \<and> npm < length (pms s))"

fun task_ok :: "'v pstate \<Rightarrow> 'v task \<Rightarrow> bool" where
  "task_ok s (TSettle rej p v) = (p < length (pms s))"
| "task_ok s (TCall cb) = cb_ok s cb"
| "task_ok s (TClear p rej) = True"
| "task_ok s (TThen p f g) = (p < length (pms s) \<and> fn_ok s f \<and> fn_ok s g)"

definition pstate_ok :: "'v pstate \<Rightarrow> bool" where
  "pstate_ok s \<longleftrightarrow> (\<forall>x \<in> set (pms s). list_all (cb_ok s) (fulfilled_callbacks x @ rejected_callbacks x))"

text \<open>Users' functions that return, and only name promises they were given.\<close>

definition user_ok :: "nat \<Rightarrow> 'v user \<Rightarrow> bool" where
  "user_ok k U \<longleftrightarrow> (\<forall>i arg. case U i arg of Inl _ \<Rightarrow> False
     | Inr (acts, ret) \<Rightarrow> (\<forall>a \<in> set acts. act_target a < k) \<and> (case ret of RetPromise q \<Rightarrow> q < k | _ \<Rightarrow> True))"

definition pgrows :: "'v pstate \<Rightarrow> 'v pstate \<Rightarrow> bool" where
  "pgrows s s' \<longleftrightarrow> length (pms s) \<le> length (pms s') \<and> length (cells s) \<le> length (cells s') \<and>
     (\<forall>c < length (cells s). length (snd (cells s' ! c)) = length (snd (cells s ! c)))"

lemma pgrows_refl [simp]: "pgrows s s"
  by (simp add: pgrows_def)

lemma fn_ok_grows: "pgrows s s' \<Longrightarrow> fn_ok s f \<Longrightarrow> fn_ok s' f"
  by (cases f) (auto simp: pgrows_def)

lemma cb_ok_grows: "pgrows s s' \<Longrightarrow> cb_ok s cb \<Longrightarrow> cb_ok s' cb"
  by (cases cb) (auto simp: fn_ok_grows, auto simp: pgrows_def)

lemma task_ok_grows: "pgrows s s' \<Longrightarrow> task_ok s t \<Longrightarrow> task_ok s' t"
  by (cases t) (auto simp: fn_ok_grows cb_ok_grows, auto simp: pgrows_def)

lemma pgrows_upd: "pgrows s (upd_pm p f s)"
  by (simp add: pgrows_def upd_pm_def)

lemma pstate_ok_upd:
  assumes "pstate_ok s" "p < length (pms s) \<Longrightarrow> list_all (cb_ok s) (fulfilled_callbacks (f (pms s ! p)) @ rejected_callbacks (f (pms s ! p)))"
  shows "pstate_ok (upd_pm p f s)"
proof (cases "p < length (pms s)")
  case True
  have c: "cb_ok (upd_pm p f s) = cb_ok s"
  proof (rule ext)
    fix cb
    have "fn_ok (upd_pm p f s) g = fn_ok s g" for g by (cases g) (simp_all add: upd_pm_def)
    then show "cb_ok (upd_pm p f s) cb = cb_ok s cb" by (cases cb) (simp_all add: upd_pm_def)
  qed
  have "x \<in> set (pms s) \<or> x = f (pms s ! p)" if "x \<in> set (pms (upd_pm p f s))" for x
    using that set_update_subset_insert [of "pms s" p "f (pms s ! p)"] by (auto simp: upd_pm_def)
  then show ?thesis using assms True unfolding pstate_ok_def c by blast
qed (simp add: assms upd_pm_outside)

lemma pstate_okD: "pstate_ok s \<Longrightarrow> p < length (pms s) \<Longrightarrow> list_all (cb_ok s) (fulfilled_callbacks (pms s ! p) @ rejected_callbacks (pms s ! p))"
  by (simp add: pstate_ok_def)

definition exec_ok :: "'v pstate \<Rightarrow> ('v task list \<times> 'v pstate) res \<Rightarrow> bool" where
  "exec_ok s r \<longleftrightarrow> (\<exists>ts' s'. r = Inr (ts', s') \<and> pgrows s s' \<and> pstate_ok s' \<and> list_all (task_ok s') ts')"

lemma cb_ok_upd: "cb_ok s cb \<Longrightarrow> cb_ok (upd_pm p f s) cb"
  by (rule cb_ok_grows [OF pgrows_upd])

lemma settle_exec_ok:
  assumes "pstate_ok s" "p < length (pms s)"
  shows "exec_ok s (settle rej p v s)"
proof (cases "state (pms s ! p) = Pending")
  case True
  define f where "f = (\<lambda>x :: 'a Promise. (case v of None \<Rightarrow> x | Some y \<Rightarrow> if rej then x\<lparr>reason := y\<rparr> else x\<lparr>result := y\<rparr>)
      \<lparr>state := if rej then Rejected else Fulfilled\<rparr>)"
  let ?cs = "if rej then rejected_callbacks (pms s ! p) else fulfilled_callbacks (pms s ! p)"
  have e: "settle rej p v s = Inr (map TCall ?cs @ [TClear p rej], upd_pm p f s)"
    using True assms(2) by (cases v; cases rej) (simp_all add: settle_def trigger_fulfill_def trigger_reject_def upd_pm_def f_def)
  have cbs: "fulfilled_callbacks (f x) = fulfilled_callbacks x" "rejected_callbacks (f x) = rejected_callbacks x" for x
    by (cases v; simp add: f_def)+
  have "pstate_ok (upd_pm p f s)" using pstate_okD [OF assms] by (intro pstate_ok_upd [OF assms(1)]) (simp add: cbs)
  moreover have "list_all (cb_ok (upd_pm p f s)) ?cs" using pstate_okD [OF assms] by (auto simp: list_all_iff intro: cb_ok_upd)
  ultimately show ?thesis unfolding exec_ok_def e using pgrows_upd by (auto simp: list_all_iff)
qed (use assms in \<open>simp add: exec_ok_def settle_def\<close>)

lemma apply_fn_exec_ok:
  assumes "pstate_ok s" "fn_ok s f" "npm < length (pms s)" "user_ok k U" "k \<le> length (pms s)"
  shows "exec_ok s (apply_fn U f arg npm rej s)"
proof -
  have ok: "pstate_ok (s\<lparr>calls := cl\<rparr>) = pstate_ok s" for cl
  proof -
    have "fn_ok (s\<lparr>calls := cl\<rparr>) g = fn_ok s g" for g by (cases g) simp_all
    then have "cb_ok (s\<lparr>calls := cl\<rparr>) c = cb_ok s c" for c by (cases c) simp_all
    then have "cb_ok (s\<lparr>calls := cl\<rparr>) = cb_ok s" by blast
    then show ?thesis by (simp add: pstate_ok_def)
  qed
  show ?thesis
  proof (cases f)
    case (FnUser i)
    have ua: "case U i arg of Inl _ \<Rightarrow> False
     | Inr (acts, ret) \<Rightarrow> (\<forall>a \<in> set acts. act_target a < k) \<and> (case ret of RetPromise q \<Rightarrow> q < k | _ \<Rightarrow> True)"
      using assms(4) by (simp add: user_ok_def)
    then obtain acts ret where u: "U i arg = Inr (acts, ret)" by (cases "U i arg") auto
    with ua have u': "\<forall>a \<in> set acts. act_target a < k" "case ret of RetPromise q \<Rightarrow> q < k | _ \<Rightarrow> True" by simp_all
    have "list_all (task_ok (s\<lparr>calls := calls s @ [(i, arg)]\<rparr>)) (map action_task acts @ ret_tasks rej npm ret)"
      using u' assms(3,5) by (cases ret) (auto simp: list_all_iff action_task_def)
    then show ?thesis using FnUser u assms(1) ok by (auto simp: exec_ok_def pgrows_def)
  next
    case (FnAll c i q)
    obtain n rs where c: "cells s ! c = (n, rs)" by fastforce
    let ?s = "s\<lparr>cells := (cells s)[c := (dec_size n, rs[i := arg])]\<rparr>"
    have g: "pgrows s ?s" using c assms(2) FnAll by (auto simp: pgrows_def nth_list_update)
    have "pstate_ok ?s" using assms(1) cb_ok_grows [OF g] by (auto simp: pstate_ok_def list_all_iff)
    then show ?thesis using FnAll c g assms(2,3) by (auto simp: exec_ok_def Let_def)
  qed (use assms in \<open>simp_all add: exec_ok_def\<close>)
qed

lemma attach_exec_ok:
  assumes "pstate_ok s" "p < length (pms s)" "\<And>s' npm. pgrows s s' \<Longrightarrow> npm < length (pms s') \<Longrightarrow> cb_ok s' (f npm) \<and> cb_ok s' (g npm)"
  shows "exec_ok s (bind (attach p f g s) (\<lambda>(_, ts, s). Inr (ts, s)))"
proof -
  let ?n = "length (pms s)"
  let ?s1 = "s\<lparr>pms := pms s @ [Promise_new]\<rparr>"
  have g1: "pgrows s ?s1" by (simp add: pgrows_def)
  have ok1: "pstate_ok ?s1" using assms(1) cb_ok_grows [OF g1] by (auto simp: pstate_ok_def list_all_iff Promise_new_def)
  have c1: "cb_ok ?s1 (f ?n)" "cb_ok ?s1 (g ?n)" using assms(3) [OF g1, of ?n] by simp_all
  let ?s2 = "add_callbacks p (f ?n) (g ?n) ?s1"
  have "pstate_ok ?s2" unfolding add_callbacks_def
    by (rule pstate_ok_upd [OF ok1]) (use pstate_okD [OF ok1, of p] c1 assms(2) in simp)
  moreover have "pgrows s ?s2" by (simp add: add_callbacks_def pgrows_def upd_pm_def)
  ultimately show ?thesis using assms(2) g1 ok1 c1
    by (cases "state (pms ?s1 ! p)") (simp_all add: attach_def alloc_pm_def exec_ok_def)
qed

lemma exec1_exec_ok:
  assumes "pstate_ok s" "task_ok s t" "user_ok k U" "k \<le> length (pms s)"
  shows "exec_ok s (exec1 U t s)"
proof (cases t)
  case (TCall cb)
  then show ?thesis using assms
    by (cases cb) (auto simp: outcome_of_def exec_ok_def intro!: apply_fn_exec_ok [unfolded exec_ok_def])
next
  case (TClear p rej)
  have "pstate_ok (clear_callbacks p rej s)" unfolding clear_callbacks_def
    by (rule pstate_ok_upd [OF assms(1)]) (use pstate_okD [OF assms(1)] in auto)
  then show ?thesis using TClear by (simp add: exec_ok_def clear_callbacks_def pgrows_upd)
next
  case (TThen p f g)
  then show ?thesis using assms unfolding TThen exec1.simps then_both_def
    by (intro attach_exec_ok) (auto intro: fn_ok_grows, auto simp: pgrows_def)
qed (use assms settle_exec_ok in simp)

lemma run_total:
  assumes "pstate_ok s" "list_all (task_ok s) ts" "user_ok k U" "k \<le> length (pms s)"
  shows "\<exists>s'. run U ts s = Inr s' \<and> pstate_ok s'"
  using assms
proof (induction U ts s rule: run.induct)
  case (2 U t ts s)
  from exec1_exec_ok [OF "2.prems"(1) _ "2.prems"(3,4), of t] "2.prems"(2) obtain ts1 s1 where
    e: "exec1 U t s = Inr (ts1, s1)" "pgrows s s1" "pstate_ok s1" "list_all (task_ok s1) ts1"
    by (auto simp: exec_ok_def)
  have "list_all (task_ok s1) (ts1 @ ts)" using e(4) "2.prems"(2) task_ok_grows [OF e(2)] by (auto simp: list_all_iff)
  moreover have "k \<le> length (pms s1)" using "2.prems"(4) e(2) by (simp add: pgrows_def)
  ultimately have "\<exists>s'. run U (ts1 @ ts) s1 = Inr s' \<and> pstate_ok s'" using "2.IH" [OF e(1) refl e(3)] "2.prems"(3) by blast
  then show ?case using e(1) by simp
qed simp

section \<open>Waiting for all\<close>

text \<open>A promise that nobody waits for is settled without further calls.\<close>

lemma run_settle_fresh:
  assumes "q < length (pms s)" "pms s ! q = Promise_new"
  shows "run U (TSettle False q v # ts) s =
    run U ts (s\<lparr>pms := (pms s)[q := Promise_new\<lparr>state := Fulfilled, result := case v of None \<Rightarrow> Empty | Some x \<Rightarrow> x\<rparr>]\<rparr>)"
  using assms
  by (cases v) (simp_all add: settle_def trigger_fulfill_def clear_callbacks_def upd_pm_def Promise_new_def)

lemma run_all_part:
  assumes "p < length (pms s)" "state (pms s ! p) = Fulfilled" "c < length (cells s)" "cells s ! c = (n, rs)" "i < length rs"
    "q < length (pms s)" "pms s ! q = Promise_new" "0 < n"
  shows "run U (TThen p (FnAll c i q) g # ts) s =
    run U ts (s\<lparr>pms := (if n = 1 then (pms s)[q := Promise_new\<lparr>state := Fulfilled, result := Vals (rs[i := result (pms s ! p)])\<rparr>] else pms s)
                @ [Promise_new\<lparr>state := Fulfilled\<rparr>],
      cells := (cells s)[c := (n - 1, rs[i := result (pms s ! p)])]\<rparr>)"
proof -
  let ?v = "result (pms s ! p)"
  let ?s1 = "s\<lparr>pms := pms s @ [Promise_new]\<rparr>"
  let ?s2 = "?s1\<lparr>cells := (cells s)[c := (n - 1, rs[i := ?v])]\<rparr>"
  have d: "dec_size n = n - 1" using assms(8) by (simp add: dec_size_def)
  have "run U (TThen p (FnAll c i q) g # ts) s = run U (TCall (Clo (FnAll c i q) p (length (pms s)) False) # ts) ?s1"
    using assms(1,2) by (simp add: then_both_def attach_def alloc_pm_def nth_append)
  also have "\<dots> = run U ((if n = 1 then [TSettle False q (Some (Vals (rs[i := ?v])))] else []) @ TSettle False (length (pms s)) None # ts) ?s2"
    using assms(1,3-5,8) by (auto simp: outcome_of_def nth_append d Let_def)
  also have "\<dots> = run U ts (s\<lparr>pms := (if n = 1 then (pms s)[q := Promise_new\<lparr>state := Fulfilled, result := Vals (rs[i := ?v])\<rparr>] else pms s)
                @ [Promise_new\<lparr>state := Fulfilled\<rparr>], cells := (cells s)[c := (n - 1, rs[i := ?v])]\<rparr>)"
  proof (cases "n = 1")
    case True
    have e: "Promise_new\<lparr>state := Fulfilled, result := Empty\<rparr> = Promise_new\<lparr>state := Fulfilled\<rparr>" by (simp add: Promise_new_def)
    have swap: "s\<lparr>cells := a, pms := b\<rparr> = s\<lparr>pms := b, cells := a\<rparr>" for a b by simp
    show ?thesis using True assms(6,7)
      by (simp add: run_settle_fresh nth_append list_update_append e swap del: run.simps exec1.simps)
  next
    case False
    have e: "Promise_new\<lparr>state := Fulfilled, result := Empty\<rparr> = Promise_new\<lparr>state := Fulfilled\<rparr>" by (simp add: Promise_new_def)
    have swap: "s\<lparr>cells := a, pms := b\<rparr> = s\<lparr>pms := b, cells := a\<rparr>" for a b by simp
    show ?thesis using False
      by (simp add: run_settle_fresh nth_append list_update_append e swap del: run.simps exec1.simps)
  qed
  finally show ?thesis .
qed

lemma run_all_parts:
  assumes "qs \<noteq> []" "\<forall>p \<in> set qs. p < length (pms s) \<and> state (pms s ! p) = Fulfilled"
    "c < length (cells s)" "cells s ! c = (length qs, rs)" "length rs = i + length qs"
    "q < length (pms s)" "pms s ! q = Promise_new"
  shows "\<exists>s'. run U (map (\<lambda>(i, p). TThen p (FnAll c i q) (FnReject q)) (zip [i..<i + length qs] qs)) s = Inr s' \<and>
    q < length (pms s') \<and> state (pms s' ! q) = Fulfilled \<and> result (pms s' ! q) = Vals (take i rs @ map (\<lambda>p. result (pms s ! p)) qs)"
  using assms
proof (induction qs arbitrary: i s rs)
  case (Cons p qs)
  let ?v = "result (pms s ! p)"
  let ?s = "s\<lparr>pms := (if length (p # qs) = 1 then (pms s)[q := Promise_new\<lparr>state := Fulfilled, result := Vals (rs[i := ?v])\<rparr>] else pms s)
      @ [Promise_new\<lparr>state := Fulfilled\<rparr>], cells := (cells s)[c := (length (p # qs) - 1, rs[i := ?v])]\<rparr>"
  have i: "i < length rs" using Cons.prems(5) by simp
  have "[i..<i + length (p # qs)] = i # [Suc i..<Suc i + length qs]" by (simp add: upt_conv_Cons del: upt_Suc)
  then have z: "zip [i..<i + length (p # qs)] (p # qs) = (i, p) # zip [Suc i..<Suc i + length qs] qs" by simp
  have one: "run U (map (\<lambda>(i, p). TThen p (FnAll c i q) (FnReject q)) (zip [i..<i + length (p # qs)] (p # qs))) s =
      run U (map (\<lambda>(i, p). TThen p (FnAll c i q) (FnReject q)) (zip [Suc i..<Suc i + length qs] qs)) ?s"
    unfolding z list.map prod.case using Cons.prems i by (intro run_all_part) auto
  show ?case
  proof (cases "qs = []")
    case True
    have "rs[i := ?v] = take i rs @ [?v]" using Cons.prems(5) True by (simp add: list_update_append1 upd_conv_take_nth_drop)
    then show ?thesis unfolding one using True Cons.prems(6) by (simp add: nth_append)
  next
    case False
    have t: "take (Suc i) (rs[i := ?v]) = take i rs @ [?v]" using i by (simp add: take_Suc_conv_app_nth)
    have m: "map (\<lambda>p. result (pms ?s ! p)) qs = map (\<lambda>p. result (pms s ! p)) qs"
      using Cons.prems(2) False by (simp add: nth_append)
    have "\<exists>s'. run U (map (\<lambda>(i, p). TThen p (FnAll c i q) (FnReject q)) (zip [Suc i..<Suc i + length qs] qs)) ?s = Inr s' \<and>
      q < length (pms s') \<and> state (pms s' ! q) = Fulfilled \<and>
      result (pms s' ! q) = Vals (take (Suc i) (rs[i := ?v]) @ map (\<lambda>p. result (pms ?s ! p)) qs)"
      using Cons.prems False by (intro Cons.IH) (auto simp: nth_append)
    then show ?thesis unfolding one t m append_assoc append_Cons append_Nil list.map .
  qed
qed simp

section \<open>Properties\<close>

text \<open>Functions of a user for the examples: number 0 throws, as on a value of the wrong type, the
  others return their argument.\<close>

definition sample_user :: "nat user" where
  "sample_user i arg = (if i = 0 then Inl (RuntimeError ''mismatching promise value types'') else Inr ([], RetAny arg))"

definition sample_pms :: "nat pstate" where
  "sample_pms = \<lparr>pms = [Promise_new\<lparr>fulfilled_callbacks := [Clo (FnUser 1) 0 1 False, Clo (FnUser 2) 0 2 False],
       rejected_callbacks := [Forward 0 1 True, Forward 0 2 True]\<rparr>, Promise_new, Promise_new],
     cells = [], calls = []\<rparr>"

lemmas promise_eval = settle_def trigger_fulfill_def trigger_reject_def upd_pm_def outcome_of_def clear_callbacks_def
  Promise_new_def then_both_def attach_def alloc_pm_def

lemma sample_resolve:
  "\<exists>s'. resolve sample_user 0 (Some (Val 5)) sample_pms = Inr s' \<and> calls s' = [(1, Val 5), (2, Val 5)] \<and>
     state (pms s' ! 0) = Fulfilled \<and> state (pms s' ! 1) = Fulfilled"
  by (simp add: resolve_def sample_pms_def promise_eval sample_user_def)



text \<open>
  C25: A promise settles at most once: whatever is called, a settled promise keeps its state, its result and its
  reason.
\<close>

theorem promise_settles_once:
  assumes "run U ts s = Inr s'" "p < length (pms s)" "state (pms s ! p) \<noteq> Pending"
  shows "state (pms s' ! p) = state (pms s ! p) \<and> result (pms s' ! p) = result (pms s ! p) \<and> reason (pms s' ! p) = reason (pms s ! p)"
  using run_outcome [OF assms(1)] assms(2,3) by (simp add: same_outcome_def)

theorem promise_settles_once_witness:
  "\<exists>s1 s2 :: nat pstate. resolve sample_user 0 (Some (Val 5)) sample_pms = Inr s1 \<and> run sample_user [TSettle True 0 (Some (Val 6))] s1 = Inr s2 \<and>
     state (pms s2 ! 0) = Fulfilled"
proof -
  obtain s1 :: "nat pstate" where s1: "resolve sample_user 0 (Some (Val 5)) sample_pms = Inr s1" "state (pms s1 ! 0) = Fulfilled"
    using sample_resolve by blast
  have "length (pms sample_pms) \<le> length (pms s1)"
    using run_outcome [OF s1(1) [unfolded resolve_def]] by (simp only: same_outcome_def)
  then have l: "0 < length (pms s1)" by (auto simp: sample_pms_def)
  have r: "run sample_user [TSettle True 0 (Some (Val 6))] s1 = Inr s1" using s1 l by (simp add: settle_def)
  from promise_settles_once [OF r l] s1 r show ?thesis by auto
qed

text \<open>
  C26: A callback is called at most once. If every function is registered for one outcome of one promise, then
  after any calls each function was called once or is still waiting in a pending promise, never both.
\<close>

theorem callbacks_called_once:
  assumes "run U ts s = Inr s'" "calls s = []" "\<forall>i. count (left ts s) (Some (FnUser i)) \<le> 1"
  shows "\<forall>i. count (mset (map fst (calls s'))) i + count (heap_fns s') (Some (FnUser i)) \<le> 1"
proof
  fix i
  have "count (mset (map (\<lambda>(i, _). Some (FnUser i)) xs)) (Some (FnUser i)) = count (mset (map fst xs)) i" for xs :: "(nat \<times> 'a any) list"
    by (induction xs) auto
  then have c: "count (called x) (Some (FnUser i)) = count (mset (map fst (calls x))) i" for x :: "'a pstate"
    unfolding called_def .
  have "count (called s' + callable [] s') (Some (FnUser i)) \<le> count (called s + callable ts s) (Some (FnUser i))"
    using run_called [OF assms(1)] by (rule mset_subset_eq_count)
  moreover have "count (callable ts s) (Some (FnUser i)) = count (left ts s) (Some (FnUser i))"
    "count (callable [] s') (Some (FnUser i)) = count (heap_fns s') (Some (FnUser i))"
    by (simp_all add: callable_def left_def)
  ultimately show "count (mset (map fst (calls s'))) i + count (heap_fns s') (Some (FnUser i)) \<le> 1"
    using assms(2) assms(3) [THEN spec [of _ i]] c [of s'] c [of s] by simp
qed

theorem callbacks_called_once_witness:
  "\<exists>s' :: nat pstate. run sample_user [TSettle False 0 (Some (Val 5))] sample_pms = Inr s' \<and> calls s' = [(1, Val 5), (2, Val 5)] \<and>
     count (heap_fns s') (Some (FnUser 1)) = 0"
proof -
  obtain s' :: "nat pstate" where s': "run sample_user [TSettle False 0 (Some (Val 5))] sample_pms = Inr s'"
    "calls s' = [(1, Val 5), (2, Val 5)]" using sample_resolve unfolding resolve_def by blast
  have c: "calls sample_pms = []"
    "\<forall>i. count (left [TSettle False 0 (Some (Val 5))] sample_pms) (Some (FnUser i)) \<le> 1"
    by (simp_all add: sample_pms_def left_def heap_fns_def stored_def Promise_new_def)
  from callbacks_called_once [OF s'(1) c] have "count (mset (map fst (calls s'))) 1 + count (heap_fns s') (Some (FnUser 1)) \<le> 1"
    by blast
  with s' show ?thesis by simp
qed

text \<open>
  \<open>all\<close> over promises that are fulfilled is fulfilled with their results, in the order of the list; a
  promise may occur more than once.
\<close>

theorem all_of_fulfilled:
  assumes "ps \<noteq> []" "\<forall>p \<in> set ps. p < length (pms s) \<and> state (pms s ! p) = Fulfilled"
  shows "\<exists>q s'. after_calls U (all_pm ps s) = Inr (q, s') \<and> state (pms s' ! q) = Fulfilled \<and>
    result (pms s' ! q) = Vals (map (\<lambda>p. result (pms s ! p)) ps)"
proof -
  let ?q = "length (pms s)" and ?c = "length (cells s)"
  let ?s1 = "s\<lparr>pms := pms s @ [Promise_new], cells := cells s @ [(length ps, replicate (length ps) Empty)]\<rparr>"
  let ?ts = "map (\<lambda>(i, p). TThen p (FnAll ?c i ?q) (FnReject ?q)) (zip [0..<0 + length ps] ps)"
  have "\<exists>s'. run U ?ts ?s1 = Inr s' \<and> ?q < length (pms s') \<and> state (pms s' ! ?q) = Fulfilled \<and>
      result (pms s' ! ?q) = Vals (take 0 (replicate (length ps) Empty) @ map (\<lambda>p. result (pms ?s1 ! p)) ps)"
    using assms by (intro run_all_parts) (auto simp: nth_append)
  moreover have "map (\<lambda>p. result (pms ?s1 ! p)) ps = map (\<lambda>p. result (pms s ! p)) ps" using assms(2) by (simp add: nth_append)
  ultimately obtain s' where "run U ?ts ?s1 = Inr s'" "state (pms s' ! ?q) = Fulfilled"
    "result (pms s' ! ?q) = Vals (map (\<lambda>p. result (pms s ! p)) ps)" by auto
  then show ?thesis using assms(1) by (simp add: after_calls_def all_pm_def alloc_pm_def)
qed

theorem all_of_fulfilled_witness:
  "\<exists>q s'. after_calls sample_user (all_pm [1, 0, 1]
       \<lparr>pms = [Promise_new\<lparr>state := Fulfilled, result := Val 4\<rparr>, Promise_new\<lparr>state := Fulfilled, result := Val 9\<rparr>], cells = [], calls = []\<rparr>)
     = Inr (q, s') \<and> result (pms s' ! q) = Vals [Val 9, Val 4, Val 9]"
  using all_of_fulfilled [of "[1, 0, 1]"
      "\<lparr>pms = [Promise_new\<lparr>state := Fulfilled, result := Val 4\<rparr>, Promise_new\<lparr>state := Fulfilled, result := Val 9\<rparr>], cells = [], calls = []\<rparr>"
      sample_user] by auto

text \<open>
  \<open>fail\<close> does not recover. The promise it returns is rejected again after the handler ran, with the value
  the handler returned.
\<close>

theorem fail_stays_rejected:
  assumes "p < length (pms s)" "state (pms s ! p) = Rejected" "U i (reason (pms s ! p)) = Inr ([], RetAny w)"
  shows "\<exists>q s'. after_calls U (fail p (FnUser i) s) = Inr (q, s') \<and> state (pms s' ! q) = Rejected \<and> reason (pms s' ! q) = w \<and>
    calls s' = calls s @ [(i, reason (pms s ! p))]"
  using assms
  by (simp add: after_calls_def fail_def attach_def alloc_pm_def outcome_of_def nth_append settle_def trigger_reject_def
      upd_pm_def clear_callbacks_def Promise_new_def)

theorem fail_stays_rejected_witness:
  "\<exists>q s'. after_calls sample_user (fail 0 (FnUser 1) \<lparr>pms = [Promise_new\<lparr>state := Rejected, reason := Val 4\<rparr>], cells = [], calls = []\<rparr>)
     = Inr (q, s') \<and> state (pms s' ! q) = Rejected \<and> reason (pms s' ! q) = Val 4"
  using fail_stays_rejected [of 0 "\<lparr>pms = [Promise_new\<lparr>state := Rejected, reason := Val 4\<rparr>], cells = [], calls = []\<rparr>" sample_user 1 "Val 4"]
  by (auto simp: sample_user_def)

end
