(* ===== verification/Hs_Task.thy ===== *)
theory Hs_Task
  imports Hs_Promise
begin

text \<open>
  The pool of verification threads of \<^verbatim>\<open>include/hotstuff/task.h\<close>
  (\<open>VeriPool\<close>). The main thread submits tasks and collects answers, the workers take tasks from
  \<open>in_queue\<close>, verify them and put them into \<open>out_queue\<close>; their steps interleave. A task is
  known by its pointer, which may be reused once the task was freed; the promise of the \<open>i\<close>-th
  submission is \<open>i\<close>. What \<open>VeriTask::verify\<close> answers is the parameter \<open>V\<close>.
\<close>

section \<open>State\<close>

text \<open>A worker waits, is inside the loop of its handler with \<open>cnt\<close> tasks left in this burst, or
  verifies a task there.\<close>

datatype worker = WIdle | WLoop u64 | WBusy u64 nat

record 't VeriPool =
  burst_size :: u64
  in_queue :: "nat list"
  out_queue :: "nat list"
  workers :: "worker list"
  collector :: "u64 option"
  task_pms :: "nat \<rightharpoonup> nat"
  task_result :: "nat \<rightharpoonup> bool"
  submitted :: "'t list"
  answered :: "(nat \<times> bool) list"

definition VeriPool_new :: "nat \<Rightarrow> u64 \<Rightarrow> 't VeriPool" where
  "VeriPool_new nworker burst =
     \<lparr>burst_size = burst, in_queue = [], out_queue = [], workers = replicate nworker WIdle, collector = None,
      task_pms = Map.empty, task_result = Map.empty, submitted = [], answered = []\<rparr>"

section \<open>Operations\<close>

definition pool_verify :: "nat \<Rightarrow> 't \<Rightarrow> 't VeriPool \<Rightarrow> (nat \<times> 't VeriPool) res" where
  "pool_verify ptr t s =
     (let i = length (submitted s) in
      if task_pms s ptr \<noteq> None then Inl AssertFail
      else Inr (i, s\<lparr>task_pms := (task_pms s)(ptr \<mapsto> i), task_result := (task_result s)(ptr := None),
                     submitted := submitted s @ [t], in_queue := in_queue s @ [ptr]\<rparr>))"

text \<open>\<open>if (!--cnt) return true;\<close>\<close>

definition next_round :: "u64 \<Rightarrow> worker" where
  "next_round cnt = (if cnt - 1 = 0 then WIdle else WLoop (cnt - 1))"

definition worker_wake :: "nat \<Rightarrow> 't VeriPool \<Rightarrow> 't VeriPool" where
  "worker_wake w s = s\<lparr>workers := (workers s)[w := WLoop (burst_size s)]\<rparr>"

definition worker_take :: "nat \<Rightarrow> u64 \<Rightarrow> 't VeriPool \<Rightarrow> 't VeriPool" where
  "worker_take w cnt s =
     (case in_queue s of
        [] \<Rightarrow> s\<lparr>workers := (workers s)[w := WIdle]\<rparr>
      | p # ps \<Rightarrow> s\<lparr>in_queue := ps, workers := (workers s)[w := WBusy cnt p]\<rparr>)"

text \<open>The task's own \<open>verify\<close> runs on the object the pointer leads to.\<close>

definition worker_done :: "('t \<Rightarrow> bool) \<Rightarrow> nat \<Rightarrow> u64 \<Rightarrow> nat \<Rightarrow> 't VeriPool \<Rightarrow> 't VeriPool res" where
  "worker_done V w cnt p s =
     bind (deref (task_pms s p)) (\<lambda>i.
     bind (guard (i < length (submitted s)) NullDeref) (\<lambda>_.
       Inr (s\<lparr>task_result := (task_result s)(p \<mapsto> V (submitted s ! i)), out_queue := out_queue s @ [p],
              workers := (workers s)[w := next_round cnt]\<rparr>)))"

definition collect_wake :: "'t VeriPool \<Rightarrow> 't VeriPool" where
  "collect_wake s = s\<lparr>collector := Some (burst_size s)\<rparr>"

definition collect_one :: "u64 \<Rightarrow> 't VeriPool \<Rightarrow> 't VeriPool res" where
  "collect_one cnt s =
     (case out_queue s of
        [] \<Rightarrow> Inr (s\<lparr>collector := None\<rparr>)
      | p # ps \<Rightarrow>
          bind (deref (task_pms s p)) (\<lambda>i.
          bind (initialised (task_result s p)) (\<lambda>b.
            Inr (s\<lparr>out_queue := ps, answered := answered s @ [(i, b)], task_pms := (task_pms s)(p := None),
                   collector := (if cnt - 1 = 0 then None else Some (cnt - 1))\<rparr>))))"

section \<open>Interleavings\<close>

inductive pool_step :: "('t \<Rightarrow> bool) \<Rightarrow> 't VeriPool \<Rightarrow> 't VeriPool res \<Rightarrow> bool" for V where
  submit: "task_pms s ptr = None \<Longrightarrow> pool_verify ptr t s = Inr (i, s') \<Longrightarrow> pool_step V s (Inr s')"
| wake: "w < length (workers s) \<Longrightarrow> workers s ! w = WIdle \<Longrightarrow> pool_step V s (Inr (worker_wake w s))"
| take: "w < length (workers s) \<Longrightarrow> workers s ! w = WLoop cnt \<Longrightarrow> pool_step V s (Inr (worker_take w cnt s))"
| finish: "w < length (workers s) \<Longrightarrow> workers s ! w = WBusy cnt p \<Longrightarrow> pool_step V s (worker_done V w cnt p s)"
| notify: "collector s = None \<Longrightarrow> pool_step V s (Inr (collect_wake s))"
| collect: "collector s = Some cnt \<Longrightarrow> pool_step V s (collect_one cnt s)"

inductive_cases pool_stepE: "pool_step V s r"

definition pool_next :: "('t \<Rightarrow> bool) \<Rightarrow> 't VeriPool \<Rightarrow> 't VeriPool \<Rightarrow> bool" where
  "pool_next V s s' \<longleftrightarrow> pool_step V s (Inr s')"

definition pool_reachable :: "('t \<Rightarrow> bool) \<Rightarrow> 't VeriPool \<Rightarrow> bool" where
  "pool_reachable V s \<longleftrightarrow> (\<exists>n b. (pool_next V)\<^sup>*\<^sup>* (VeriPool_new n b) s)"

section \<open>The invariant\<close>

fun busy :: "worker \<Rightarrow> nat list" where
  "busy (WBusy cnt p) = [p]"
| "busy _ = []"

text \<open>Where a live task is: queued, with a worker, or verified.\<close>

definition places :: "'t VeriPool \<Rightarrow> nat multiset" where
  "places s = mset (in_queue s) + mset (concat (map busy (workers s))) + mset (out_queue s)"

definition pool_ok :: "('t \<Rightarrow> bool) \<Rightarrow> 't VeriPool \<Rightarrow> bool" where
  "pool_ok V s \<longleftrightarrow>
     (\<forall>p. count (places s) p = of_bool (task_pms s p \<noteq> None)) \<and>
     (\<forall>p i. task_pms s p = Some i \<longrightarrow> i < length (submitted s) \<and> i \<notin> fst ` set (answered s)) \<and>
     (\<forall>p q i. task_pms s p = Some i \<longrightarrow> task_pms s q = Some i \<longrightarrow> p = q) \<and>
     (\<forall>i < length (submitted s). i \<in> fst ` set (answered s) \<or> (\<exists>p. task_pms s p = Some i)) \<and>
     (\<forall>p \<in> set (out_queue s). \<forall>i. task_pms s p = Some i \<longrightarrow> task_result s p = Some (V (submitted s ! i))) \<and>
     distinct (map fst (answered s)) \<and>
     (\<forall>(i, b) \<in> set (answered s). i < length (submitted s) \<and> b = V (submitted s ! i))"

lemma pool_okD:
  assumes "pool_ok V s"
  shows "count (places s) p = of_bool (task_pms s p \<noteq> None)"
    and "task_pms s p = Some i \<Longrightarrow> i < length (submitted s) \<and> i \<notin> fst ` set (answered s)"
    and "task_pms s p = Some i \<Longrightarrow> task_pms s q = Some i \<Longrightarrow> p = q"
    and "i < length (submitted s) \<Longrightarrow> i \<in> fst ` set (answered s) \<or> (\<exists>p. task_pms s p = Some i)"
    and "p \<in> set (out_queue s) \<Longrightarrow> task_pms s p = Some i \<Longrightarrow> task_result s p = Some (V (submitted s ! i))"
    and "distinct (map fst (answered s))"
    and "(i, b) \<in> set (answered s) \<Longrightarrow> i < length (submitted s) \<and> b = V (submitted s ! i)"
  using assms unfolding pool_ok_def by blast+

lemma pool_okI:
  assumes "\<And>p. count (places s) p = of_bool (task_pms s p \<noteq> None)"
    and "\<And>p i. task_pms s p = Some i \<Longrightarrow> i < length (submitted s) \<and> i \<notin> fst ` set (answered s)"
    and "\<And>p q i. task_pms s p = Some i \<Longrightarrow> task_pms s q = Some i \<Longrightarrow> p = q"
    and "\<And>i. i < length (submitted s) \<Longrightarrow> i \<in> fst ` set (answered s) \<or> (\<exists>p. task_pms s p = Some i)"
    and "\<And>p i. p \<in> set (out_queue s) \<Longrightarrow> task_pms s p = Some i \<Longrightarrow> task_result s p = Some (V (submitted s ! i))"
    and "distinct (map fst (answered s))"
    and "\<And>i b. (i, b) \<in> set (answered s) \<Longrightarrow> i < length (submitted s) \<and> b = V (submitted s ! i)"
  shows "pool_ok V s"
  using assms unfolding pool_ok_def by auto

lemma busy_upd:
  assumes "w < length ws"
  shows "mset (concat (map busy (ws[w := x]))) + mset (busy (ws ! w)) = mset (concat (map busy ws)) + mset (busy x)"
proof -
  have "mset (concat (map busy us)) = sum_list (map (\<lambda>u. mset (busy u)) us)" for us by (induction us) simp_all
  then show ?thesis using sum_list_upd [OF assms, of "\<lambda>u. mset (busy u)" x] by simp
qed

lemma pool_new_ok: "pool_ok V (VeriPool_new n b)"
  by (simp add: pool_ok_def VeriPool_new_def places_def)

lemma pool_ok_same:
  assumes "pool_ok V s" "places s' = places s" "set (out_queue s') \<subseteq> set (out_queue s)"
    "task_pms s' = task_pms s" "task_result s' = task_result s" "submitted s' = submitted s" "answered s' = answered s"
  shows "pool_ok V s'"
  using assms unfolding pool_ok_def by (simp add: subset_iff)

lemma places_workers:
  assumes "w < length (workers s)" "busy x = busy (workers s ! w)"
  shows "places (s\<lparr>workers := (workers s)[w := x]\<rparr>) = places s"
  using busy_upd [OF assms(1), of x] assms(2) by (simp add: places_def)

lemma pool_live:
  assumes "pool_ok V s" "p \<in># places s"
  obtains i where "task_pms s p = Some i" "i < length (submitted s)"
proof -
  have "0 < count (places s) p" using assms(2) by simp
  then have "task_pms s p \<noteq> None" using pool_okD(1) [OF assms(1), of p] by (simp split: if_split_asm)
  then show ?thesis using that pool_okD(2) [OF assms(1)] by blast
qed

lemma pool_submit_ok:
  assumes ok: "pool_ok V s" and new: "task_pms s ptr = None" and v: "pool_verify ptr t s = Inr (i, s')"
  shows "pool_ok V s'"
proof -
  let ?n = "length (submitted s)"
  have s': "s' = s\<lparr>task_pms := (task_pms s)(ptr \<mapsto> ?n), task_result := (task_result s)(ptr := None),
                     submitted := submitted s @ [t], in_queue := in_queue s @ [ptr]\<rparr>"
    using new v by (auto simp: pool_verify_def Let_def)
  have pl: "places s' = add_mset ptr (places s)" by (simp add: s' places_def)
  have "count (places s) ptr = 0" using pool_okD(1) [OF ok, of ptr] new by simp
  then have out: "ptr \<notin> set (out_queue s)" by (simp add: places_def count_mset_0_iff)
  have n: "?n \<notin> fst ` set (answered s)" using pool_okD(7) [OF ok] by fastforce
  show ?thesis
  proof (rule pool_okI)
    show "count (places s') p = of_bool (task_pms s' p \<noteq> None)" for p
      using pool_okD(1) [OF ok, of p] new unfolding pl by (auto simp: s')
    show "i < length (submitted s') \<and> i \<notin> fst ` set (answered s')" if "task_pms s' p = Some i" for p i
      using that pool_okD(2) [OF ok] n by (auto simp: s' less_Suc_eq split: if_split_asm)
    show "p = q" if "task_pms s' p = Some i" "task_pms s' q = Some i" for p q i
      using that pool_okD(2,3) [OF ok] by (auto simp: s' split: if_split_asm)
    show "i \<in> fst ` set (answered s') \<or> (\<exists>p. task_pms s' p = Some i)" if "i < length (submitted s')" for i
    proof (cases "i = ?n")
      case False
      then have "i \<in> fst ` set (answered s) \<or> (\<exists>p. task_pms s p = Some i)" using that pool_okD(4) [OF ok] by (simp add: s')
      then show ?thesis using new by (auto simp: s') (metis option.distinct(1))
    qed (simp add: s', blast)
    show "task_result s' p = Some (V (submitted s' ! i))" if "p \<in> set (out_queue s')" "task_pms s' p = Some i" for p i
      using that out pool_okD(2,5) [OF ok] by (auto simp: s' nth_append split: if_split_asm)
    show "distinct (map fst (answered s'))" using pool_okD(6) [OF ok] by (simp add: s')
    show "i < length (submitted s') \<and> b = V (submitted s' ! i)" if "(i, b) \<in> set (answered s')" for i b
      using that pool_okD(7) [OF ok, of i b] by (simp add: s' nth_append)
  qed
qed

lemma pool_finish_ok:
  assumes ok: "pool_ok V s" and w: "w < length (workers s)" "workers s ! w = WBusy cnt p"
  shows "\<exists>s'. worker_done V w cnt p s = Inr s' \<and> pool_ok V s'"
proof -
  have "workers s ! w \<in> set (workers s)" using w(1) by (rule nth_mem)
  then have "p \<in> set (concat (map busy (workers s)))" using w(2) by (auto intro!: bexI [of _ "workers s ! w"])
  then have "p \<in># places s" by (simp add: places_def)
  then obtain i where i: "task_pms s p = Some i" "i < length (submitted s)" using pool_live [OF ok] by blast
  define s' where "s' = s\<lparr>task_result := (task_result s)(p \<mapsto> V (submitted s ! i)), out_queue := out_queue s @ [p],
              workers := (workers s)[w := next_round cnt]\<rparr>"
  have e: "worker_done V w cnt p s = Inr s'" using i by (simp add: worker_done_def s'_def)
  have "busy (next_round cnt) = []" by (simp add: next_round_def)
  with busy_upd [OF w(1), of "next_round cnt"] w(2) have pl: "places s' = places s" by (simp add: places_def s'_def)
  have "pool_ok V s'"
  proof (rule pool_okI)
    show "task_result s' q = Some (V (submitted s' ! j))" if "q \<in> set (out_queue s')" "task_pms s' q = Some j" for q j
      using that i pool_okD(5) [OF ok] by (auto simp: s'_def)
  qed (use pl pool_okD [OF ok] in \<open>auto simp: s'_def\<close>)
  with e show ?thesis by blast
qed

lemma pool_collect_ok:
  assumes ok: "pool_ok V s"
  shows "\<exists>s'. collect_one cnt s = Inr s' \<and> pool_ok V s'"
proof (cases "out_queue s")
  case Nil
  then show ?thesis using pool_ok_same [OF ok, of "s\<lparr>collector := None\<rparr>"] by (simp add: collect_one_def places_def)
next
  case (Cons p ps)
  then have "p \<in># places s" by (simp add: places_def)
  then obtain i where i: "task_pms s p = Some i" "i < length (submitted s)" using pool_live [OF ok] by blast
  have r: "task_result s p = Some (V (submitted s ! i))" using pool_okD(5) [OF ok _ i(1)] Cons by simp
  define s' where "s' = s\<lparr>out_queue := ps, answered := answered s @ [(i, V (submitted s ! i))], task_pms := (task_pms s)(p := None),
                   collector := (if cnt - 1 = 0 then None else Some (cnt - 1))\<rparr>"
  have e: "collect_one cnt s = Inr s'" using Cons i r by (simp add: collect_one_def s'_def)
  have pl: "places s = add_mset p (places s')" using Cons by (simp add: places_def s'_def)
  have na: "i \<notin> fst ` set (answered s)" using pool_okD(2) [OF ok i(1)] by simp
  have "pool_ok V s'"
  proof (rule pool_okI)
    show "count (places s') q = of_bool (task_pms s' q \<noteq> None)" for q
      using pool_okD(1) [OF ok, of q] i unfolding pl by (auto simp: s'_def split: if_split_asm)
    show "j < length (submitted s') \<and> j \<notin> fst ` set (answered s')" if "task_pms s' q = Some j" for q j
      using that pool_okD(2) [OF ok, of q j] pool_okD(3) [OF ok i(1), of q] by (auto simp: s'_def split: if_split_asm)
    show "q = q'" if "task_pms s' q = Some j" "task_pms s' q' = Some j" for q q' j
      using that pool_okD(3) [OF ok] by (auto simp: s'_def split: if_split_asm)
    show "j \<in> fst ` set (answered s') \<or> (\<exists>q. task_pms s' q = Some j)" if "j < length (submitted s')" for j
      using that pool_okD(4) [OF ok, of j] i(1) by (cases "j = i") (auto simp: s'_def, (metis option.inject)+)
    show "task_result s' q = Some (V (submitted s' ! j))" if "q \<in> set (out_queue s')" "task_pms s' q = Some j" for q j
      using that pool_okD(5) [OF ok] Cons by (auto simp: s'_def split: if_split_asm)
    show "distinct (map fst (answered s'))" using pool_okD(6) [OF ok] na by (simp add: s'_def)
    show "j < length (submitted s') \<and> b = V (submitted s' ! j)" if "(j, b) \<in> set (answered s')" for j b
      using that pool_okD(7) [OF ok, of j b] i by (auto simp: s'_def)
  qed
  with e show ?thesis by blast
qed

text \<open>Every step of a pool in a good state ends normally, in a good state.\<close>

lemma pool_step_ok:
  assumes "pool_step V s r" "pool_ok V s"
  shows "\<exists>s'. r = Inr s' \<and> pool_ok V s'"
  using assms
proof cases
  case (submit ptr t i s')
  then show ?thesis using pool_submit_ok [OF assms(2)] by blast
next
  case (wake w)
  then show ?thesis using pool_ok_same [OF assms(2) places_workers, of w "WLoop (burst_size s)"] by (simp add: worker_wake_def)
next
  case (take w cnt)
  show ?thesis
  proof (cases "in_queue s")
    case Nil
    then show ?thesis using take pool_ok_same [OF assms(2) places_workers, of w WIdle] by (simp add: worker_take_def)
  next
    case (Cons p ps)
    have "places (worker_take w cnt s) = places s"
      using busy_upd [OF take(2), of "WBusy cnt p"] take(3) Cons by (simp add: worker_take_def places_def)
    then show ?thesis using take Cons pool_ok_same [OF assms(2), of "worker_take w cnt s"] by (simp add: worker_take_def)
  qed
next
  case (finish w cnt p)
  then show ?thesis using pool_finish_ok [OF assms(2)] by simp
next
  case notify
  then show ?thesis using pool_ok_same [OF assms(2), of "collect_wake s"] by (simp add: collect_wake_def places_def)
next
  case (collect cnt)
  then show ?thesis using pool_collect_ok [OF assms(2)] by simp
qed

lemma pool_reachable_ok: "pool_reachable V s \<Longrightarrow> pool_ok V s"
proof -
  assume "pool_reachable V s"
  then obtain n b where "(pool_next V)\<^sup>*\<^sup>* (VeriPool_new n b) s" by (auto simp: pool_reachable_def)
  then show ?thesis
    by (induction rule: rtranclp_induct) (auto simp: pool_new_ok pool_next_def dest: pool_step_ok)
qed

section \<open>Properties\<close>

text \<open>
  C28: The pool answers every task once, with what its \<open>verify\<close> returns, under every interleaving of the
  threads: each submission so far is answered with the right value, or is in exactly one place (a queue or a
  worker), and never both.
\<close>

theorem pool_answers_once:
  assumes "pool_reachable V s"
  shows "distinct (map fst (answered s)) \<and> (\<forall>(i, b) \<in> set (answered s). i < length (submitted s) \<and> b = V (submitted s ! i)) \<and>
    (\<forall>i < length (submitted s). i \<notin> fst ` set (answered s) \<longrightarrow> (\<exists>p. task_pms s p = Some i \<and> count (places s) p = 1))"
proof -
  note ok = pool_okD [OF pool_reachable_ok [OF assms]]
  have "\<exists>p. task_pms s p = Some i \<and> count (places s) p = 1" if "i < length (submitted s)" "i \<notin> fst ` set (answered s)" for i
    using ok(4) [OF that(1)] that(2) ok(1) by fastforce
  then show ?thesis using ok(6,7) by blast
qed

text \<open>A run with one worker: submit, wake, take, verify, collect.\<close>

definition sample_pool :: "bool VeriPool" where
  "sample_pool = \<lparr>burst_size = 128, in_queue = [], out_queue = [], workers = [WLoop 127], collector = Some 127,
     task_pms = Map.empty(7 := None), task_result = Map.empty(7 \<mapsto> True), submitted = [True], answered = [(0, True)]\<rparr>"

lemma sample_pool_run: "pool_reachable id sample_pool"
proof -
  let ?s0 = "VeriPool_new 1 128 :: bool VeriPool"
  let ?s1 = "?s0\<lparr>task_pms := [7 \<mapsto> 0], task_result := Map.empty(7 := None), submitted := [True], in_queue := [7]\<rparr>"
  have 1: "pool_next id ?s0 ?s1"
    unfolding pool_next_def by (rule pool_step.submit [of _ 7 True 0]) (simp_all add: VeriPool_new_def pool_verify_def)
  let ?s2 = "worker_wake 0 ?s1"
  have 2: "pool_next id ?s1 ?s2" unfolding pool_next_def by (rule pool_step.wake) (simp_all add: VeriPool_new_def)
  let ?s3 = "worker_take 0 128 ?s2"
  have 3: "pool_next id ?s2 ?s3" unfolding pool_next_def by (rule pool_step.take) (simp_all add: VeriPool_new_def worker_wake_def)
  have f: "pool_step id ?s3 (worker_done id 0 128 7 ?s3)"
    by (rule pool_step.finish) (simp_all add: VeriPool_new_def worker_wake_def worker_take_def)
  obtain s4 where s4: "worker_done id 0 128 7 ?s3 = Inr s4" "s4 = ?s3\<lparr>task_result := [7 \<mapsto> True], out_queue := [7], workers := [WLoop 127]\<rparr>"
    by (simp add: worker_done_def VeriPool_new_def worker_wake_def worker_take_def next_round_def)
  have 4: "pool_next id ?s3 s4" using f s4(1) by (simp add: pool_next_def)
  let ?s5 = "collect_wake s4"
  have 5: "pool_next id s4 ?s5" unfolding pool_next_def
    by (rule pool_step.notify) (simp add: s4(2) VeriPool_new_def worker_wake_def worker_take_def)
  have "pool_step id ?s5 (collect_one 128 ?s5)"
    by (rule pool_step.collect) (simp add: s4(2) VeriPool_new_def worker_wake_def worker_take_def collect_wake_def)
  moreover have "collect_one 128 ?s5 = Inr sample_pool"
    by (simp add: collect_one_def s4(2) VeriPool_new_def worker_wake_def worker_take_def collect_wake_def sample_pool_def)
  ultimately have 6: "pool_next id ?s5 sample_pool" by (simp add: pool_next_def)
  have "(pool_next id)\<^sup>*\<^sup>* ?s0 sample_pool"
    using 1 2 3 4 5 6 by (meson converse_rtranclp_into_rtranclp rtranclp.rtrancl_refl)
  then show ?thesis unfolding pool_reachable_def by blast
qed

theorem pool_answers_once_witness:
  "pool_reachable id sample_pool \<and> answered sample_pool = [(0, True)] \<and> distinct (map fst (answered sample_pool))"
  using pool_answers_once [OF sample_pool_run] sample_pool_run by (simp add: sample_pool_def)

text \<open>
  No step of the pool fails: the collector always finds the promise of the task it dequeues and the result
  the worker wrote, and a worker's task still exists.
\<close>

theorem pool_never_fails:
  assumes "pool_reachable V s" "pool_step V s r"
  shows "\<exists>s'. r = Inr s'"
  using pool_step_ok [OF assms(2) pool_reachable_ok [OF assms(1)]] by blast

theorem pool_never_fails_witness:
  "\<exists>s'. collect_one 127 sample_pool = Inr s'"
  by (rule pool_never_fails [OF sample_pool_run pool_step.collect]) (simp add: sample_pool_def)

end
