(* ===== verification/Hs_Bls.thy ===== *)
theory Hs_Bls
  imports Hs_Prelude
begin

unbundle bit_operations_syntax

text \<open>
  The signature library under \<^verbatim>\<open>bls/src\<close>: group elements and their encodings
  (\<^verbatim>\<open>elements.cpp\<close>), private keys (\<^verbatim>\<open>privatekey.cpp\<close>), key
  derivation (\<^verbatim>\<open>hkdf.hpp\<close>, \<^verbatim>\<open>hdkeys.hpp\<close>) and the helpers of
  \<^verbatim>\<open>util.hpp\<close>.

  The curve arithmetic, the pairing, the bit codecs of points and big numbers and the hash
  functions are those of the library \<open>relic\<close>, which is not part of the repository: they are the
  record \<open>relic\<close>. Elements are compared by \<open>g1_cmp\<close> and \<open>g2_cmp\<close>, so two representations of
  one point are one value. A parser of \<open>relic\<close> reports bad input through its error code, which the
  code reads afterwards: the flag it returns. Private keys are natural numbers.
\<close>

section \<open>The operations of relic\<close>

record ('g1, 'g2, 'gt) relic =
  g1_infty :: 'g1
  g1_gen :: 'g1
  g1_add :: "'g1 \<Rightarrow> 'g1 \<Rightarrow> 'g1"
  g1_neg :: "'g1 \<Rightarrow> 'g1"
  g1_mul :: "'g1 \<Rightarrow> nat \<Rightarrow> 'g1"
  g1_is_valid :: "'g1 \<Rightarrow> bool"
  g1_write_bin :: "'g1 \<Rightarrow> bytes"                 \<comment> \<open>49 bytes, compressed\<close>
  g1_read_bin :: "bytes \<Rightarrow> 'g1 \<times> bool"
  ep_map_dst :: "bytes \<Rightarrow> bytes \<Rightarrow> 'g1"
  g2_infty :: 'g2
  g2_gen :: 'g2
  g2_add :: "'g2 \<Rightarrow> 'g2 \<Rightarrow> 'g2"
  g2_neg :: "'g2 \<Rightarrow> 'g2"
  g2_mul :: "'g2 \<Rightarrow> nat \<Rightarrow> 'g2"
  g2_is_valid :: "'g2 \<Rightarrow> bool"
  g2_write_bin :: "'g2 \<Rightarrow> bytes"                 \<comment> \<open>97 bytes, compressed\<close>
  g2_read_bin :: "bytes \<Rightarrow> 'g2 \<times> bool"
  ep2_map_dst :: "bytes \<Rightarrow> bytes \<Rightarrow> 'g2"
  gt_unity :: 'gt
  gt_mul :: "'gt \<Rightarrow> 'gt \<Rightarrow> 'gt"
  pp_map :: "'g1 \<Rightarrow> 'g2 \<Rightarrow> 'gt"
  pc_map_sim :: "('g1 \<times> 'g2) list \<Rightarrow> 'gt \<times> bool"   \<comment> \<open>product of the pairings, error code\<close>
  gt_is_valid :: "'gt \<Rightarrow> bool"
  gt_write_bin :: "'gt \<Rightarrow> bytes"
  gt_read_bin :: "bytes \<Rightarrow> 'gt \<times> bool"
  g_ord :: nat
  bn_read_bin :: "bytes \<Rightarrow> nat"
  bn_write_bin :: "nat \<Rightarrow> nat \<Rightarrow> bytes"          \<comment> \<open>length, number\<close>
  md_hmac :: "bytes \<Rightarrow> bytes \<Rightarrow> bytes"           \<comment> \<open>message, key\<close>
  md_map_sh256 :: "bytes \<Rightarrow> bytes"

section \<open>Elements of G1\<close>

definition G1_SIZE :: nat where "G1_SIZE = 48"

definition G2_SIZE :: nat where "G2_SIZE = 96"

definition g1_check_valid :: "('g1, 'g2, 'gt) relic \<Rightarrow> bool \<Rightarrow> 'g1 \<Rightarrow> 'g1 res" where
  "g1_check_valid R err p =
     (if \<not> g1_is_valid R p then Inl (InvalidArgument ''Given G1 element failed g1_is_valid check'')
      else if g1_mul R p (g_ord R) \<noteq> g1_infty R then Inl (InvalidArgument ''Given G1 element failed in_subgroup check'')
      else if err then Inl (InvalidArgument ''Relic reports invalid argument given'')
      else Inr p)"

definition g1_from_bytes :: "('g1, 'g2, 'gt) relic \<Rightarrow> bytes \<Rightarrow> 'g1 res" where
  "g1_from_bytes R bs =
     bind (guard (G1_SIZE \<le> length bs) OutOfRange) (\<lambda>_.
     let top = bs ! 0; rest = take (G1_SIZE - 1) (drop 1 bs) in
     if top AND 0xc0 = 0xc0 then
       if top \<noteq> 0xc0 \<or> \<not> list_all (\<lambda>b. b = 0) rest
       then Inl (InvalidArgument ''Given G1 infinity element must be canonical'')
       else Inr (g1_infty R)
     else if top AND 0xc0 \<noteq> 0x80
     then Inl (InvalidArgument ''Given G1 non-infinity element must start with 0b10'')
     else
       let tag = (if top AND 0x20 \<noteq> 0 then 0x03 else 0x02);
           (p, err) = g1_read_bin R (tag # (top AND 0x1f) # rest) in
       g1_check_valid R err p)"

definition g1_from_native :: "('g1, 'g2, 'gt) relic \<Rightarrow> 'g1 \<Rightarrow> 'g1 res" where
  "g1_from_native R p = g1_check_valid R False p"

definition g1_from_message :: "('g1, 'g2, 'gt) relic \<Rightarrow> bytes \<Rightarrow> bytes \<Rightarrow> 'g1 res" where
  "g1_from_message R msg dst = g1_from_native R (ep_map_dst R msg dst)"

definition g1_generator :: "('g1, 'g2, 'gt) relic \<Rightarrow> 'g1 res" where
  "g1_generator R = g1_check_valid R False (g1_gen R)"

definition g1_infinity :: "('g1, 'g2, 'gt) relic \<Rightarrow> 'g1 res" where
  "g1_infinity R = g1_check_valid R False (g1_infty R)"

definition g1_negate :: "('g1, 'g2, 'gt) relic \<Rightarrow> 'g1 \<Rightarrow> 'g1 res" where
  "g1_negate R p = g1_check_valid R False (g1_neg R p)"

definition g1_serialize :: "('g1, 'g2, 'gt) relic \<Rightarrow> 'g1 \<Rightarrow> bytes" where
  "g1_serialize R p =
     (let buf = g1_write_bin R p in
      if buf ! 0 = 0 then 0xc0 # replicate (G1_SIZE - 1) 0
      else
        let top = (if buf ! 0 = 0x03 then buf ! 1 OR 0x20 else buf ! 1) in
        (top OR 0x80) # take (G1_SIZE - 1) (drop 2 buf))"

definition g1_plus :: "('g1, 'g2, 'gt) relic \<Rightarrow> 'g1 \<Rightarrow> 'g1 \<Rightarrow> 'g1 res" where
  "g1_plus R a b = g1_from_native R (g1_add R a b)"

definition g1_times :: "('g1, 'g2, 'gt) relic \<Rightarrow> 'g1 \<Rightarrow> nat \<Rightarrow> 'g1 res" where
  "g1_times R a k = g1_from_native R (g1_mul R a k)"

section \<open>Elements of G2\<close>

definition g2_check_valid :: "('g1, 'g2, 'gt) relic \<Rightarrow> bool \<Rightarrow> 'g2 \<Rightarrow> 'g2 res" where
  "g2_check_valid R err q =
     (if \<not> g2_is_valid R q then Inl (InvalidArgument ''Given G2 element failed g2_is_valid check'')
      else if g2_mul R q (g_ord R) \<noteq> g2_infty R then Inl (InvalidArgument ''Given G2 element failed in_subgroup check'')
      else if err then Inl (InvalidArgument ''Relic reports invalid argument given'')
      else Inr q)"

definition g2_from_bytes :: "('g1, 'g2, 'gt) relic \<Rightarrow> bytes \<Rightarrow> 'g2 res" where
  "g2_from_bytes R bs =
     bind (guard (G2_SIZE \<le> length bs) OutOfRange) (\<lambda>_.
     let top = bs ! 0; rest = take (G2_SIZE - 1) (drop 1 bs);
         low = take 48 (drop 48 bs); high = take 47 (drop 1 bs) in
     if bs ! 48 AND 0xe0 \<noteq> 0
     then Inl (InvalidArgument ''Given G2 element must always have 48th byte start with 0b000'')
     else if top AND 0xc0 = 0xc0 then
       if top \<noteq> 0xc0 \<or> \<not> list_all (\<lambda>b. b = 0) rest
       then Inl (InvalidArgument ''Given G2 infinity element must be canonical'')
       else Inr (g2_infty R)
     else if top AND 0xc0 \<noteq> 0x80
     then Inl (InvalidArgument ''G2 non-inf element must have 0th byte start with 0b10'')
     else
       let tag = (if top AND 0x20 \<noteq> 0 then 0x03 else 0x02);
           (q, err) = g2_read_bin R (tag # low @ (top AND 0x1f) # high) in
       g2_check_valid R err q)"

definition g2_from_native :: "('g1, 'g2, 'gt) relic \<Rightarrow> 'g2 \<Rightarrow> 'g2 res" where
  "g2_from_native R q = g2_check_valid R False q"

definition g2_from_message :: "('g1, 'g2, 'gt) relic \<Rightarrow> bytes \<Rightarrow> bytes \<Rightarrow> 'g2 res" where
  "g2_from_message R msg dst = g2_from_native R (ep2_map_dst R msg dst)"

definition g2_generator :: "('g1, 'g2, 'gt) relic \<Rightarrow> 'g2 res" where
  "g2_generator R = g2_check_valid R False (g2_gen R)"

definition g2_infinity :: "('g1, 'g2, 'gt) relic \<Rightarrow> 'g2 res" where
  "g2_infinity R = g2_check_valid R False (g2_infty R)"

definition g2_negate :: "('g1, 'g2, 'gt) relic \<Rightarrow> 'g2 \<Rightarrow> 'g2 res" where
  "g2_negate R q = g2_check_valid R False (g2_neg R q)"

definition g2_serialize :: "('g1, 'g2, 'gt) relic \<Rightarrow> 'g2 \<Rightarrow> bytes" where
  "g2_serialize R q =
     (let buf = g2_write_bin R q in
      if buf ! 0 = 0 then 0xc0 # replicate (G2_SIZE - 1) 0
      else
        let low = (buf ! 1 AND 0x1f) # take 47 (drop 2 buf);
            top = (buf ! 49 AND 0x1f) OR (if buf ! 0 = 0x03 then 0xa0 else 0x80) in
        top # take 47 (drop 50 buf) @ low)"

definition g2_plus :: "('g1, 'g2, 'gt) relic \<Rightarrow> 'g2 \<Rightarrow> 'g2 \<Rightarrow> 'g2 res" where
  "g2_plus R a b = g2_from_native R (g2_add R a b)"

definition g2_times :: "('g1, 'g2, 'gt) relic \<Rightarrow> 'g2 \<Rightarrow> nat \<Rightarrow> 'g2 res" where
  "g2_times R a k = g2_from_native R (g2_mul R a k)"

section \<open>Elements of GT\<close>

definition gt_from_bytes :: "('g1, 'g2, 'gt) relic \<Rightarrow> bytes \<Rightarrow> 'gt res" where
  "gt_from_bytes R bs =
     bind (guard (384 \<le> length bs) OutOfRange) (\<lambda>_.
     let (r, err) = gt_read_bin R (take 384 bs) in
     if \<not> gt_is_valid R r then Inl (InvalidArgument ''GTElement is invalid'')
     else if err then Inl (InvalidArgument ''Relic library error'') else Inr r)"

definition g_pair :: "('g1, 'g2, 'gt) relic \<Rightarrow> 'g1 \<Rightarrow> 'g2 \<Rightarrow> 'gt" where
  "g_pair R a b = pp_map R a b"

definition gt_serialize :: "('g1, 'g2, 'gt) relic \<Rightarrow> 'gt \<Rightarrow> bytes" where
  "gt_serialize R r = gt_write_bin R r"

section \<open>Helpers\<close>

definition IntToFourBytes :: "u32 \<Rightarrow> bytes" where
  "IntToFourBytes x = map (\<lambda>i. ucast (drop_bit (i * 8) x)) [3, 2, 1, 0]"

text \<open>\<open>bytes[i] << (8 * (3 - i))\<close> on a byte promoted to \<open>int\<close>, stored in 32 bits.\<close>

fun FourBytesToInt :: "bytes \<Rightarrow> u32 res" where
  "FourBytesToInt (a # b # c # d # _) =
     Inr (push_bit 24 (ucast a) + push_bit 16 (ucast b) + push_bit 8 (ucast c) + ucast d)"
| "FourBytesToInt _ = Inl OutOfRange"

definition g1_fingerprint :: "('g1, 'g2, 'gt) relic \<Rightarrow> 'g1 \<Rightarrow> u32 res" where
  "g1_fingerprint R p = FourBytesToInt (md_map_sh256 R (g1_serialize R p))"

fun char2int :: "char \<Rightarrow> u8 res" where
  "char2int c =
     (let n = of_char c :: nat in
      if 48 \<le> n \<and> n \<le> 57 then Inr (of_nat (n - 48))
      else if 65 \<le> n \<and> n \<le> 70 then Inr (of_nat (n - 65 + 10))
      else if 97 \<le> n \<and> n \<le> 102 then Inr (of_nat (n - 97 + 10))
      else Inl (InvalidArgument ''Invalid input string''))"

fun hex_pairs :: "string \<Rightarrow> bytes res" where
  "hex_pairs [] = Inr []"
| "hex_pairs [c] = Inl OutOfRange"
| "hex_pairs (c # d # cs) =
     bind (char2int c) (\<lambda>h. bind (char2int d) (\<lambda>l. bind (hex_pairs cs) (\<lambda>bs. Inr ((h * 16 + l) # bs))))"

definition HexToBytes :: "string \<Rightarrow> bytes res" where
  "HexToBytes hex =
     (if length hex mod 2 \<noteq> 0
      then Inl (InvalidArgument ''Invalid input string, length must be multple of 2'')
      else hex_pairs (if take 2 hex = ''0x'' then drop 2 hex else hex))"

definition hex_digit :: "nat \<Rightarrow> char" where
  "hex_digit n = char_of (if n < 10 then 48 + n else 87 + n)"

definition HexStr :: "bytes \<Rightarrow> string" where
  "HexStr bs = concat (map (\<lambda>b. [hex_digit (unat b div 16), hex_digit (unat b mod 16)]) bs)"

section \<open>Private keys\<close>

type_synonym PrivateKey = nat

definition priv_from_bytes :: "('g1, 'g2, 'gt) relic \<Rightarrow> bytes \<Rightarrow> bool \<Rightarrow> PrivateKey res" where
  "priv_from_bytes R bs modOrder =
     bind (guard (32 \<le> length bs) OutOfRange) (\<lambda>_.
     let k = bn_read_bin R (take 32 bs) in
     if modOrder then Inr (k mod g_ord R)
     else if k > g_ord R
     then Inl (InvalidArgument ''PrivateKey byte data must be less than the group order'')
     else Inr k)"

definition priv_from_byte_vector :: "('g1, 'g2, 'gt) relic \<Rightarrow> bytes \<Rightarrow> bool \<Rightarrow> PrivateKey res" where
  "priv_from_byte_vector R bs modOrder =
     (if length bs \<noteq> 32 then Inl (InvalidArgument ''Private keys must be 32 bytes'')
      else priv_from_bytes R bs modOrder)"

definition GetG1Element :: "('g1, 'g2, 'gt) relic \<Rightarrow> PrivateKey \<Rightarrow> 'g1 res" where
  "GetG1Element R k = g1_from_native R (g1_mul R (g1_gen R) k)"

definition GetG2Element :: "('g1, 'g2, 'gt) relic \<Rightarrow> PrivateKey \<Rightarrow> 'g2 res" where
  "GetG2Element R k = g2_from_native R (g2_mul R (g2_gen R) k)"

definition GetG2Power :: "('g1, 'g2, 'gt) relic \<Rightarrow> PrivateKey \<Rightarrow> 'g2 \<Rightarrow> 'g2 res" where
  "GetG2Power R k q = g2_from_native R (g2_mul R q k)"

fun add_keys :: "nat \<Rightarrow> PrivateKey \<Rightarrow> PrivateKey list \<Rightarrow> PrivateKey" where
  "add_keys n k [] = k"
| "add_keys n k (x # xs) = add_keys n ((k + x) mod n) xs"

definition priv_aggregate :: "('g1, 'g2, 'gt) relic \<Rightarrow> PrivateKey list \<Rightarrow> PrivateKey res" where
  "priv_aggregate R ks =
     (case ks of [] \<Rightarrow> Inl (LengthError ''Number of private keys must be at least 1'')
      | k # xs \<Rightarrow> Inr (add_keys (g_ord R) k xs))"

definition priv_is_zero :: "PrivateKey \<Rightarrow> bool" where
  "priv_is_zero k \<longleftrightarrow> k = 0"

definition priv_serialize :: "('g1, 'g2, 'gt) relic \<Rightarrow> PrivateKey \<Rightarrow> bytes" where
  "priv_serialize R k = bn_write_bin R 32 k"

definition SignG2 :: "('g1, 'g2, 'gt) relic \<Rightarrow> PrivateKey \<Rightarrow> bytes \<Rightarrow> bytes \<Rightarrow> 'g2 res" where
  "SignG2 R k msg dst = g2_from_native R (g2_mul R (ep2_map_dst R msg dst) k)"

section \<open>Key derivation\<close>

definition hkdf_extract :: "('g1, 'g2, 'gt) relic \<Rightarrow> bytes \<Rightarrow> bytes \<Rightarrow> bytes" where
  "hkdf_extract R salt ikm = md_hmac R ikm salt"

text \<open>The rounds \<open>i\<close> to \<open>N\<close> of \<open>Expand\<close>, with the last block \<open>T\<close> and the bytes written.\<close>

fun expand_rounds :: "('g1, 'g2, 'gt) relic \<Rightarrow> nat \<Rightarrow> bytes \<Rightarrow> bytes \<Rightarrow> nat \<Rightarrow> nat \<Rightarrow> bytes \<Rightarrow> bytes \<Rightarrow> bytes res" where
  "expand_rounds R L prk info i 0 T okm = Inr okm"
| "expand_rounds R L prk info i (Suc n) T okm =
     (let T = md_hmac R ((if i = 1 then info else T @ info) @ [of_nat i]) prk;
          to_write = min 32 (L - length okm) in
      bind (guard (0 < to_write) AssertFail) (\<lambda>_.
        expand_rounds R L prk info (Suc i) n T (okm @ take to_write T)))"

definition hkdf_expand :: "('g1, 'g2, 'gt) relic \<Rightarrow> nat \<Rightarrow> bytes \<Rightarrow> bytes \<Rightarrow> bytes res" where
  "hkdf_expand R L prk info =
     bind (guard (L \<le> 255 * 32) AssertFail) (\<lambda>_.
     let N = (L + 31) div 32 in
     bind (guard (1 \<le> N \<and> N \<le> 255) AssertFail) (\<lambda>_.
     bind (expand_rounds R L prk info 1 N [] []) (\<lambda>okm.
     bind (guard (length okm = L) AssertFail) (\<lambda>_. Inr okm))))"

definition hkdf_extract_expand :: "('g1, 'g2, 'gt) relic \<Rightarrow> nat \<Rightarrow> bytes \<Rightarrow> bytes \<Rightarrow> bytes \<Rightarrow> bytes res" where
  "hkdf_extract_expand R L key salt info = hkdf_expand R L (hkdf_extract R salt key) info"

definition keygen_salt :: bytes where
  "keygen_salt = [66, 76, 83, 45, 83, 73, 71, 45, 75, 69, 89, 71, 69, 78, 45, 83, 65, 76, 84, 45]"

definition KeyGen :: "('g1, 'g2, 'gt) relic \<Rightarrow> bytes \<Rightarrow> PrivateKey res" where
  "KeyGen R seed =
     (if length seed < 32 then Inl (InvalidArgument ''Seed size must be at least 32 bytes'')
      else
        bind (hkdf_extract_expand R 48 (seed @ [0]) keygen_salt [0, 48]) (\<lambda>okm.
          priv_from_bytes R (bn_write_bin R 32 (bn_read_bin R okm mod g_ord R)) False))"

definition IKMToLamportSk :: "('g1, 'g2, 'gt) relic \<Rightarrow> bytes \<Rightarrow> bytes \<Rightarrow> bytes res" where
  "IKMToLamportSk R ikm salt = hkdf_extract_expand R (32 * 255) ikm salt []"

definition hash_chunks :: "('g1, 'g2, 'gt) relic \<Rightarrow> bytes \<Rightarrow> bytes" where
  "hash_chunks R bs = concat (map (\<lambda>i. md_map_sh256 R (take 32 (drop (i * 32) bs))) [0..<255])"

definition ParentSkToLamportPK :: "('g1, 'g2, 'gt) relic \<Rightarrow> PrivateKey \<Rightarrow> u32 \<Rightarrow> bytes res" where
  "ParentSkToLamportPK R sk index =
     (let salt = IntToFourBytes index; ikm = priv_serialize R sk; notIkm = map (\<lambda>b. b XOR 0xff) ikm in
      bind (IKMToLamportSk R ikm salt) (\<lambda>l0.
      bind (IKMToLamportSk R notIkm salt) (\<lambda>l1.
        Inr (md_map_sh256 R (hash_chunks R l0 @ hash_chunks R l1)))))"

definition DeriveChildSk :: "('g1, 'g2, 'gt) relic \<Rightarrow> PrivateKey \<Rightarrow> u32 \<Rightarrow> PrivateKey res" where
  "DeriveChildSk R sk index = bind (ParentSkToLamportPK R sk index) (KeyGen R)"

definition child_digest :: "('g1, 'g2, 'gt) relic \<Rightarrow> bytes \<Rightarrow> u32 \<Rightarrow> bytes" where
  "child_digest R pk index = md_map_sh256 R (pk @ IntToFourBytes index)"

definition DeriveChildSkUnhardened :: "('g1, 'g2, 'gt) relic \<Rightarrow> PrivateKey \<Rightarrow> u32 \<Rightarrow> PrivateKey res" where
  "DeriveChildSkUnhardened R sk index =
     bind (GetG1Element R sk) (\<lambda>pk.
     bind (priv_from_bytes R (child_digest R (g1_serialize R pk) index) True) (\<lambda>nonce.
       priv_aggregate R [sk, nonce]))"

definition DeriveChildG1Unhardened :: "('g1, 'g2, 'gt) relic \<Rightarrow> 'g1 \<Rightarrow> u32 \<Rightarrow> 'g1 res" where
  "DeriveChildG1Unhardened R pk index =
     (let nonce = bn_read_bin R (child_digest R (g1_serialize R pk) index) mod g_ord R in
      bind (g1_generator R) (\<lambda>gen. bind (g1_times R gen nonce) (\<lambda>x. g1_plus R pk x)))"

definition DeriveChildG2Unhardened :: "('g1, 'g2, 'gt) relic \<Rightarrow> 'g2 \<Rightarrow> u32 \<Rightarrow> 'g2 res" where
  "DeriveChildG2Unhardened R pk index =
     (let nonce = bn_read_bin R (child_digest R (g2_serialize R pk) index) mod g_ord R in
      bind (g2_generator R) (\<lambda>gen. bind (g2_times R gen nonce) (\<lambda>x. g2_plus R pk x)))"

end
