(* ===== verification/Hs_Schemes.thy ===== *)
theory Hs_Schemes
  imports Hs_Bls
begin

unbundle bit_operations_syntax

text \<open>
  The signature schemes of \<^verbatim>\<open>bls/src/schemes.cpp\<close>: \<open>CoreMPL\<close> and the basic,
  augmented and proof-of-possession schemes built on it. A \<open>vector\<close> is a list; the arrays handed to
  \<open>NativeVerify\<close> are one list of pairs. An argument that is parsed from bytes shorter than an
  element is a read past the end of a vector, \<open>OutOfRange\<close>; sizes stay below \<open>2\<^sup>3\<^sup>1\<close>, so
  that \<open>int n\<close> holds them.
\<close>

section \<open>Ciphersuites\<close>

definition ascii :: "string \<Rightarrow> bytes" where
  "ascii s = map of_char s"

definition BASIC_CIPHERSUITE_ID :: bytes where
  "BASIC_CIPHERSUITE_ID = ascii ''BLS_SIG_BLS12381G2_XMD:SHA-256_SSWU_RO_NUL_''"

definition AUG_CIPHERSUITE_ID :: bytes where
  "AUG_CIPHERSUITE_ID = ascii ''BLS_SIG_BLS12381G2_XMD:SHA-256_SSWU_RO_AUG_''"

definition POPSCHEME_CIPHERSUITE_ID :: bytes where
  "POPSCHEME_CIPHERSUITE_ID = ascii ''BLS_SIG_BLS12381G2_XMD:SHA-256_SSWU_RO_POP_''"

definition POP_CIPHERSUITE_ID :: bytes where
  "POP_CIPHERSUITE_ID = ascii ''BLS_POP_BLS12381G2_XMD:SHA-256_SSWU_RO_POP_''"

section \<open>CoreMPL\<close>

fun map_res :: "('a \<Rightarrow> 'b res) \<Rightarrow> 'a list \<Rightarrow> 'b list res" where
  "map_res f [] = Inr []"
| "map_res f (x # xs) = bind (f x) (\<lambda>y. bind (map_res f xs) (\<lambda>ys. Inr (y # ys)))"

definition SkToPk :: "('g1, 'g2, 'gt) relic \<Rightarrow> PrivateKey \<Rightarrow> bytes res" where
  "SkToPk R sk = bind (GetG1Element R sk) (\<lambda>pk. Inr (g1_serialize R pk))"

definition Core_Sign :: "('g1, 'g2, 'gt) relic \<Rightarrow> PrivateKey \<Rightarrow> bytes \<Rightarrow> bytes \<Rightarrow> 'g2 res" where
  "Core_Sign R sk msg dst = SignG2 R sk msg dst"

text \<open>The loop of \<open>NativeVerify\<close>: 250 pairings a round, the product and the error code so far.\<close>

fun native_loop :: "('g1, 'g2, 'gt) relic \<Rightarrow> ('g1 \<times> 'g2) list \<Rightarrow> 'gt \<Rightarrow> bool \<Rightarrow> 'gt \<times> bool" where
  "native_loop R [] candidate err = (candidate, err)"
| "native_loop R (x # xs) candidate err =
     (let (tmp, e) = pc_map_sim R (take 250 (x # xs)) in
      native_loop R (drop 250 (x # xs)) (gt_mul R candidate tmp) (err \<or> e))"

definition NativeVerify :: "('g1, 'g2, 'gt) relic \<Rightarrow> ('g1 \<times> 'g2) list \<Rightarrow> bool" where
  "NativeVerify R ps =
     (let (candidate, err) = native_loop R ps (gt_unity R) False in
      \<not> (gt_unity R \<noteq> candidate \<or> err))"

definition neg_generator :: "('g1, 'g2, 'gt) relic \<Rightarrow> 'g1 res" where
  "neg_generator R = bind (g1_generator R) (g1_negate R)"

definition Core_Verify :: "('g1, 'g2, 'gt) relic \<Rightarrow> 'g1 \<Rightarrow> bytes \<Rightarrow> 'g2 \<Rightarrow> bytes \<Rightarrow> bool res" where
  "Core_Verify R pubkey msg sig dst =
     bind (neg_generator R) (\<lambda>genneg.
     bind (g2_from_message R msg dst) (\<lambda>hashedPoint.
       Inr (NativeVerify R [(genneg, sig), (pubkey, hashedPoint)])))"

definition Core_Verify_bytes :: "('g1, 'g2, 'gt) relic \<Rightarrow> bytes \<Rightarrow> bytes \<Rightarrow> bytes \<Rightarrow> bytes \<Rightarrow> bool res" where
  "Core_Verify_bytes R pubkey msg sig dst =
     bind (g1_from_bytes R pubkey) (\<lambda>pk.
     bind (g2_from_bytes R sig) (\<lambda>s. Core_Verify R pk msg s dst))"

definition Aggregate :: "('g1, 'g2, 'gt) relic \<Rightarrow> 'g2 list \<Rightarrow> 'g2 res" where
  "Aggregate R sigs =
     (case sigs of [] \<Rightarrow> g2_from_native R (g2_infty R)
      | s # ss \<Rightarrow> g2_from_native R (foldl (g2_add R) s ss))"

definition Aggregate_bytes :: "('g1, 'g2, 'gt) relic \<Rightarrow> bytes list \<Rightarrow> bytes res" where
  "Aggregate_bytes R sigs =
     bind (map_res (g2_from_bytes R) sigs) (\<lambda>es.
     bind (Aggregate R es) (\<lambda>s. Inr (g2_serialize R s)))"

definition Aggregate_keys :: "('g1, 'g2, 'gt) relic \<Rightarrow> 'g1 list \<Rightarrow> 'g1 res" where
  "Aggregate_keys R pks =
     (case pks of [] \<Rightarrow> g1_from_native R (g1_infty R)
      | p # ps \<Rightarrow> g1_from_native R (foldl (g1_add R) p ps))"

definition Core_AggregateVerify ::
  "('g1, 'g2, 'gt) relic \<Rightarrow> 'g1 list \<Rightarrow> bytes list \<Rightarrow> 'g2 \<Rightarrow> bytes \<Rightarrow> bool res" where
  "Core_AggregateVerify R pubkeys msgs sig dst =
     (if length pubkeys \<noteq> length msgs \<or> length pubkeys = 0 then Inr False
      else
        bind (neg_generator R) (\<lambda>genneg.
        bind (map_res (\<lambda>msg. g2_from_message R msg dst) msgs) (\<lambda>hs.
          Inr (NativeVerify R ((genneg, sig) # zip pubkeys hs)))))"

definition Core_AggregateVerify_bytes ::
  "('g1, 'g2, 'gt) relic \<Rightarrow> bytes list \<Rightarrow> bytes list \<Rightarrow> bytes \<Rightarrow> bytes \<Rightarrow> bool res" where
  "Core_AggregateVerify_bytes R pubkeys msgs sig dst =
     (if length pubkeys \<noteq> length msgs \<or> length pubkeys = 0 then Inr False
      else
        bind (map_res (g1_from_bytes R) pubkeys) (\<lambda>pks.
        bind (g2_from_bytes R sig) (\<lambda>s. Core_AggregateVerify R pks msgs s dst)))"

section \<open>The basic scheme\<close>

definition Basic_Sign :: "('g1, 'g2, 'gt) relic \<Rightarrow> PrivateKey \<Rightarrow> bytes \<Rightarrow> 'g2 res" where
  "Basic_Sign R sk msg = Core_Sign R sk msg BASIC_CIPHERSUITE_ID"

definition Basic_Verify :: "('g1, 'g2, 'gt) relic \<Rightarrow> 'g1 \<Rightarrow> bytes \<Rightarrow> 'g2 \<Rightarrow> bool res" where
  "Basic_Verify R pubkey msg sig = Core_Verify R pubkey msg sig BASIC_CIPHERSUITE_ID"

definition Basic_Verify_bytes :: "('g1, 'g2, 'gt) relic \<Rightarrow> bytes \<Rightarrow> bytes \<Rightarrow> bytes \<Rightarrow> bool res" where
  "Basic_Verify_bytes R pubkey msg sig = Core_Verify_bytes R pubkey msg sig BASIC_CIPHERSUITE_ID"

definition Basic_AggregateVerify :: "('g1, 'g2, 'gt) relic \<Rightarrow> 'g1 list \<Rightarrow> bytes list \<Rightarrow> 'g2 \<Rightarrow> bool res" where
  "Basic_AggregateVerify R pubkeys msgs sig =
     (if length msgs = 0 then Inr False
      else if card (set msgs) \<noteq> length msgs then Inr False
      else Core_AggregateVerify R pubkeys msgs sig BASIC_CIPHERSUITE_ID)"

definition Basic_AggregateVerify_bytes ::
  "('g1, 'g2, 'gt) relic \<Rightarrow> bytes list \<Rightarrow> bytes list \<Rightarrow> bytes \<Rightarrow> bool res" where
  "Basic_AggregateVerify_bytes R pubkeys msgs sig =
     (if length msgs = 0 then Inr False
      else if card (set msgs) \<noteq> length msgs then Inr False
      else Core_AggregateVerify_bytes R pubkeys msgs sig BASIC_CIPHERSUITE_ID)"

section \<open>The augmented scheme\<close>

definition Aug_Sign_with :: "('g1, 'g2, 'gt) relic \<Rightarrow> PrivateKey \<Rightarrow> bytes \<Rightarrow> 'g1 \<Rightarrow> 'g2 res" where
  "Aug_Sign_with R sk msg prepend_pk = SignG2 R sk (g1_serialize R prepend_pk @ msg) AUG_CIPHERSUITE_ID"

definition Aug_Sign :: "('g1, 'g2, 'gt) relic \<Rightarrow> PrivateKey \<Rightarrow> bytes \<Rightarrow> 'g2 res" where
  "Aug_Sign R sk msg =
     bind (GetG1Element R sk) (\<lambda>pk. SignG2 R sk (g1_serialize R pk @ msg) AUG_CIPHERSUITE_ID)"

definition Aug_Verify :: "('g1, 'g2, 'gt) relic \<Rightarrow> 'g1 \<Rightarrow> bytes \<Rightarrow> 'g2 \<Rightarrow> bool res" where
  "Aug_Verify R pubkey msg sig = Core_Verify R pubkey (g1_serialize R pubkey @ msg) sig AUG_CIPHERSUITE_ID"

definition Aug_Verify_bytes :: "('g1, 'g2, 'gt) relic \<Rightarrow> bytes \<Rightarrow> bytes \<Rightarrow> bytes \<Rightarrow> bool res" where
  "Aug_Verify_bytes R pubkey msg sig = Core_Verify_bytes R pubkey (pubkey @ msg) sig AUG_CIPHERSUITE_ID"

text \<open>\<open>pubkeys[i]\<close> is read for every message before the sizes are compared.\<close>

definition augment :: "bytes list \<Rightarrow> bytes list \<Rightarrow> bytes list res" where
  "augment pubkeys msgs =
     bind (guard (length msgs \<le> length pubkeys) OutOfRange) (\<lambda>_. Inr (map2 (@) pubkeys msgs))"

definition Aug_AggregateVerify :: "('g1, 'g2, 'gt) relic \<Rightarrow> 'g1 list \<Rightarrow> bytes list \<Rightarrow> 'g2 \<Rightarrow> bool res" where
  "Aug_AggregateVerify R pubkeys msgs sig =
     (if length msgs = 0 then Inr False
      else
        bind (augment (map (g1_serialize R) pubkeys) msgs) (\<lambda>augs.
          Core_AggregateVerify R pubkeys augs sig AUG_CIPHERSUITE_ID))"

definition Aug_AggregateVerify_bytes ::
  "('g1, 'g2, 'gt) relic \<Rightarrow> bytes list \<Rightarrow> bytes list \<Rightarrow> bytes \<Rightarrow> bool res" where
  "Aug_AggregateVerify_bytes R pubkeys msgs sig =
     (if length msgs = 0 then Inr False
      else
        bind (augment pubkeys msgs) (\<lambda>augs.
          Core_AggregateVerify_bytes R pubkeys augs sig AUG_CIPHERSUITE_ID))"

section \<open>The scheme with proofs of possession\<close>

definition Pop_Sign :: "('g1, 'g2, 'gt) relic \<Rightarrow> PrivateKey \<Rightarrow> bytes \<Rightarrow> 'g2 res" where
  "Pop_Sign R sk msg = Core_Sign R sk msg POPSCHEME_CIPHERSUITE_ID"

definition Pop_Verify :: "('g1, 'g2, 'gt) relic \<Rightarrow> 'g1 \<Rightarrow> bytes \<Rightarrow> 'g2 \<Rightarrow> bool res" where
  "Pop_Verify R pubkey msg sig = Core_Verify R pubkey msg sig POPSCHEME_CIPHERSUITE_ID"

definition Pop_Verify_bytes :: "('g1, 'g2, 'gt) relic \<Rightarrow> bytes \<Rightarrow> bytes \<Rightarrow> bytes \<Rightarrow> bool res" where
  "Pop_Verify_bytes R pubkey msg sig = Core_Verify_bytes R pubkey msg sig POPSCHEME_CIPHERSUITE_ID"

definition Pop_AggregateVerify :: "('g1, 'g2, 'gt) relic \<Rightarrow> 'g1 list \<Rightarrow> bytes list \<Rightarrow> 'g2 \<Rightarrow> bool res" where
  "Pop_AggregateVerify R pubkeys msgs sig = Core_AggregateVerify R pubkeys msgs sig POPSCHEME_CIPHERSUITE_ID"

definition Pop_AggregateVerify_bytes ::
  "('g1, 'g2, 'gt) relic \<Rightarrow> bytes list \<Rightarrow> bytes list \<Rightarrow> bytes \<Rightarrow> bool res" where
  "Pop_AggregateVerify_bytes R pubkeys msgs sig =
     Core_AggregateVerify_bytes R pubkeys msgs sig POPSCHEME_CIPHERSUITE_ID"

definition PopProve :: "('g1, 'g2, 'gt) relic \<Rightarrow> PrivateKey \<Rightarrow> 'g2 res" where
  "PopProve R sk =
     bind (GetG1Element R sk) (\<lambda>pk.
     bind (g2_from_message R (g1_serialize R pk) POP_CIPHERSUITE_ID) (\<lambda>hashedKey.
       GetG2Power R sk hashedKey))"

definition PopVerify :: "('g1, 'g2, 'gt) relic \<Rightarrow> 'g1 \<Rightarrow> 'g2 \<Rightarrow> bool res" where
  "PopVerify R pubkey proof_sig =
     bind (neg_generator R) (\<lambda>genneg.
     bind (g2_from_message R (g1_serialize R pubkey) POP_CIPHERSUITE_ID) (\<lambda>hashedPoint.
       Inr (NativeVerify R [(genneg, proof_sig), (pubkey, hashedPoint)])))"

definition PopVerify_bytes :: "('g1, 'g2, 'gt) relic \<Rightarrow> bytes \<Rightarrow> bytes \<Rightarrow> bool res" where
  "PopVerify_bytes R pubkey proof_sig =
     bind (g1_from_bytes R pubkey) (\<lambda>p. bind (g2_from_bytes R proof_sig) (\<lambda>q. PopVerify R p q))"

definition FastAggregateVerify :: "('g1, 'g2, 'gt) relic \<Rightarrow> 'g1 list \<Rightarrow> bytes \<Rightarrow> 'g2 \<Rightarrow> bool res" where
  "FastAggregateVerify R pubkeys msg sig =
     (if length pubkeys = 0 then Inr False
      else
        bind (Aggregate_keys R pubkeys) (\<lambda>pkagg.
          Core_Verify R pkagg msg sig POPSCHEME_CIPHERSUITE_ID))"

definition FastAggregateVerify_bytes ::
  "('g1, 'g2, 'gt) relic \<Rightarrow> bytes list \<Rightarrow> bytes \<Rightarrow> bytes \<Rightarrow> bool res" where
  "FastAggregateVerify_bytes R pubkeys msg sig =
     (if length pubkeys = 0 then Inr False
      else
        bind (map_res (g1_from_bytes R) pubkeys) (\<lambda>pks.
        bind (g2_from_bytes R sig) (\<lambda>s. FastAggregateVerify R pks msg s)))"

end
