(* ===== verification/Hs_Bls_Laws.thy ===== *)
theory Hs_Bls_Laws
  imports Hs_Schemes
begin

unbundle bit_operations_syntax

text \<open>
  What the signature library relies on in \<open>relic\<close>, as predicates: the two groups and their
  subgroups of prime order, the pairing, the codecs and the hash functions. The lemmas derive from
  them what the operations of the library return; the contract of a signature scheme is the locale
  \<open>mpl_scheme\<close>, and the three schemes interpret it.
\<close>

section \<open>Laws\<close>

definition sub1 :: "('g1, 'g2, 'gt) relic \<Rightarrow> 'g1 \<Rightarrow> bool" where
  "sub1 R p \<longleftrightarrow> g1_is_valid R p \<and> g1_mul R p (g_ord R) = g1_infty R"

definition sub2 :: "('g1, 'g2, 'gt) relic \<Rightarrow> 'g2 \<Rightarrow> bool" where
  "sub2 R q \<longleftrightarrow> g2_is_valid R q \<and> g2_mul R q (g_ord R) = g2_infty R"

text \<open>The valid points of the subgroups are closed under the operations, and a multiple is a repeated
  sum, read modulo the order.\<close>

definition group1_laws :: "('g1, 'g2, 'gt) relic \<Rightarrow> bool" where
  "group1_laws R \<longleftrightarrow>
     sub1 R (g1_infty R) \<and> sub1 R (g1_gen R) \<and> 0 < g_ord R \<and>
     (\<forall>p. sub1 R p \<longrightarrow> sub1 R (g1_neg R p)) \<and>
     (\<forall>p p'. sub1 R p \<longrightarrow> sub1 R p' \<longrightarrow> sub1 R (g1_add R p p')) \<and>
     (\<forall>p k. sub1 R p \<longrightarrow> sub1 R (g1_mul R p k)) \<and>
     (\<forall>p a b. sub1 R p \<longrightarrow> g1_mul R p (a + b) = g1_add R (g1_mul R p a) (g1_mul R p b)) \<and>
     (\<forall>p k. sub1 R p \<longrightarrow> g1_mul R p (k mod g_ord R) = g1_mul R p k)"

definition group2_laws :: "('g1, 'g2, 'gt) relic \<Rightarrow> bool" where
  "group2_laws R \<longleftrightarrow>
     sub2 R (g2_infty R) \<and> sub2 R (g2_gen R) \<and>
     (\<forall>q q'. sub2 R q \<longrightarrow> sub2 R q' \<longrightarrow> sub2 R (g2_add R q q')) \<and>
     (\<forall>q k. sub2 R q \<longrightarrow> sub2 R (g2_mul R q k)) \<and>
     (\<forall>q. sub2 R q \<longrightarrow> g2_mul R q 0 = g2_infty R) \<and>
     (\<forall>q a b. sub2 R q \<longrightarrow> g2_mul R q (a + b) = g2_add R (g2_mul R q a) (g2_mul R q b)) \<and>
     (\<forall>msg dst. sub2 R (ep2_map_dst R msg dst))"

text \<open>The pairing is bilinear, distinguishes the points of the second subgroup at the generator of
  the first, and \<open>pc_map_sim\<close> multiplies the pairings of a batch.\<close>

definition gt_prod :: "('g1, 'g2, 'gt) relic \<Rightarrow> ('g1 \<times> 'g2) list \<Rightarrow> 'gt" where
  "gt_prod R ps = foldr (\<lambda>(p, q). gt_mul R (pp_map R p q)) ps (gt_unity R)"

definition pairing_laws :: "('g1, 'g2, 'gt) relic \<Rightarrow> bool" where
  "pairing_laws R \<longleftrightarrow>
     (\<forall>x y z. gt_mul R (gt_mul R x y) z = gt_mul R x (gt_mul R y z)) \<and>
     (\<forall>x y. gt_mul R x y = gt_mul R y x) \<and>
     (\<forall>x. gt_mul R (gt_unity R) x = x) \<and>
     (\<forall>ps. (\<forall>(p, q) \<in> set ps. sub1 R p \<and> sub2 R q) \<longrightarrow> pc_map_sim R ps = (gt_prod R ps, False)) \<and>
     (\<forall>p q q'. sub1 R p \<longrightarrow> sub2 R q \<longrightarrow> sub2 R q' \<longrightarrow>
        pp_map R p (g2_add R q q') = gt_mul R (pp_map R p q) (pp_map R p q')) \<and>
     (\<forall>p q. sub1 R p \<longrightarrow> sub2 R q \<longrightarrow> gt_mul R (pp_map R (g1_neg R p) q) (pp_map R p q) = gt_unity R) \<and>
     (\<forall>p q k. sub1 R p \<longrightarrow> sub2 R q \<longrightarrow> pp_map R (g1_mul R p k) q = pp_map R p (g2_mul R q k)) \<and>
     (\<forall>q q'. sub2 R q \<longrightarrow> sub2 R q' \<longrightarrow> pp_map R (g1_gen R) q = pp_map R (g1_gen R) q' \<longrightarrow> q = q')"

definition bls_laws :: "('g1, 'g2, 'gt) relic \<Rightarrow> bool" where
  "bls_laws R \<longleftrightarrow> group1_laws R \<and> group2_laws R \<and> pairing_laws R"

text \<open>The compressed form of a finite point is a tag and its coordinates, which leave the top three
  bits of each leading byte free; that of infinity starts with zero.\<close>

definition g1_codec_laws :: "('g1, 'g2, 'gt) relic \<Rightarrow> bool" where
  "g1_codec_laws R \<longleftrightarrow>
     (\<forall>p. sub1 R p \<longrightarrow> length (g1_write_bin R p) = 49 \<and>
        (if p = g1_infty R then g1_write_bin R p ! 0 = 0
         else (g1_write_bin R p ! 0 = 2 \<or> g1_write_bin R p ! 0 = 3) \<and> g1_write_bin R p ! 1 AND 0xe0 = 0 \<and>
              g1_read_bin R (g1_write_bin R p) = (p, False)))"

definition g2_codec_laws :: "('g1, 'g2, 'gt) relic \<Rightarrow> bool" where
  "g2_codec_laws R \<longleftrightarrow>
     (\<forall>q. sub2 R q \<longrightarrow> length (g2_write_bin R q) = 97 \<and>
        (if q = g2_infty R then g2_write_bin R q ! 0 = 0
         else (g2_write_bin R q ! 0 = 2 \<or> g2_write_bin R q ! 0 = 3) \<and> g2_write_bin R q ! 1 AND 0xe0 = 0 \<and>
              g2_write_bin R q ! 49 AND 0xe0 = 0 \<and> g2_read_bin R (g2_write_bin R q) = (q, False)))"

definition hash_laws :: "('g1, 'g2, 'gt) relic \<Rightarrow> bool" where
  "hash_laws R \<longleftrightarrow>
     (\<forall>msg key. length (md_hmac R msg key) = 32) \<and> (\<forall>msg. length (md_map_sh256 R msg) = 32) \<and>
     (\<forall>n v. length (bn_write_bin R n v) = n) \<and>
     (\<forall>v. v < g_ord R \<longrightarrow> bn_read_bin R (bn_write_bin R 32 v) = v) \<and> 0 < g_ord R"

lemma group1_simps:
  assumes "group1_laws R"
  shows "sub1 R (g1_infty R)" "sub1 R (g1_gen R)" "0 < g_ord R"
    and "sub1 R p \<Longrightarrow> sub1 R (g1_neg R p)"
    and "sub1 R p \<Longrightarrow> sub1 R p' \<Longrightarrow> sub1 R (g1_add R p p')"
    and "sub1 R p \<Longrightarrow> sub1 R (g1_mul R p k)"
    and "sub1 R p \<Longrightarrow> g1_mul R p (a + b) = g1_add R (g1_mul R p a) (g1_mul R p b)"
    and "sub1 R p \<Longrightarrow> g1_mul R p (k mod g_ord R) = g1_mul R p k"
  using assms unfolding group1_laws_def by simp_all

lemma group2_simps:
  assumes "group2_laws R"
  shows "sub2 R (g2_infty R)" "sub2 R (g2_gen R)"
    and "sub2 R q \<Longrightarrow> sub2 R q' \<Longrightarrow> sub2 R (g2_add R q q')"
    and "sub2 R q \<Longrightarrow> sub2 R (g2_mul R q k)"
    and "sub2 R q \<Longrightarrow> g2_mul R q (a + b) = g2_add R (g2_mul R q a) (g2_mul R q b)"
    and "sub2 R (ep2_map_dst R msg dst)"
    and "sub2 R q \<Longrightarrow> g2_mul R q 0 = g2_infty R"
  using assms unfolding group2_laws_def by simp_all

lemma pairing_simps:
  assumes "pairing_laws R"
  shows "gt_mul R (gt_mul R x y) z = gt_mul R x (gt_mul R y z)"
    and "gt_mul R x y = gt_mul R y x"
    and "gt_mul R (gt_unity R) x = x" "gt_mul R x (gt_unity R) = x"
    and "(\<And>p q. (p, q) \<in> set ps \<Longrightarrow> sub1 R p \<and> sub2 R q) \<Longrightarrow> pc_map_sim R ps = (gt_prod R ps, False)"
    and "sub1 R p \<Longrightarrow> sub2 R q \<Longrightarrow> sub2 R q' \<Longrightarrow>
      pp_map R p (g2_add R q q') = gt_mul R (pp_map R p q) (pp_map R p q')"
    and "sub1 R p \<Longrightarrow> sub2 R q \<Longrightarrow> gt_mul R (pp_map R (g1_neg R p) q) (pp_map R p q) = gt_unity R"
    and "sub1 R p \<Longrightarrow> sub2 R q \<Longrightarrow> pp_map R (g1_mul R p k) q = pp_map R p (g2_mul R q k)"
    and "sub2 R q \<Longrightarrow> sub2 R q' \<Longrightarrow> pp_map R (g1_gen R) q = pp_map R (g1_gen R) q' \<longleftrightarrow> q = q'"
proof -
  show "gt_mul R x (gt_unity R) = x" using assms unfolding pairing_laws_def by metis
  show "pc_map_sim R ps = (gt_prod R ps, False)"
    if "\<And>p q. (p, q) \<in> set ps \<Longrightarrow> sub1 R p \<and> sub2 R q"
    using assms that unfolding pairing_laws_def by blast
qed (use assms in \<open>unfold pairing_laws_def, blast+\<close>)

lemma bls_lawsD:
  assumes "bls_laws R"
  shows "group1_laws R" "group2_laws R" "pairing_laws R"
  using assms by (simp_all add: bls_laws_def)

lemmas bls1 = group1_simps [OF bls_lawsD(1)]
lemmas bls2 = group2_simps [OF bls_lawsD(2)]
lemmas blsp = pairing_simps [OF bls_lawsD(3)]

section \<open>Checked operations succeed\<close>

lemma g1_from_native_ok: "sub1 R p \<Longrightarrow> g1_from_native R p = Inr p"
  by (simp add: g1_from_native_def g1_check_valid_def sub1_def)

lemma g2_from_native_ok: "sub2 R q \<Longrightarrow> g2_from_native R q = Inr q"
  by (simp add: g2_from_native_def g2_check_valid_def sub2_def)

lemma g1_check_ok: "g1_check_valid R False p = g1_from_native R p"
  by (simp add: g1_from_native_def)

lemma keys_ok:
  assumes "bls_laws R"
  shows "GetG1Element R k = Inr (g1_mul R (g1_gen R) k)"
    and "g1_generator R = Inr (g1_gen R)"
    and "neg_generator R = Inr (g1_neg R (g1_gen R))"
    and "g2_from_message R msg dst = Inr (ep2_map_dst R msg dst)"
    and "SignG2 R k msg dst = Inr (g2_mul R (ep2_map_dst R msg dst) k)"
    and "sub2 R q \<Longrightarrow> GetG2Power R k q = Inr (g2_mul R q k)"
  using assms
  by (simp_all add: GetG1Element_def g1_generator_def neg_generator_def g1_negate_def g1_check_ok
      g2_from_message_def SignG2_def GetG2Power_def g1_from_native_ok g2_from_native_ok bls1 bls2)

section \<open>Batches of pairings\<close>

lemma gt_prod_simps [simp]:
  "gt_prod R [] = gt_unity R"
  "gt_prod R ((p, q) # ps) = gt_mul R (pp_map R p q) (gt_prod R ps)"
  by (simp_all add: gt_prod_def)

lemma gt_prod_append:
  assumes "pairing_laws R"
  shows "gt_prod R (ps @ qs) = gt_mul R (gt_prod R ps) (gt_prod R qs)"
  by (induction ps) (auto simp: pairing_simps(1,3) [OF assms])

lemma native_loop_prod:
  assumes "pairing_laws R"
  shows "(\<And>p q. (p, q) \<in> set ps \<Longrightarrow> sub1 R p \<and> sub2 R q) \<Longrightarrow>
    native_loop R ps c False = (gt_mul R c (gt_prod R ps), False)"
proof (induction "length ps" arbitrary: ps c rule: less_induct)
  case less
  show ?case
  proof (cases ps)
    case Nil
    then show ?thesis by (simp add: pairing_simps(4) [OF assms])
  next
    case (Cons x xs)
    have "pc_map_sim R (take 250 ps) = (gt_prod R (take 250 ps), False)"
      using less.prems by (intro pairing_simps(5) [OF assms]) (meson in_set_takeD)
    moreover have "native_loop R (drop 250 ps) d False = (gt_mul R d (gt_prod R (drop 250 ps)), False)" for d
      using less.prems Cons by (intro less.hyps) (simp, meson in_set_dropD)
    moreover have "gt_prod R ps = gt_mul R (gt_prod R (take 250 ps)) (gt_prod R (drop 250 ps))"
      by (simp flip: gt_prod_append [OF assms])
    ultimately show ?thesis using Cons by (simp add: pairing_simps(1) [OF assms])
  qed
qed

lemma NativeVerify_iff:
  assumes "pairing_laws R" and "\<And>p q. (p, q) \<in> set ps \<Longrightarrow> sub1 R p \<and> sub2 R q"
  shows "NativeVerify R ps \<longleftrightarrow> gt_prod R ps = gt_unity R"
  using native_loop_prod [OF assms] by (auto simp: NativeVerify_def pairing_simps(3) [OF assms(1)])

lemma foldl_add_sub2:
  assumes "bls_laws R" "sub2 R s" "\<And>q. q \<in> set ss \<Longrightarrow> sub2 R q"
  shows "sub2 R (foldl (g2_add R) s ss)"
  using assms(2,3) by (induction ss arbitrary: s) (simp_all add: bls2 [OF assms(1)])

lemma pp_map_foldl:
  assumes "bls_laws R" "sub2 R s" "\<And>q. q \<in> set ss \<Longrightarrow> sub2 R q"
  shows "pp_map R (g1_gen R) (foldl (g2_add R) s ss) = gt_prod R (map (Pair (g1_gen R)) (s # ss))"
  using assms(2,3)
proof (induction ss arbitrary: s)
  case Nil
  then show ?case by (simp add: blsp [OF assms(1)])
next
  case (Cons q ss)
  then show ?case by (simp add: bls1 [OF assms(1)] bls2 [OF assms(1)] blsp(1,6) [OF assms(1)])
qed

lemma gt_prod_keys:
  assumes "bls_laws R" "\<And>h. h \<in> set hs \<Longrightarrow> sub2 R h"
  shows "gt_prod R (zip (map (g1_mul R (g1_gen R)) ks) hs) =
    gt_prod R (map (Pair (g1_gen R)) (map2 (\<lambda>k h. g2_mul R h k) ks hs))"
  using assms(2)
proof (induction ks arbitrary: hs)
  case (Cons k ks)
  then show ?case by (cases hs) (simp_all add: bls1 [OF assms(1)] blsp(8) [OF assms(1)])
qed simp

text \<open>\<open>e(-g, s) \<cdot> x = 1\<close> holds of no other \<open>x\<close> than \<open>e(g, s)\<close>.\<close>

lemma neg_pairing_iff:
  assumes "bls_laws R" "sub2 R s"
  shows "gt_mul R (pp_map R (g1_neg R (g1_gen R)) s) x = gt_unity R \<longleftrightarrow> x = pp_map R (g1_gen R) s"
proof
  assume "gt_mul R (pp_map R (g1_neg R (g1_gen R)) s) x = gt_unity R"
  then show "x = pp_map R (g1_gen R) s"
    using blsp(1-4,7) [OF assms(1)] bls1(2) [OF assms(1)] assms(2) by metis
qed (simp add: blsp(7) [OF assms(1)] bls1 [OF assms(1)] assms(2))

lemma NativeVerify_sum:
  assumes "bls_laws R" "sub2 R s" "length ks = length hs" "hs \<noteq> []" "\<And>h. h \<in> set hs \<Longrightarrow> sub2 R h"
  shows "NativeVerify R ((g1_neg R (g1_gen R), s) # zip (map (g1_mul R (g1_gen R)) ks) hs) \<longleftrightarrow>
    Aggregate R (map2 (\<lambda>k h. g2_mul R h k) ks hs) = Inr s"
proof -
  let ?qs = "map2 (\<lambda>k h. g2_mul R h k) ks hs"
  obtain q qs where qs: "?qs = q # qs" using assms(3,4) by (cases ks; cases hs) auto
  have sub: "sub2 R x" if "x \<in> set ?qs" for x
    using that assms(5) by (auto dest: set_zip_rightD simp: bls2 [OF assms(1)])
  have keyed: "sub1 R p \<and> sub2 R x" if "(p, x) \<in> set (zip (map (g1_mul R (g1_gen R)) ks) hs)" for p x
    using set_zip_leftD [OF that] set_zip_rightD [OF that] assms(5) by (auto simp: bls1 [OF assms(1)])
  have fold: "sub2 R (foldl (g2_add R) q qs)" using sub qs by (intro foldl_add_sub2 [OF assms(1)]) simp_all
  have "NativeVerify R ((g1_neg R (g1_gen R), s) # zip (map (g1_mul R (g1_gen R)) ks) hs) \<longleftrightarrow>
      gt_prod R (map (Pair (g1_gen R)) ?qs) = pp_map R (g1_gen R) s"
    using assms keyed
    by (subst NativeVerify_iff) (auto simp: bls_lawsD bls1 gt_prod_keys neg_pairing_iff)
  also have "\<dots> \<longleftrightarrow> pp_map R (g1_gen R) (foldl (g2_add R) q qs) = pp_map R (g1_gen R) s"
    using sub qs by (subst pp_map_foldl [OF assms(1)]) simp_all
  also have "\<dots> \<longleftrightarrow> Aggregate R ?qs = Inr s"
    using fold qs assms(2) by (simp add: Aggregate_def g2_from_native_ok blsp(9) [OF assms(1)])
  finally show ?thesis .
qed

section \<open>The contract of a signature scheme\<close>

locale mpl_scheme =
  fixes laws :: bool
    and elem :: "'s \<Rightarrow> bool"
    and pubkey :: "PrivateKey \<Rightarrow> 'p res"
    and sign :: "PrivateKey \<Rightarrow> bytes \<Rightarrow> 's res"
    and verify :: "'p \<Rightarrow> bytes \<Rightarrow> 's \<Rightarrow> bool res"
  assumes pubkey_ok: "laws \<Longrightarrow> \<exists>p. pubkey k = Inr p"
    and sign_ok: "laws \<Longrightarrow> \<exists>s. sign k m = Inr s \<and> elem s"
    and verify_exact: "laws \<Longrightarrow> pubkey k = Inr p \<Longrightarrow> elem s \<Longrightarrow> verify p m s = Inr (sign k m = Inr s)"
begin

lemma signed_verifies:
  assumes laws
  shows "\<exists>p s. pubkey k = Inr p \<and> sign k m = Inr s \<and> elem s \<and> verify p m s = Inr True"
  using pubkey_ok [OF assms, of k] sign_ok [OF assms, of k m] verify_exact [OF assms] by fastforce

lemma signature_unique:
  assumes laws "pubkey k = Inr p" "elem s" "elem s'" "verify p m s = Inr True" "verify p m s' = Inr True"
  shows "s = s'"
  using verify_exact [OF assms(1,2,3)] verify_exact [OF assms(1,2,4)] assms(5,6) by fastforce

lemma equal_pubkeys_sign_equally:
  assumes laws "pubkey k = pubkey k'"
  shows "sign k m = sign k' m"
proof -
  obtain p s where "pubkey k = Inr p" "sign k m = Inr s" "elem s" "verify p m s = Inr True"
    using signed_verifies [OF assms(1)] by blast
  then show ?thesis using verify_exact [OF assms(1), of k' p s m] assms(2) by simp
qed

end

lemma Core_Verify_exact:
  assumes "bls_laws R" "sub2 R s"
  shows "Core_Verify R (g1_mul R (g1_gen R) k) msg s dst = Inr (g2_mul R (ep2_map_dst R msg dst) k = s)"
  using NativeVerify_sum [OF assms, of "[k]" "[ep2_map_dst R msg dst]"] assms
  by (simp add: Core_Verify_def keys_ok bls2 Aggregate_def g2_from_native_ok)

lemmas sign_defs = Basic_Sign_def Aug_Sign_def Pop_Sign_def Core_Sign_def PopProve_def
lemmas verify_defs = Basic_Verify_def Aug_Verify_def Pop_Verify_def

lemma PopVerify_Core: "PopVerify R p s = Core_Verify R p (g1_serialize R p) s POP_CIPHERSUITE_ID"
  by (simp add: PopVerify_def Core_Verify_def)

interpretation basic: mpl_scheme "bls_laws R" "sub2 R" "GetG1Element R" "Basic_Sign R" "Basic_Verify R"
  for R :: "('g1, 'g2, 'gt) relic"
  by unfold_locales (auto simp: sign_defs verify_defs keys_ok bls2 Core_Verify_exact)

interpretation aug: mpl_scheme "bls_laws R" "sub2 R" "GetG1Element R" "Aug_Sign R" "Aug_Verify R"
  for R :: "('g1, 'g2, 'gt) relic"
  by unfold_locales (auto simp: sign_defs verify_defs keys_ok bls2 Core_Verify_exact)

interpretation pop: mpl_scheme "bls_laws R" "sub2 R" "GetG1Element R" "Pop_Sign R" "Pop_Verify R"
  for R :: "('g1, 'g2, 'gt) relic"
  by unfold_locales (auto simp: sign_defs verify_defs keys_ok bls2 Core_Verify_exact)

interpretation possession: mpl_scheme "bls_laws R" "sub2 R" "GetG1Element R" "\<lambda>k _. PopProve R k"
  "\<lambda>p _. PopVerify R p" for R :: "('g1, 'g2, 'gt) relic"
  by unfold_locales (auto simp: sign_defs PopVerify_Core keys_ok bls2 Core_Verify_exact)

section \<open>Aggregates of one message\<close>

lemma foldl_mul2:
  assumes "bls_laws R" "sub2 R q"
  shows "foldl (g2_add R) (g2_mul R q a) (map (g2_mul R q) ks) = g2_mul R q (a + sum_list ks)"
  by (induction ks arbitrary: a) (simp_all add: add.assoc flip: bls2(5) [OF assms])

lemma foldl_mul1:
  assumes "bls_laws R" "sub1 R p"
  shows "foldl (g1_add R) (g1_mul R p a) (map (g1_mul R p) ks) = g1_mul R p (a + sum_list ks)"
  by (induction ks arbitrary: a) (simp_all add: add.assoc flip: bls1(7) [OF assms])

lemma Aggregate_multiples:
  assumes "bls_laws R" "sub2 R q"
  shows "Aggregate R (map (g2_mul R q) ks) = Inr (g2_mul R q (sum_list ks))"
  using assms by (cases ks) (simp_all add: Aggregate_def foldl_mul2 g2_from_native_ok bls2)

lemma Aggregate_keys_multiples:
  assumes "bls_laws R" "ks \<noteq> []"
  shows "Aggregate_keys R (map (g1_mul R (g1_gen R)) ks) = Inr (g1_mul R (g1_gen R) (sum_list ks))"
  using assms by (cases ks) (simp_all add: Aggregate_keys_def foldl_mul1 g1_from_native_ok bls1)

lemma FastAggregateVerify_exact:
  assumes "bls_laws R" "sub2 R s" "ks \<noteq> []"
  shows "FastAggregateVerify R (map (g1_mul R (g1_gen R)) ks) msg s =
    Inr (g2_mul R (ep2_map_dst R msg POPSCHEME_CIPHERSUITE_ID) (sum_list ks) = s)"
  using assms by (simp add: FastAggregateVerify_def Aggregate_keys_multiples Core_Verify_exact)

section \<open>Lists of results\<close>

lemma map_res_Inr: "(\<And>x. x \<in> set xs \<Longrightarrow> f x = Inr (g x)) \<Longrightarrow> map_res f xs = Inr (map g xs)"
  by (induction xs) simp_all

lemma Core_AggregateVerify_exact:
  assumes "bls_laws R" "sub2 R s" "length ks = length msgs" "msgs \<noteq> []"
  shows "Core_AggregateVerify R (map (g1_mul R (g1_gen R)) ks) msgs s dst =
    Inr (Aggregate R (map2 (\<lambda>k msg. g2_mul R (ep2_map_dst R msg dst) k) ks msgs) = Inr s)"
proof -
  let ?hs = "map (\<lambda>msg. ep2_map_dst R msg dst) msgs"
  have "map_res (\<lambda>msg. g2_from_message R msg dst) msgs = Inr ?hs"
    by (rule map_res_Inr) (simp add: keys_ok [OF assms(1)])
  moreover have "map2 (\<lambda>k h. g2_mul R h k) ks ?hs = map2 (\<lambda>k msg. g2_mul R (ep2_map_dst R msg dst) k) ks msgs"
    by (simp add: zip_map2 case_prod_unfold)
  moreover have "sub2 R h" if "h \<in> set ?hs" for h using that by (auto simp: bls2(6) [OF assms(1)])
  ultimately show ?thesis
    using NativeVerify_sum [OF assms(1,2), of ks ?hs] assms(3,4)
    by (simp add: Core_AggregateVerify_def keys_ok(3) [OF assms(1)])
qed

section \<open>Encodings\<close>

lemma byte_mask:
  fixes b :: u8
  assumes "b AND 0xe0 = 0"
  shows "b AND 0xc0 = 0" "b AND 0x20 = 0" "b AND 0x1f = b"
proof -
  have "b AND 0xc0 = (b AND 0xe0) AND 0xc0" by (simp add: and.assoc)
  then show "b AND 0xc0 = 0" using assms by simp
  have "b AND 0x20 = (b AND 0xe0) AND 0x20" by (simp add: and.assoc)
  then show "b AND 0x20 = 0" using assms by simp
  have "(0xff :: u8) = -1" by simp
  then have "b = b AND 0xff" by (simp only: and.right_neutral)
  then have "b = (b AND 0xe0) OR (b AND 0x1f)" by (simp flip: bit.conj_disj_distrib)
  then show "b AND 0x1f = b" using assms by simp
qed

lemma byte_tagged:
  fixes b :: u8
  assumes "b AND 0xe0 = 0"
  shows "(b OR 0x80) AND 0xc0 = 0x80" "(b OR 0x80) AND 0x20 = 0" "(b OR 0x80) AND 0x1f = b"
    and "(b OR 0xa0) AND 0xc0 = 0x80" "(b OR 0xa0) AND 0x20 \<noteq> 0" "(b OR 0xa0) AND 0x1f = b"
    and "(b OR 0x20) OR 0x80 = b OR 0xa0"
  using byte_mask [OF assms] by (simp_all add: bit.conj_disj_distrib2 or.assoc)

lemma g1_roundtrip:
  assumes "g1_codec_laws R" "sub1 R p"
  shows "g1_from_bytes R (g1_serialize R p) = Inr p"
proof (cases "p = g1_infty R")
  case True
  then have "g1_write_bin R p ! 0 = 0" using assms by (auto simp: g1_codec_laws_def)
  then show ?thesis using True
    by (simp add: g1_serialize_def g1_from_bytes_def G1_SIZE_def list_all_iff)
next
  case False
  then have len: "length (g1_write_bin R p) = 49" and tag: "g1_write_bin R p ! 0 = 2 \<or> g1_write_bin R p ! 0 = 3"
    and top: "g1_write_bin R p ! 1 AND 0xe0 = 0" and rd: "g1_read_bin R (g1_write_bin R p) = (p, False)"
    using assms by (auto simp: g1_codec_laws_def)
  obtain t b r where w: "g1_write_bin R p = t # b # r" "length r = 47"
    using len by (auto simp: length_Suc_conv eval_nat_numeral)
  have "g1_check_valid R False p = Inr p" using assms(2) by (simp add: g1_check_ok g1_from_native_ok)
  then show ?thesis using tag top rd w byte_tagged [of b]
    by (auto simp: g1_serialize_def g1_from_bytes_def G1_SIZE_def Let_def)
qed

lemma g2_roundtrip:
  assumes "g2_codec_laws R" "sub2 R q"
  shows "g2_from_bytes R (g2_serialize R q) = Inr q"
proof (cases "q = g2_infty R")
  case True
  then have "g2_write_bin R q ! 0 = 0" using assms by (auto simp: g2_codec_laws_def)
  then show ?thesis using True
    by (simp add: g2_serialize_def g2_from_bytes_def G2_SIZE_def list_all_iff)
next
  case False
  let ?w = "g2_write_bin R q"
  have len: "length ?w = 97" and tag: "?w ! 0 = 2 \<or> ?w ! 0 = 3" and top: "?w ! 1 AND 0xe0 = 0" "?w ! 49 AND 0xe0 = 0"
    and rd: "g2_read_bin R ?w = (q, False)"
    using assms False by (auto simp: g2_codec_laws_def)
  obtain t b r where w: "?w = t # b # r" "length r = 95"
    using len by (auto simp: length_Suc_conv eval_nat_numeral)
  obtain l c h where r: "r = l @ c # h" "length l = 47" "length h = 47"
    using w(2) id_take_nth_drop [of 47 r] by force
  have "g2_check_valid R False q = Inr q" using assms(2) by (simp add: g2_check_valid_def sub2_def)
  then show ?thesis using tag top rd w r byte_tagged [of c] byte_mask [of b] byte_mask [of c]
    by (auto simp: g2_serialize_def g2_from_bytes_def G2_SIZE_def Let_def nth_append)
qed

section \<open>Key derivation\<close>

lemma expand_rounds_length:
  assumes "hash_laws R" "L \<le> length okm + 32 * n" "n = 0 \<longrightarrow> length okm = L" "0 < n \<longrightarrow> length okm + 32 * (n - 1) < L"
  shows "\<exists>out. expand_rounds R L prk info i n T okm = Inr out \<and> length out = L"
  using assms(2-)
proof (induction n arbitrary: i T okm)
  case (Suc n)
  define T' where "T' = md_hmac R ((if i = 1 then info else T @ info) @ [of_nat i]) prk"
  let ?w = "min 32 (L - length okm)"
  have "length T' = 32" using assms(1) by (simp add: T'_def hash_laws_def)
  then have len: "length (okm @ take ?w T') = length okm + ?w" by simp
  have "0 < ?w" using Suc.prems by auto
  moreover have "\<exists>out. expand_rounds R L prk info (Suc i) n T' (okm @ take ?w T') = Inr out \<and> length out = L"
    using Suc.prems by (intro Suc.IH; unfold len; cases n) auto
  ultimately show ?case by (simp add: T'_def Let_def)
qed simp

lemma hkdf_expand_length:
  assumes "hash_laws R" "0 < L" "L \<le> 255 * 32"
  shows "\<exists>okm. hkdf_expand R L prk info = Inr okm \<and> length okm = L"
proof -
  have "\<exists>okm. expand_rounds R L prk info 1 ((L + 31) div 32) [] [] = Inr okm \<and> length okm = L"
    using assms by (intro expand_rounds_length) auto
  moreover have "1 \<le> (L + 31) div 32" "(L + 31) div 32 \<le> 255" using assms(2,3) by auto
  ultimately show ?thesis using assms(3) by (auto simp: hkdf_expand_def)
qed

lemma KeyGen_ok:
  assumes "hash_laws R" "32 \<le> length seed"
  shows "\<exists>k. KeyGen R seed = Inr k \<and> k < g_ord R"
proof -
  obtain okm where "hkdf_extract_expand R 48 (seed @ [0]) keygen_salt [0, 48] = Inr okm"
    using hkdf_expand_length [OF assms(1), of 48] by (auto simp: hkdf_extract_expand_def)
  moreover have "length (bn_write_bin R 32 v) = 32" "v < g_ord R \<Longrightarrow> bn_read_bin R (bn_write_bin R 32 v) = v" for v
    using assms(1) by (simp_all add: hash_laws_def)
  moreover have "v mod g_ord R < g_ord R" for v using assms(1) by (simp add: hash_laws_def)
  ultimately show ?thesis using assms(2) by (simp add: KeyGen_def priv_from_bytes_def Let_def not_less less_imp_le)
qed

end
