(* ===== verification/Hs_Bls_Props.thy ===== *)
theory Hs_Bls_Props
  imports Hs_Bls_Laws Hs_Sample
begin

unbundle bit_operations_syntax

text \<open>
  The properties of the signature library: the schemes accept exactly the signatures they make, one
  signature at a time and in aggregates, elements survive their encoding, child keys agree on both
  sides, and key generation returns. The instance \<open>sample_relic\<close>, the integers modulo 256
  with multiplication as pairing, satisfies every law.
\<close>

section \<open>An instance of relic\<close>

definition sample_write :: "nat \<Rightarrow> u8 \<Rightarrow> bytes" where
  "sample_write n p = (if p = 0 then replicate n 0 else 2 # replicate (n - 2) 0 @ [p])"

definition sample_relic :: "(u8, u8, u8) relic" where
  "sample_relic = \<lparr>g1_infty = 0, g1_gen = 1, g1_add = (+), g1_neg = uminus, g1_mul = \<lambda>p k. of_nat k * p,
     g1_is_valid = \<lambda>_. True, g1_write_bin = sample_write 49, g1_read_bin = \<lambda>bs. (last bs, False),
     ep_map_dst = \<lambda>msg dst. of_nat (length msg + length dst),
     g2_infty = 0, g2_gen = 1, g2_add = (+), g2_neg = uminus, g2_mul = \<lambda>q k. of_nat k * q,
     g2_is_valid = \<lambda>_. True, g2_write_bin = sample_write 97, g2_read_bin = \<lambda>bs. (last bs, False),
     ep2_map_dst = \<lambda>msg dst. of_nat (length msg + length dst),
     gt_unity = 0, gt_mul = (+), pp_map = (*), pc_map_sim = \<lambda>ps. (sum_list (map (\<lambda>(p, q). p * q) ps), False),
     gt_is_valid = \<lambda>_. True, gt_write_bin = \<lambda>r. [r], gt_read_bin = \<lambda>bs. (hd bs, False), g_ord = 256,
     bn_read_bin = \<lambda>bs. case sample_get (length bs) (rev bs) of None \<Rightarrow> 0 | Some (v, _) \<Rightarrow> v,
     bn_write_bin = \<lambda>n v. rev (sample_put n v),
     md_hmac = \<lambda>msg key. replicate 32 (of_nat (length msg)), md_map_sh256 = \<lambda>msg. replicate 32 (of_nat (length msg))\<rparr>"

lemma of_nat_mod_256: "of_nat (k mod 256) = (of_nat k :: u8)"
  by (simp add: word_of_nat_eq_iff take_bit_eq_mod)

lemma zero_256: "(256 :: u8) = 0"
  using of_nat_mod_256 [of 256] by simp

lemma sample_sub [simp]: "sub1 sample_relic p" "sub2 sample_relic q"
  by (simp_all add: sub1_def sub2_def sample_relic_def zero_256)

lemma sample_gt_prod: "gt_prod sample_relic ps = sum_list (map (\<lambda>(p, q). p * q) ps)"
  by (induction ps) (auto simp: sample_relic_def)

lemma sample_bls_laws [simp]: "bls_laws sample_relic"
proof -
  have "group1_laws sample_relic" "group2_laws sample_relic"
    by (simp_all add: group1_laws_def group2_laws_def)
       (simp_all add: sample_relic_def algebra_simps of_nat_mod_256)
  moreover have "pairing_laws sample_relic"
    unfolding pairing_laws_def sample_gt_prod by (auto simp: sample_relic_def algebra_simps)
  ultimately show ?thesis by (simp add: bls_laws_def)
qed

lemma sample_codec_laws [simp]: "g1_codec_laws sample_relic" "g2_codec_laws sample_relic" "hash_laws sample_relic"
proof -
  show "g1_codec_laws sample_relic" "g2_codec_laws sample_relic"
    by (simp_all add: g1_codec_laws_def g2_codec_laws_def)
       (simp_all add: sample_relic_def sample_write_def nth_append)
  have "sample_get n (sample_put n v) = Some (v, [])" if "v < 256 ^ n" for v n
    using sample_get_put [OF that, of "[]"] by simp
  then show "hash_laws sample_relic"
    by (simp add: hash_laws_def sample_relic_def length_sample_put)
qed

section \<open>Properties\<close>

text \<open>C29: the basic, the augmented and the proof-of-possession scheme, and the proof of possession
  itself: \<open>Sign\<close> returns a signature, and \<open>Verify\<close> with the public key of \<open>sk\<close> accepts
  exactly that signature among all elements of the group, whatever the message.\<close>

theorem schemes_accept_own_signatures:
  assumes "bls_laws R" "sub2 R s"
  shows "\<exists>pk. GetG1Element R sk = Inr pk \<and>
    Basic_Verify R pk msg s = Inr (Basic_Sign R sk msg = Inr s) \<and>
    Aug_Verify R pk msg s = Inr (Aug_Sign R sk msg = Inr s) \<and>
    Pop_Verify R pk msg s = Inr (Pop_Sign R sk msg = Inr s) \<and>
    PopVerify R pk s = Inr (PopProve R sk = Inr s) \<and>
    (\<exists>b a p q. Basic_Sign R sk msg = Inr b \<and> Aug_Sign R sk msg = Inr a \<and> Pop_Sign R sk msg = Inr p \<and> PopProve R sk = Inr q)"
proof -
  obtain pk where pk: "GetG1Element R sk = Inr pk" using basic.pubkey_ok [OF assms(1)] by blast
  note exact = basic.verify_exact [OF assms(1) pk assms(2)] aug.verify_exact [OF assms(1) pk assms(2)]
    pop.verify_exact [OF assms(1) pk assms(2)] possession.verify_exact [OF assms(1) pk assms(2)]
  note signs = basic.sign_ok [OF assms(1), of sk msg] aug.sign_ok [OF assms(1), of sk msg]
    pop.sign_ok [OF assms(1), of sk msg] possession.sign_ok [OF assms(1), of sk]
  show ?thesis by (rule exI [of _ pk]) (use pk exact signs in blast)
qed

theorem schemes_accept_own_signatures_witness:
  "\<exists>pk. GetG1Element sample_relic 5 = Inr pk \<and>
    Basic_Verify sample_relic pk [1, 2] 77 = Inr (Basic_Sign sample_relic 5 [1, 2] = Inr 77)"
  using schemes_accept_own_signatures [OF sample_bls_laws sample_sub(2), of 5 "[1, 2]" 77] by blast

text \<open>C30: an aggregate over any number of keys and messages, also beyond one batch of 250 pairings,
  is accepted by \<open>AggregateVerify\<close> exactly when it is what \<open>Aggregate\<close> makes of the single
  signatures; the basic scheme asks in addition that the messages are pairwise different.\<close>

theorem aggregates_accepted_exactly:
  assumes "bls_laws R" "sub2 R s" "length sks = length msgs" "msgs \<noteq> []"
    and "map_res (GetG1Element R) sks = Inr pks"
    and "map_res (\<lambda>(sk, msg). Pop_Sign R sk msg) (zip sks msgs) = Inr psigs"
    and "map_res (\<lambda>(sk, msg). Basic_Sign R sk msg) (zip sks msgs) = Inr bsigs"
  shows "Pop_AggregateVerify R pks msgs s = Inr (Aggregate R psigs = Inr s) \<and>
    Basic_AggregateVerify R pks msgs s = Inr (distinct msgs \<and> Aggregate R bsigs = Inr s)"
proof -
  have pks: "pks = map (g1_mul R (g1_gen R)) sks"
    using map_res_Inr [of sks "GetG1Element R" "g1_mul R (g1_gen R)"] assms(5) by (simp add: keys_ok [OF assms(1)])
  have signed: "map_res (\<lambda>(sk, msg). Core_Sign R sk msg dst) (zip sks msgs) =
      Inr (map2 (\<lambda>k msg. g2_mul R (ep2_map_dst R msg dst) k) sks msgs)" for dst
    by (rule map_res_Inr) (auto simp: Core_Sign_def keys_ok [OF assms(1)])
  have sigs: "psigs = map2 (\<lambda>k msg. g2_mul R (ep2_map_dst R msg POPSCHEME_CIPHERSUITE_ID) k) sks msgs"
      "bsigs = map2 (\<lambda>k msg. g2_mul R (ep2_map_dst R msg BASIC_CIPHERSUITE_ID) k) sks msgs"
    using assms(6,7) signed unfolding Pop_Sign_def Basic_Sign_def by simp_all
  show ?thesis
    using Core_AggregateVerify_exact [OF assms(1-4)] assms(4) card_distinct [of msgs] distinct_card [of msgs]
    by (auto simp: Pop_AggregateVerify_def Basic_AggregateVerify_def pks sigs)
qed

theorem aggregates_accepted_exactly_witness:
  "Pop_AggregateVerify sample_relic [3, 4] [[7], [8, 9]] 56 = Inr True \<and>
   Basic_AggregateVerify sample_relic [3, 4] [[7], [8, 9]] 56 = Inr True"
proof -
  have keys: "GetG1Element sample_relic k = Inr (of_nat k)" for k
    by (simp add: keys_ok) (simp add: sample_relic_def)
  have sign: "Pop_Sign sample_relic k msg = Inr (of_nat k * of_nat (length msg + 43))"
      "Basic_Sign sample_relic k msg = Inr (of_nat k * of_nat (length msg + 43))" for k msg
    by (simp_all add: Pop_Sign_def Basic_Sign_def Core_Sign_def keys_ok)
       (simp_all add: sample_relic_def POPSCHEME_CIPHERSUITE_ID_def BASIC_CIPHERSUITE_ID_def ascii_def)
  have "Aggregate sample_relic [132, 180] = Inr 56"
    by (simp add: Aggregate_def g2_from_native_ok) (simp add: sample_relic_def)
  then show ?thesis
    using aggregates_accepted_exactly [OF sample_bls_laws sample_sub(2), of "[3, 4]" "[[7], [8, 9]]"
        "[3, 4]" "[132, 180]" "[132, 180]" 56]
    by (simp add: keys sign)
qed

text \<open>What \<open>Serialize\<close> writes, \<open>FromBytes\<close> reads back, for every point of both groups
  including infinity.\<close>

theorem elements_roundtrip:
  assumes "g1_codec_laws R" "g2_codec_laws R" "sub1 R p" "sub2 R q"
  shows "g1_from_bytes R (g1_serialize R p) = Inr p \<and> g2_from_bytes R (g2_serialize R q) = Inr q"
  using g1_roundtrip [OF assms(1,3)] g2_roundtrip [OF assms(2,4)] by simp

theorem elements_roundtrip_witness:
  "g1_from_bytes sample_relic (g1_serialize sample_relic 9) = Inr 9 \<and>
   g2_from_bytes sample_relic (g2_serialize sample_relic 0) = Inr 0"
  using elements_roundtrip [OF sample_codec_laws(1,2) sample_sub, of 9 0] .

text \<open>Unhardened derivation commutes with taking the public key: the child of the private key
  exists, is below the group order, and its public key is the child of the public key.\<close>

theorem child_keys_agree:
  assumes "bls_laws R" "hash_laws R"
  shows "\<exists>child pk. DeriveChildSkUnhardened R sk index = Inr child \<and> child < g_ord R \<and>
    GetG1Element R sk = Inr pk \<and> GetG1Element R child = DeriveChildG1Unhardened R pk index"
proof -
  let ?pk = "g1_mul R (g1_gen R) sk"
  let ?d = "child_digest R (g1_serialize R ?pk) index"
  have d: "length ?d = 32" using assms(2) by (simp add: hash_laws_def child_digest_def)
  have gen: "sub1 R (g1_gen R)" by (rule bls1(2) [OF assms(1)])
  have "g1_mul R (g1_gen R) ((sk + bn_read_bin R ?d mod g_ord R) mod g_ord R) =
      g1_add R ?pk (g1_mul R (g1_gen R) (bn_read_bin R ?d mod g_ord R))"
    by (simp only: bls1(7,8) [OF assms(1) gen])
  then show ?thesis using d gen
    by (simp add: DeriveChildSkUnhardened_def DeriveChildG1Unhardened_def priv_from_bytes_def priv_aggregate_def
        keys_ok [OF assms(1)] g1_times_def g1_plus_def g1_from_native_ok bls1 [OF assms(1)] Let_def)
qed

theorem child_keys_agree_witness:
  "\<exists>child pk. DeriveChildSkUnhardened sample_relic 5 3 = Inr child \<and> child < g_ord sample_relic \<and>
    GetG1Element sample_relic 5 = Inr pk \<and> GetG1Element sample_relic child = DeriveChildG1Unhardened sample_relic pk 3"
  using child_keys_agree [OF sample_bls_laws sample_codec_laws(3), of 5 3] .

text \<open>\<open>KeyGen\<close> refuses a seed of fewer than 32 bytes and otherwise returns a key below the
  group order: the assertions of the key derivation hold, and hardened children always exist.\<close>

theorem key_generation_total:
  assumes "hash_laws R"
  shows "(if length seed < 32 then KeyGen R seed = Inl (InvalidArgument ''Seed size must be at least 32 bytes'')
      else \<exists>k. KeyGen R seed = Inr k \<and> k < g_ord R) \<and>
    (\<exists>k. DeriveChildSk R sk index = Inr k \<and> k < g_ord R)"
proof -
  have lam: "\<exists>l. IKMToLamportSk R ikm salt = Inr l" for ikm salt
    using hkdf_expand_length [OF assms, of "32 * 255"] by (fastforce simp: IKMToLamportSk_def hkdf_extract_expand_def)
  obtain l0 l1 where "IKMToLamportSk R (priv_serialize R sk) (IntToFourBytes index) = Inr l0"
      "IKMToLamportSk R (map (\<lambda>b. b XOR 0xff) (priv_serialize R sk)) (IntToFourBytes index) = Inr l1"
    using lam by meson
  then obtain pk where pk: "ParentSkToLamportPK R sk index = Inr (md_map_sh256 R pk)"
    by (simp add: ParentSkToLamportPK_def Let_def)
  moreover have "length (md_map_sh256 R pk) = 32" using assms by (simp add: hash_laws_def)
  ultimately have "\<exists>k. DeriveChildSk R sk index = Inr k \<and> k < g_ord R"
    using KeyGen_ok [OF assms, of "md_map_sh256 R pk"] by (simp add: DeriveChildSk_def)
  then show ?thesis using KeyGen_ok [OF assms, of seed] by (simp add: KeyGen_def)
qed

theorem key_generation_total_witness:
  "(\<exists>k. KeyGen sample_relic (replicate 32 1) = Inr k \<and> k < g_ord sample_relic) \<and>
   (\<exists>k. DeriveChildSk sample_relic 5 3 = Inr k \<and> k < g_ord sample_relic)"
  using key_generation_total [OF sample_codec_laws(3), of "replicate 32 1" 5 3] by simp

end
