(* ===== verification/Hs_Keys.thy ===== *)
theory Hs_Keys
  imports Hs_Bls_Props Hs_Certs
begin

text \<open>
  The key and signature classes of \<^verbatim>\<open>include/hotstuff/crypto.h\<close> over the
  signature library (\<open>PubKeyBLS\<close>, \<open>PrivKeyBLS\<close>, \<open>SigSecBLS\<close>, \<open>SigSecBLSAgg\<close>), the
  environment they give the certificates, and what follows for certificates that the tree collects.
  An object is its \<open>data\<close>; \<open>to_bytes\<close> stands for the conversion of a \<open>uint256_t\<close> to bytes,
  which is code of salticidae.
\<close>

section \<open>Keys\<close>

definition PubKeyBLS :: "('g1, 'g2, 'gt) relic \<Rightarrow> bytes \<Rightarrow> 'g1 res" where
  "PubKeyBLS R raw_bytes = g1_from_bytes R raw_bytes"

definition pubkey_serialize :: "('p, 'k, 's, 'b) env \<Rightarrow> ('g1, 'g2, 'gt) relic \<Rightarrow> 'g1 \<Rightarrow> bytes" where
  "pubkey_serialize E R pk = put_data E (g1_serialize R pk)"

definition pubkey_unserialize ::
  "('p, 'k, 's, 'b) env \<Rightarrow> ('g1, 'g2, 'gt) relic \<Rightarrow> bytes \<Rightarrow> ('g1 \<times> bytes) res" where
  "pubkey_unserialize E R s =
     (case get_data E G1_SIZE s of
        None \<Rightarrow> Inl (InvalidArgument ''ill-formed public key'')
      | Some (d, s') \<Rightarrow> bind (g1_from_bytes R d) (\<lambda>pk. Inr (pk, s')))"

definition PrivKeyBLS :: "('g1, 'g2, 'gt) relic \<Rightarrow> bytes \<Rightarrow> PrivateKey res" where
  "PrivKeyBLS R raw_bytes = priv_from_bytes R raw_bytes False"

definition privkey_serialize :: "('p, 'k, 's, 'b) env \<Rightarrow> ('g1, 'g2, 'gt) relic \<Rightarrow> PrivateKey \<Rightarrow> bytes" where
  "privkey_serialize E R k = put_data E (priv_serialize R k)"

definition privkey_unserialize ::
  "('p, 'k, 's, 'b) env \<Rightarrow> ('g1, 'g2, 'gt) relic \<Rightarrow> bytes \<Rightarrow> (PrivateKey \<times> bytes) res" where
  "privkey_unserialize E R s =
     (case get_data E 32 s of
        None \<Rightarrow> Inl (InvalidArgument ''ill-formed public key'')
      | Some (d, s') \<Rightarrow> bind (priv_from_bytes R d False) (\<lambda>k. Inr (k, s')))"

text \<open>The three numbers are what the calls of \<open>rand()\<close> return.\<close>

definition from_rand :: "('g1, 'g2, 'gt) relic \<Rightarrow> nat \<Rightarrow> nat \<Rightarrow> nat \<Rightarrow> PrivateKey res" where
  "from_rand R r1 r2 r3 = KeyGen R
     [0, 50, 6, of_nat (r1 mod 250), 24, 199, 1, 25, 52, 88, 192, 19, 18, 12, 89, 6, of_nat (r2 mod 250), 18, 102, 58,
      209, 82, 12, 62, 89, 110, 182, of_nat (r3 mod 250), 44, 20, 254, 22]"

definition privkey_get_pubkey :: "('g1, 'g2, 'gt) relic \<Rightarrow> PrivateKey \<Rightarrow> 'g1 res" where
  "privkey_get_pubkey R k = GetG1Element R k"

section \<open>Signatures\<close>

definition check_msg_length :: "bytes \<Rightarrow> unit res" where
  "check_msg_length msg = guard (length msg = 32) (InvalidArgument ''the message should be 32-bytes'')"

definition sig_bls_sign :: "('g1, 'g2, 'gt) relic \<Rightarrow> PrivateKey \<Rightarrow> bytes \<Rightarrow> 'g2 res" where
  "sig_bls_sign R sk msg = bind (check_msg_length msg) (\<lambda>_. Pop_Sign R sk msg)"

definition sig_bls_verify :: "('g1, 'g2, 'gt) relic \<Rightarrow> 'g1 \<Rightarrow> bytes \<Rightarrow> 'g2 \<Rightarrow> bool res" where
  "sig_bls_verify R pk msg s = bind (check_msg_length msg) (\<lambda>_. Pop_Verify R pk msg s)"

definition task_bls_verify :: "('g1, 'g2, 'gt) relic \<Rightarrow> (uint256 \<Rightarrow> bytes) \<Rightarrow> uint256 \<Rightarrow> 'g1 \<Rightarrow> 'g2 \<Rightarrow> bool res" where
  "task_bls_verify R to_bytes msg pk s = sig_bls_verify R pk (to_bytes msg) s"

definition task_agg_verify :: "('g1, 'g2, 'gt) relic \<Rightarrow> (uint256 \<Rightarrow> bytes) \<Rightarrow> uint256 \<Rightarrow> 'g1 list \<Rightarrow> 'g2 \<Rightarrow> bool res" where
  "task_agg_verify R to_bytes msg pubs s = FastAggregateVerify R pubs (to_bytes msg) s"

section \<open>The environment of the certificates\<close>

text \<open>The certificates take the signature operations as total functions. Over the laws of \<open>relic\<close>
  they never throw (lemma \<open>bls_env_ok\<close>), so the default is never used.\<close>

definition result_or :: "'a \<Rightarrow> 'a res \<Rightarrow> 'a" where
  "result_or d r = (case r of Inl _ \<Rightarrow> d | Inr x \<Rightarrow> x)"

definition bls_env ::
  "('g1, 'g2, 'gt) relic \<Rightarrow> (uint256 \<Rightarrow> bytes) \<Rightarrow> ('p, 'k, 's, 'b) env \<Rightarrow> (PrivateKey, 'g1, 'g2, 'b) env" where
  "bls_env R to_bytes E =
     \<lparr>bits_new = bits_new E, bits_size = bits_size E, bits_get = bits_get E, bits_set = bits_set E,
      u256_default = u256_default E, put_int = put_int E, get_int = get_int E, put_u256 = put_u256 E,
      get_u256 = get_u256 E, put_data = put_data E, get_data = get_data E, put_bits = put_bits E, get_bits = get_bits E,
      htole32 = htole32 E, letoh32 = letoh32 E, sha256 = sha256 E,
      sig_sign = \<lambda>sk h. result_or (g2_infty R) (sig_bls_sign R sk (to_bytes h)),
      sig_verify = \<lambda>pk h s. result_or False (task_bls_verify R to_bytes h pk s),
      sig_aggregate = \<lambda>ss. result_or (g2_infty R) (Aggregate R ss),
      sig_fast_verify = \<lambda>pubs h s. result_or False (task_agg_verify R to_bytes h pubs s),
      sig_size = G2_SIZE, sig_ser = g2_serialize R, sig_des = g2_from_bytes R\<rparr>"

lemma bls_env_frame [simp]:
  "bits_new (bls_env R tb E) = bits_new E" "bits_size (bls_env R tb E) = bits_size E"
  "bits_get (bls_env R tb E) = bits_get E" "bits_set (bls_env R tb E) = bits_set E"
  "get_int (bls_env R tb E) = get_int E" "put_int (bls_env R tb E) = put_int E"
  "get_u256 (bls_env R tb E) = get_u256 E" "put_u256 (bls_env R tb E) = put_u256 E"
  "get_bits (bls_env R tb E) = get_bits E" "put_bits (bls_env R tb E) = put_bits E"
  "get_data (bls_env R tb E) = get_data E" "put_data (bls_env R tb E) = put_data E"
  "htole32 (bls_env R tb E) = htole32 E" "letoh32 (bls_env R tb E) = letoh32 E"
  by (simp_all add: bls_env_def)

lemma bls_env_laws:
  "bits_laws (bls_env R tb E) = bits_laws E" "stream_laws (bls_env R tb E) = stream_laws E"
  by (simp_all only: bits_laws_def stream_laws_def bls_env_frame)

lemma g2_serialize_length:
  assumes "g2_codec_laws R" "sub2 R q"
  shows "length (g2_serialize R q) = 96"
  using assms by (auto simp: g2_codec_laws_def g2_serialize_def G2_SIZE_def Let_def)

lemma bls_env_codec:
  assumes "g2_codec_laws R" "\<And>q. sub2 R q"
  shows "sig_codec_laws (bls_env R tb E)"
  using assms by (simp add: sig_codec_laws_def bls_env_def g2_serialize_length g2_roundtrip G2_SIZE_def)

abbreviation vote_point :: "('g1, 'g2, 'gt) relic \<Rightarrow> (uint256 \<Rightarrow> bytes) \<Rightarrow> uint256 \<Rightarrow> 'g2" where
  "vote_point R tb h \<equiv> ep2_map_dst R (tb h) POPSCHEME_CIPHERSUITE_ID"

lemma bls_env_ok:
  assumes "bls_laws R" "\<And>h. length (tb h) = 32"
  shows "sig_sign (bls_env R tb E) sk h = g2_mul R (vote_point R tb h) sk"
    and "sig_aggregate (bls_env R tb E) (map (g2_mul R (vote_point R tb h)) ks) = g2_mul R (vote_point R tb h) (sum_list ks)"
    and "sub2 R s \<Longrightarrow> sig_verify (bls_env R tb E) (g1_mul R (g1_gen R) sk) h s \<longleftrightarrow> g2_mul R (vote_point R tb h) sk = s"
    and "sub2 R s \<Longrightarrow> ks \<noteq> [] \<Longrightarrow> sig_fast_verify (bls_env R tb E) (map (g1_mul R (g1_gen R)) ks) h s \<longleftrightarrow>
      g2_mul R (vote_point R tb h) (sum_list ks) = s"
  using assms
  by (simp_all add: bls_env_def result_or_def sig_bls_sign_def task_bls_verify_def sig_bls_verify_def task_agg_verify_def
      check_msg_length_def Pop_Sign_def Core_Sign_def Pop_Verify_def keys_ok Core_Verify_exact Aggregate_multiples
      FastAggregateVerify_exact bls2)

section \<open>Certificates of honest votes\<close>

text \<open>How replicas build an aggregate for the hash \<open>h\<close>: votes of further replicas are added,
  certificates of disjoint groups merged, the pending signatures aggregated, in any order. \<open>S\<close>
  is the set of the replicas that voted, \<open>sk i\<close> the key of replica \<open>i\<close>.\<close>

inductive collected :: "('p, 'k, 's, 'b) env \<Rightarrow> 'k ReplicaConfig \<Rightarrow> (nat \<Rightarrow> 'p) \<Rightarrow> uint256 \<Rightarrow>
    nat set \<Rightarrow> ('s, 'b) QuorumCertAgg \<Rightarrow> bool" for E cfg sk h where
  create: "collected E cfg sk h {} (agg_new E cfg h)"
| vote: "collected E cfg sk h S c \<Longrightarrow> i \<notin> S \<Longrightarrow> i < unat (nreplicas cfg) \<Longrightarrow>
    agg_add_part E cfg (of_nat i) (create_part_cert E AggBLS (sk i) h) c = Inr c' \<Longrightarrow> collected E cfg sk h (insert i S) c'"
| relay: "collected E cfg sk h S c \<Longrightarrow> collected E cfg sk h T d \<Longrightarrow> S \<inter> T = {} \<Longrightarrow>
    agg_merge_quorum E d c = Inr c' \<Longrightarrow> collected E cfg sk h (S \<union> T) c'"
| combine: "collected E cfg sk h S c \<Longrightarrow> collected E cfg sk h S (agg_compute E c)"

text \<open>All signatures of a certificate, pending or aggregated, and what they amount to.\<close>

definition all_sigs :: "('s, 'b) QuorumCertAgg \<Rightarrow> 's list" where
  "all_sigs c = agg_sigs c @ (case agg_theSig c of None \<Rightarrow> [] | Some x \<Rightarrow> [x])"

definition signed_by ::
  "('p, 'k, 's, 'b) env \<Rightarrow> (nat \<Rightarrow> 's) \<Rightarrow> nat \<Rightarrow> (nat \<Rightarrow> nat) \<Rightarrow> uint256 \<Rightarrow> nat set \<Rightarrow> ('s, 'b) QuorumCertAgg \<Rightarrow> bool" where
  "signed_by E point n sk h S c \<longleftrightarrow>
     agg_obj_hash c = h \<and> bits_size E (agg_rids c) = n \<and> S \<subseteq> {..<n} \<and> (\<forall>i<n. bits_get E (agg_rids c) i \<longleftrightarrow> i \<in> S) \<and>
     (agg_theSig c \<noteq> None \<longrightarrow> agg_sigs c = []) \<and> (\<exists>ks. all_sigs c = map point ks \<and> sum_list ks = sum sk S)"

lemma all_sigs_reopen:
  "(agg_theSig c \<noteq> None \<longrightarrow> agg_sigs c = []) \<Longrightarrow> agg_sigs (agg_reopen c) = all_sigs c \<and> agg_theSig (agg_reopen c) = None"
  by (auto simp: agg_reopen_def all_sigs_def split: option.splits)

lemma all_sigs_frame [simp]:
  "all_sigs (c\<lparr>agg_rids := b\<rparr>) = all_sigs c" "all_sigs (calculateN E c) = all_sigs c"
  by (simp_all add: all_sigs_def calculateN_def)

lemma agg_add_part_sigs:
  assumes "agg_add_part E cfg rid pc c = Inr c'" "agg_theSig c \<noteq> None \<longrightarrow> agg_sigs c = []"
  shows "\<exists>x. pc = PartCertBLSAgg (agg_obj_hash c) x \<and> all_sigs c' = all_sigs c @ [x] \<and> agg_theSig c' = None \<and>
    agg_obj_hash c' = agg_obj_hash c \<and> agg_rids c' = bits_set E (agg_rids c) (unat rid)"
proof -
  let ?c = "calculateN E (c\<lparr>agg_rids := bits_set E (agg_rids c) (unat rid)\<rparr>)"
  have "agg_sigs (agg_reopen ?c) = all_sigs c \<and> agg_theSig (agg_reopen ?c) = None"
    using all_sigs_reopen [of ?c] assms(2) by (simp add: calculateN_def all_sigs_def)
  then show ?thesis using assms(1)
    by (auto simp: agg_add_part_def Let_def all_sigs_def calculateN_def split: if_splits part_cert.splits)
qed

lemma agg_merge_sigs:
  assumes "agg_merge_quorum E d c = Inr c'" "agg_theSig c \<noteq> None \<longrightarrow> agg_sigs c = []"
  shows "all_sigs c' = all_sigs c @ all_sigs d \<and> agg_theSig c' = None \<and> agg_obj_hash c' = agg_obj_hash c \<and>
    agg_rids c' = merge_rids E (agg_rids d) [0..<bits_size E (agg_rids d)] (agg_rids c)"
proof -
  let ?c = "calculateN E (c\<lparr>agg_rids := merge_rids E (agg_rids d) [0..<bits_size E (agg_rids d)] (agg_rids c)\<rparr>)"
  have "agg_sigs (agg_reopen ?c) = all_sigs c \<and> agg_theSig (agg_reopen ?c) = None"
    using all_sigs_reopen [of ?c] assms(2) by (simp add: calculateN_def all_sigs_def)
  then show ?thesis using assms(1)
    by (auto simp: agg_merge_quorum_def Let_def all_sigs_def calculateN_def split: if_splits option.splits)
qed

lemma merge_rids_get:
  assumes "bits_laws E" "set is \<subseteq> {..<bits_size E b}"
  shows "bits_size E (merge_rids E nb is b) = bits_size E b \<and>
    (\<forall>j < bits_size E b. bits_get E (merge_rids E nb is b) j \<longleftrightarrow> bits_get E b j \<or> j \<in> set is \<and> bits_get E nb j)"
  using assms(2)
proof (induction "is" arbitrary: b)
  case (Cons i "is")
  let ?b = "if bits_get E nb i then bits_set E b i else b"
  have b: "bits_size E ?b = bits_size E b" using assms(1) by simp
  show ?case using Cons.IH [of ?b] Cons.prems b assms(1) by auto
qed simp

lemma signed_by_vote:
  assumes "signed_by E point n sk h S c" "bits_laws E" "n \<le> 2 ^ 16" "i \<notin> S" "i < n"
    and "agg_add_part E cfg (of_nat i) (PartCertBLSAgg h (point (sk i))) c = Inr c'"
  shows "signed_by E point n sk h (insert i S) c'"
proof -
  obtain ks where ks: "all_sigs c = map point ks" "sum_list ks = sum sk S" and c: "agg_obj_hash c = h"
      "bits_size E (agg_rids c) = n" "S \<subseteq> {..<n}" "\<forall>i<n. bits_get E (agg_rids c) i \<longleftrightarrow> i \<in> S"
      "agg_theSig c \<noteq> None \<longrightarrow> agg_sigs c = []"
    using assms(1) by (auto simp: signed_by_def)
  have c': "all_sigs c' = map point (ks @ [sk i])" "agg_theSig c' = None" "agg_obj_hash c' = h"
      "agg_rids c' = bits_set E (agg_rids c) (unat (of_nat i :: ReplicaID))"
    using agg_add_part_sigs [OF assms(6) c(5)] ks(1) c(1) by auto
  have "unat (of_nat i :: ReplicaID) = i" using assms(3,5) by (simp add: unsigned_of_nat take_bit_nat_eq_self)
  moreover have "sum_list (ks @ [sk i]) = sum sk (insert i S)"
    using ks(2) assms(4) finite_subset [OF c(3)] by simp
  ultimately show ?thesis unfolding signed_by_def
    using c' c assms(2,5) by (intro conjI exI [of _ "ks @ [sk i]"]) auto
qed

lemma signed_by_relay:
  assumes "signed_by E point n sk h S c" "signed_by E point n sk h T d" "bits_laws E" "S \<inter> T = {}"
    and "agg_merge_quorum E d c = Inr c'"
  shows "signed_by E point n sk h (S \<union> T) c'"
proof -
  obtain ks ls where ks: "all_sigs c = map point ks" "sum_list ks = sum sk S"
      "all_sigs d = map point ls" "sum_list ls = sum sk T"
    using assms(1,2) by (auto simp: signed_by_def)
  have c: "agg_obj_hash c = h" "bits_size E (agg_rids c) = n" "S \<subseteq> {..<n}" "\<forall>i<n. bits_get E (agg_rids c) i \<longleftrightarrow> i \<in> S"
      "agg_theSig c \<noteq> None \<longrightarrow> agg_sigs c = []"
      and d: "bits_size E (agg_rids d) = n" "T \<subseteq> {..<n}" "\<forall>i<n. bits_get E (agg_rids d) i \<longleftrightarrow> i \<in> T"
    using assms(1,2) by (simp_all add: signed_by_def)
  note c' = agg_merge_sigs [OF assms(5) c(5)]
  have "sum_list (ks @ ls) = sum sk (S \<union> T)"
    using ks assms(4) finite_subset [OF c(3)] finite_subset [OF d(2)] by (simp add: sum.union_disjoint)
  moreover have "all_sigs c' = map point (ks @ ls)" using c' ks by simp
  moreover have "bits_size E (agg_rids c') = n \<and> (\<forall>i<n. bits_get E (agg_rids c') i \<longleftrightarrow> i \<in> S \<union> T)"
    using merge_rids_get [OF assms(3), of "[0..<n]" "agg_rids c" "agg_rids d"] c' c(2,4) d(1,3) lessThan_atLeast0 by simp
  ultimately show ?thesis unfolding signed_by_def
    using c' c(1,3) d(2) by (intro conjI exI [of _ "ks @ ls"]) auto
qed

lemma signed_by_combine:
  assumes "signed_by E point n sk h S c" "\<And>ks. sig_aggregate E (map point ks) = point (sum_list ks)"
  shows "signed_by E point n sk h S (agg_compute E c)"
proof (cases "agg_theSig c")
  case None
  obtain ks where ks: "agg_sigs c = map point ks" "sum_list ks = sum sk S"
    using assms(1) None by (auto simp: signed_by_def all_sigs_def)
  then have "all_sigs (agg_compute E c) = map point [sum_list ks]" "agg_sigs (agg_compute E c) = []"
    using None assms(2) by (simp_all add: agg_compute_def all_sigs_def)
  then show ?thesis using assms(1) ks(2) unfolding signed_by_def agg_compute_frame
    by (intro conjI exI [of _ "[sum_list ks]"]) simp_all
qed (use assms(1) in \<open>simp add: agg_compute_def\<close>)

lemma collected_signed_by:
  assumes "collected (bls_env R tb E) cfg sk h S c" "bls_laws R" "\<And>h. length (tb h) = 32" "bits_laws E"
    and "unat (nreplicas cfg) \<le> 2 ^ 16"
  shows "signed_by (bls_env R tb E) (g2_mul R (vote_point R tb h)) (unat (nreplicas cfg)) sk h S c"
  using assms(1)
proof induction
  case create
  then show ?case using assms(4) by (auto simp: signed_by_def agg_new_def all_sigs_def intro: exI [of _ "[]"])
next
  case (vote S c i c')
  then show ?case using assms by (intro signed_by_vote) (auto simp: bls_env_laws bls_env_ok)
next
  case (relay S c T d c')
  then show ?case using assms(4) by (intro signed_by_relay) (auto simp: bls_env_laws)
next
  case (combine S c)
  then show ?case using assms(2,3) by (intro signed_by_combine) (auto simp: bls_env_ok)
qed

lemma agg_pubs_filter:
  assumes "\<And>i. i \<in> set is \<Longrightarrow> bits_get E b i \<Longrightarrow> get_pubkey cfg (of_nat i) = Inr (pk i)"
  shows "agg_pubs E cfg b is = Inr (map pk (filter (bits_get E b) is))"
  using assms by (induction "is") simp_all

lemma collected_verifies:
  assumes "signed_by (bls_env R tb E) (g2_mul R (vote_point R tb h)) n sk h S c" "bls_laws R"
    and "\<And>h. length (tb h) = 32" "S \<noteq> {}" "agg_theSig c \<noteq> None"
    and "\<And>i. i < n \<Longrightarrow> get_pubkey cfg (of_nat i) = GetG1Element R (sk i)"
  shows "agg_verify (bls_env R tb E) cfg c = Inr True"
proof -
  let ?E = "bls_env R tb E"
  let ?is = "filter (bits_get E (agg_rids c)) [0..<n]"
  obtain x ks where x: "agg_theSig c = Some x" "[x] = map (g2_mul R (vote_point R tb h)) ks" "sum_list ks = sum sk S"
    using assms(1,5) by (auto simp: signed_by_def all_sigs_def)
  have c: "agg_obj_hash c = h" "bits_size E (agg_rids c) = n" "S \<subseteq> {..<n}" "\<forall>i<n. bits_get E (agg_rids c) i \<longleftrightarrow> i \<in> S"
    using assms(1) by (simp_all add: signed_by_def)
  have S: "set ?is = S" using c(3,4) by auto
  then have sum: "sum_list (map sk ?is) = sum sk S" using sum_list_distinct_conv_sum_set [of ?is sk] by simp
  have "agg_pubs ?E cfg (agg_rids c) [0..<n] = Inr (map (g1_mul R (g1_gen R)) (map sk ?is))"
    using agg_pubs_filter [of "[0..<n]" ?E "agg_rids c" cfg "\<lambda>i. g1_mul R (g1_gen R) (sk i)"] assms(6)
    by (simp add: keys_ok [OF assms(2)])
  moreover have "sub2 R x" using x(2) by (auto simp: Cons_eq_map_conv bls2 [OF assms(2)])
  moreover have "x = g2_mul R (vote_point R tb h) (sum sk S)" using x(2,3) by (auto simp: Cons_eq_map_conv)
  moreover have "?is \<noteq> []" using S assms(4) by force
  ultimately show ?thesis
    using x(1) c(1,2) sum bls_env_ok(4) [OF assms(2,3), where E = E and s = x and ks = "map sk ?is" and h = h]
    by (simp add: agg_verify_def)
qed

text \<open>C31: any aggregate the tree collects from honest votes, by adding votes, merging the aggregates
  of disjoint subtrees and combining signatures in whatever order, is accepted by \<open>verify\<close> once
  combined: the batched pairing check of the signature library, the bit set of the certificate and the
  public keys of the configuration fit together.\<close>

theorem collected_certificate_verifies:
  assumes "bls_laws R" "bits_laws E" "\<And>h. length (to_bytes h) = 32" "unat (nreplicas cfg) \<le> 2 ^ 16"
    and "\<And>i. i < unat (nreplicas cfg) \<Longrightarrow> get_pubkey cfg (of_nat i) = GetG1Element R (sk i)"
    and "collected (bls_env R to_bytes E) cfg sk h S c" "S \<noteq> {}" "agg_theSig c \<noteq> None"
  shows "agg_verify (bls_env R to_bytes E) cfg c = Inr True"
  by (rule collected_verifies [OF collected_signed_by [OF assms(6,1,3,2,4)] assms(1,3,7,8,5)])

definition sample_keys :: "u8 ReplicaConfig" where
  "sample_keys = add_replica_cfg 1 \<lparr>ri_id = 1, ri_peer_id = 1, ri_pubkey = 7\<rparr>
     (add_replica_cfg 0 \<lparr>ri_id = 0, ri_peer_id = 0, ri_pubkey = 5\<rparr> ReplicaConfig_new)"

theorem collected_certificate_verifies_witness:
  "\<exists>c. collected (bls_env sample_relic (\<lambda>_. replicate 32 1) sample_env) sample_keys (\<lambda>i. if i = 0 then 5 else 7) 3 {0, 1} c \<and>
    agg_verify (bls_env sample_relic (\<lambda>_. replicate 32 1) sample_env) sample_keys c = Inr True"
proof -
  let ?E = "bls_env sample_relic (\<lambda>_. replicate 32 1) sample_env"
  let ?sk = "\<lambda>i :: nat. if i = 0 then 5 else (7 :: nat)"
  have n: "unat (nreplicas sample_keys) = 2" by (simp add: sample_keys_def add_replica_cfg_def ReplicaConfig_new_def)
  have pk: "get_pubkey sample_keys (of_nat i) = GetG1Element sample_relic (?sk i)" if "i < 2" for i
  proof -
    have "i = 0 \<or> i = 1" using that by auto
    then show ?thesis
      by (elim disjE) (simp_all add: sample_keys_def get_pubkey_def get_info_def add_replica_cfg_def umap_insert_def
          ReplicaConfig_new_def keys_ok, simp_all add: sample_relic_def)
  qed
  have part: "\<exists>c. agg_add_part ?E sample_keys r (create_part_cert ?E AggBLS k 3) (agg_new ?E sample_keys 3) = Inr c" for r k
    by (simp add: agg_add_part_def agg_new_def Let_def)
  obtain c d where c: "agg_add_part ?E sample_keys (of_nat 0) (create_part_cert ?E AggBLS (?sk 0) 3) (agg_new ?E sample_keys 3) = Inr c"
      and d: "agg_add_part ?E sample_keys (of_nat 1) (create_part_cert ?E AggBLS (?sk 1) 3) (agg_new ?E sample_keys 3) = Inr d"
    using part by meson
  have coll: "collected ?E sample_keys ?sk 3 {0} c"
    using collected.vote [where sk = ?sk and i = 0, OF collected.create _ _ c] by (simp add: n)
  have coll': "collected ?E sample_keys ?sk 3 {1} d"
    using collected.vote [where sk = ?sk and i = 1, OF collected.create _ _ d] by (simp add: n)
  obtain m where m: "agg_merge_quorum ?E d c = Inr m"
    using agg_add_part_frame [OF c] agg_add_part_frame [OF d] by (simp add: agg_merge_quorum_def agg_new_def Let_def)
  have all: "collected ?E sample_keys ?sk 3 ({0} \<union> {1}) (agg_compute ?E m)"
    by (rule collected.combine, rule collected.relay [OF coll coll' _ m]) simp
  have "agg_theSig (agg_compute ?E m) \<noteq> None" by (simp add: agg_compute_def split: option.splits)
  then have "agg_verify ?E sample_keys (agg_compute ?E m) = Inr True"
    using collected_certificate_verifies [OF sample_bls_laws sample_laws(1) _ _ _ all] pk n by simp
  then show ?thesis using all by (auto simp: insert_commute)
qed

end
