(* ===== verification/Hs_Prune.thy ===== *)
theory Hs_Prune
  imports Hs_Core
begin

text \<open>
  \<open>HotStuffCore::prune\<close> of \<^verbatim>\<open>src/consensus.cpp\<close>: cutting the links of
  blocks far below \<open>b_exec\<close> and releasing what nothing else refers to. The reference counts of the
  block pointers are read from the parameter \<open>cnt\<close>, which sees the memory and the stack.
\<close>

fun prune_start :: "(blkref \<Rightarrow> ('s, 'b) Block) \<Rightarrow> nat \<Rightarrow> blkref \<Rightarrow> blkref option" where
  "prune_start hp 0 r = Some r"
| "prune_start hp (Suc n) r = (case parents (hp r) of [] \<Rightarrow> None | p # _ \<Rightarrow> prune_start hp n p)"

definition cut_link :: "blkref \<Rightarrow> ('s, 'b) mem \<Rightarrow> ('s, 'b) mem" where
  "cut_link r m = m\<lparr>heap := (heap m)(r := (heap m r)\<lparr>qc_ref := None, parents := butlast (parents (heap m r))\<rparr>)\<rparr>"

partial_function (option) prune_loop ::
  "(('s, 'b) mem \<Rightarrow> blkref list \<Rightarrow> blkref \<Rightarrow> nat) \<Rightarrow> blkref list \<Rightarrow> ('s, 'b) mem \<Rightarrow> ('s, 'b) mem option" where
  "prune_loop cnt s m =
     (case s of
        [] \<Rightarrow> Some m
      | r # s' \<Rightarrow>
          if parents (heap m r) = []
          then prune_loop cnt s' (snd (try_release_blk (cnt m s r) r m))
          else prune_loop cnt (last (parents (heap m r)) # s) (cut_link r m))"

definition prune ::
  "(('s, 'b) mem \<Rightarrow> blkref list \<Rightarrow> blkref \<Rightarrow> nat) \<Rightarrow> u32 \<Rightarrow> ('p, 'k, 's, 'b) core \<Rightarrow> ('p, 'k, 's, 'b) core res" where
  "prune cnt staleness st =
     (case prune_start (heap (mem st)) (unat staleness) (b_exec st) of
        None \<Rightarrow> Inr st
      | Some r \<Rightarrow>
          let st = set_blk r (\<lambda>b. b\<lparr>qc_ref := None\<rparr>) st in
          bind (run_loop (map_option Inr (prune_loop cnt [r] (mem st)))) (\<lambda>m. Inr (st\<lparr>mem := m\<rparr>)))"

section \<open>It ends\<close>

lemma try_release_heap [simp]: "heap (snd (try_release_blk n r m)) = heap m"
  by (simp add: try_release_blk_def)

lemma prune_loop_simps:
  "prune_loop cnt [] m = Some m"
  "parents (heap m r) = [] \<Longrightarrow> prune_loop cnt (r # s) m = prune_loop cnt s (snd (try_release_blk (cnt m (r # s) r) r m))"
  "parents (heap m r) \<noteq> [] \<Longrightarrow> prune_loop cnt (r # s) m = prune_loop cnt (last (parents (heap m r)) # r # s) (cut_link r m)"
  by (subst prune_loop.simps; simp)+

text \<open>Every round pops a block or removes a link, which pays for the block it pushes.\<close>

definition links :: "blkref set \<Rightarrow> ('s, 'b) mem \<Rightarrow> nat" where
  "links A m = (\<Sum>x\<in>A. length (parents (heap m x)))"

lemma links_cut:
  assumes "finite A" "r \<in> A" "parents (heap m r) \<noteq> []"
  shows "links A m = Suc (links A (cut_link r m))"
proof -
  have "links A m = length (parents (heap m r)) + links (A - {r}) m"
    "links A (cut_link r m) = length (parents (heap m r)) - 1 + links (A - {r}) (cut_link r m)"
    using assms(1,2) by (simp_all add: links_def sum.remove cut_link_def)
  moreover have "links (A - {r}) (cut_link r m) = links (A - {r}) m"
    unfolding links_def by (rule sum.cong) (simp_all add: cut_link_def)
  moreover have "0 < length (parents (heap m r))" using assms(3) by simp
  ultimately show ?thesis by simp
qed

lemma prune_loop_ends:
  assumes "finite A" "set s \<subseteq> A" "\<And>x. x \<in> A \<Longrightarrow> set (parents (heap m x)) \<subseteq> A"
  shows "\<exists>m'. prune_loop cnt s m = Some m'"
  using assms(2,3)
proof (induction "2 * links A m + length s" arbitrary: s m rule: less_induct)
  case less
  show ?case
  proof (cases s)
    case (Cons r s')
    show ?thesis
    proof (cases "parents (heap m r) = []")
      case True
      let ?m = "snd (try_release_blk (cnt m s r) r m)"
      have "\<exists>m'. prune_loop cnt s' ?m = Some m'"
        by (rule less.hyps) (use less.prems Cons in \<open>simp_all add: links_def\<close>)
      then show ?thesis using prune_loop_simps(2) [OF True, of cnt s'] Cons by simp
    next
      case False
      have links: "links A m = Suc (links A (cut_link r m))" using less.prems Cons False assms(1) by (intro links_cut) auto
      have "set (parents (heap (cut_link r m) x)) \<subseteq> A" if "x \<in> A" for x
        using less.prems(2) [OF that] by (auto simp: cut_link_def dest: in_set_butlastD)
      moreover have "last (parents (heap m r)) \<in> A"
        using less.prems(2) [of r] less.prems(1) Cons last_in_set [OF False] by auto
      ultimately have "\<exists>m'. prune_loop cnt (last (parents (heap m r)) # s) (cut_link r m) = Some m'"
        using less.prems links by (intro less.hyps) auto
      then show ?thesis using prune_loop_simps(3) [OF False, of cnt s'] Cons by simp
    qed
  qed (simp add: prune_loop_simps)
qed

lemma prune_start_in:
  assumes "\<And>x. x \<in> A \<Longrightarrow> set (parents (hp x)) \<subseteq> A" "r \<in> A" "prune_start hp n r = Some q"
  shows "q \<in> A"
  using assms(2,3)
proof (induction n arbitrary: r)
  case (Suc n)
  obtain p ps where "parents (hp r) = p # ps" "prune_start hp n p = Some q"
    using Suc.prems(2) by (auto split: list.splits)
  moreover have "p \<in> A" using assms(1) [OF Suc.prems(1)] calculation(1) by simp
  ultimately show ?case using Suc.IH by blast
qed simp

lemma prune_returns:
  assumes "finite A" "b_exec st \<in> A" "\<And>x. x \<in> A \<Longrightarrow> set (parents (blk st x)) \<subseteq> A"
  shows "\<exists>st'. prune cnt staleness st = Inr st'"
proof (cases "prune_start (heap (mem st)) (unat staleness) (b_exec st)")
  case (Some r)
  let ?m = "mem (set_blk r (\<lambda>b. b\<lparr>qc_ref := None\<rparr>) st)"
  have "r \<in> A" using prune_start_in [OF assms(3,2) Some] .
  then have "\<exists>m'. prune_loop cnt [r] ?m = Some m'"
    using assms(1,3) by (intro prune_loop_ends [of A]) auto
  then show ?thesis using Some by (auto simp: prune_def Let_def)
qed (simp add: prune_def)

end
