(* ===== verification/Hs_Votes.thy ===== *)
theory Hs_Votes
  imports Hs_Prelude
begin

text \<open>
  The abstract protocol behind \<open>on_receive_proposal\<close> and \<open>update\<close> of
  \<^verbatim>\<open>src/consensus.cpp\<close>: a history of votes of honest replicas for block
  hashes. A hash has a parent (\<open>par\<close>), and the block its certificate is for (\<open>just\<close>); the
  genesis hash is \<open>g\<close>. The history is safe when every vote respects the rule of the code: higher than every
  earlier vote of the replica, and extending a lock or carrying a certificate above it, where the lock
  is at least as high as the block two certificates below every earlier vote. Then committed
  blocks are on one chain.
\<close>

section \<open>Chains of hashes\<close>

definition grounded :: "('h \<Rightarrow> 'h) \<Rightarrow> 'h \<Rightarrow> 'h \<Rightarrow> bool" where
  "grounded par g h \<longleftrightarrow> (\<exists>k. (par ^^ k) h = g)"

definition depth :: "('h \<Rightarrow> 'h) \<Rightarrow> 'h \<Rightarrow> 'h \<Rightarrow> nat" where
  "depth par g h = (LEAST k. (par ^^ k) h = g)"

definition anc :: "('h \<Rightarrow> 'h) \<Rightarrow> 'h \<Rightarrow> 'h \<Rightarrow> 'h \<Rightarrow> bool" where
  "anc par g a b \<longleftrightarrow> (\<exists>k \<le> depth par g b. (par ^^ k) b = a)"

lemma funpow_diff: "k \<le> n \<Longrightarrow> (f ^^ (n - k)) ((f ^^ k) x) = (f ^^ n) x"
  using funpow_add [of "n - k" k f] by (simp add: fun_eq_iff)

lemma depth_genesis [simp]: "depth par g g = 0"
  unfolding depth_def by (rule Least_equality) simp_all

lemma grounded_genesis [simp]: "grounded par g g"
  unfolding grounded_def by (rule exI [of _ 0]) simp

lemma depth_reaches: "grounded par g h \<Longrightarrow> (par ^^ depth par g h) h = g"
  unfolding grounded_def depth_def by (rule LeastI_ex)

lemma depth_0_iff: "grounded par g h \<Longrightarrow> depth par g h = 0 \<longleftrightarrow> h = g"
  using depth_reaches [of par g h] by auto

lemma depth_walk:
  assumes "grounded par g h" "k \<le> depth par g h"
  shows "grounded par g ((par ^^ k) h)" "depth par g ((par ^^ k) h) = depth par g h - k"
proof -
  have reach: "(par ^^ (depth par g h - k)) ((par ^^ k) h) = g"
    using depth_reaches [OF assms(1)] funpow_diff [OF assms(2), of par h] by simp
  then show "grounded par g ((par ^^ k) h)" unfolding grounded_def by blast
  show "depth par g ((par ^^ k) h) = depth par g h - k"
    unfolding depth_def [of par g "(par ^^ k) h"]
  proof (rule Least_equality)
    show "(par ^^ (depth par g h - k)) ((par ^^ k) h) = g" by (rule reach)
    fix j assume "(par ^^ j) ((par ^^ k) h) = g"
    then have "(par ^^ (j + k)) h = g" by (simp add: funpow_add)
    then have "depth par g h \<le> j + k" unfolding depth_def by (rule Least_le)
    then show "depth par g h - k \<le> j" by simp
  qed
qed

lemma grounded_step:
  assumes "grounded par g (par h)" "h \<noteq> g"
  shows "grounded par g h" "depth par g h = Suc (depth par g (par h))"
proof -
  have "(par ^^ Suc (depth par g (par h))) h = g"
    using depth_reaches [OF assms(1)] by (simp add: funpow_Suc_right del: funpow.simps)
  then show g: "grounded par g h" unfolding grounded_def by blast
  have "depth par g h \<noteq> 0" using depth_0_iff [OF g] assms(2) by simp
  then show "depth par g h = Suc (depth par g (par h))" using depth_walk(2) [OF g, of 1] by simp
qed

lemma anc_refl [simp]: "anc par g b b"
  unfolding anc_def by (rule exI [of _ 0]) simp

lemma anc_grounded:
  assumes "anc par g a b" "grounded par g b"
  shows "grounded par g a" "depth par g a \<le> depth par g b"
  using assms depth_walk unfolding anc_def by force+

lemma anc_trans:
  assumes "anc par g a b" "anc par g b c" "grounded par g c"
  shows "anc par g a c"
proof -
  obtain k j where k: "k \<le> depth par g b" "(par ^^ k) b = a" and j: "j \<le> depth par g c" "(par ^^ j) c = b"
    using assms(1,2) unfolding anc_def by blast
  have "(par ^^ (k + j)) c = a" using k(2) j(2) by (simp add: funpow_add)
  moreover have "k + j \<le> depth par g c" using depth_walk(2) [OF assms(3) j(1)] j k(1) by simp
  ultimately show ?thesis unfolding anc_def by blast
qed

lemma anc_same_depth:
  assumes "anc par g a b" "grounded par g b" "depth par g a = depth par g b"
  shows "a = b"
proof -
  obtain k where k: "k \<le> depth par g b" "(par ^^ k) b = a" using assms(1) unfolding anc_def by blast
  then have "k = 0" using depth_walk(2) [OF assms(2) k(1)] assms(3) by simp
  then show ?thesis using k(2) by simp
qed

lemma anc_chain:
  assumes "anc par g a c" "anc par g b c" "grounded par g c" "depth par g a \<le> depth par g b"
  shows "anc par g a b"
proof -
  obtain i j where i: "i \<le> depth par g c" "(par ^^ i) c = a" and j: "j \<le> depth par g c" "(par ^^ j) c = b"
    using assms(1,2) unfolding anc_def by blast
  have d: "depth par g a = depth par g c - i" "depth par g b = depth par g c - j"
    using depth_walk(2) [OF assms(3)] i j by auto
  then have "j \<le> i" using assms(4) i(1) j(1) by simp
  then have "(par ^^ (i - j)) b = a" using i(2) j(2) funpow_diff [of j i par c] by simp
  moreover have "i - j \<le> depth par g b" using d i(1) by simp
  ultimately show ?thesis unfolding anc_def by blast
qed

lemma anc_genesis: "grounded par g b \<Longrightarrow> anc par g g b"
  unfolding anc_def using depth_reaches [of par g b] by (intro exI [of _ "depth par g b"]) simp

lemma anc_parent: "grounded par g b \<Longrightarrow> b \<noteq> g \<Longrightarrow> anc par g (par b) b"
  unfolding anc_def using depth_0_iff [of par g b] by (intro exI [of _ "Suc 0"]) (simp add: Suc_le_eq)

section \<open>Histories of votes\<close>

definition certified :: "'i set \<Rightarrow> ('i set \<Rightarrow> bool) \<Rightarrow> ('i \<times> 'h) list \<Rightarrow> 'h \<Rightarrow> bool" where
  "certified H quorum V h \<longleftrightarrow> (\<exists>A. quorum A \<and> (\<forall>i \<in> A \<inter> H. (i, h) \<in> set V))"

lemma certified_mono: "certified H quorum V h \<Longrightarrow> set V \<subseteq> set V' \<Longrightarrow> certified H quorum V' h"
  unfolding certified_def by blast

definition genuine :: "'i set \<Rightarrow> ('i set \<Rightarrow> bool) \<Rightarrow> 'h \<Rightarrow> ('i \<times> 'h) list \<Rightarrow> 'h \<Rightarrow> bool" where
  "genuine H quorum g V h \<longleftrightarrow> h = g \<or> certified H quorum V h"

definition safe_vote ::
  "('h \<Rightarrow> 'h) \<Rightarrow> ('h \<Rightarrow> 'h option) \<Rightarrow> 'h \<Rightarrow> 'i set \<Rightarrow> ('i set \<Rightarrow> bool) \<Rightarrow> ('i \<times> 'h) list \<Rightarrow> 'i \<Rightarrow> 'h \<Rightarrow> bool" where
  "safe_vote par just g H quorum V i w \<longleftrightarrow>
     grounded par g w \<and>
     (\<forall>v. (i, v) \<in> set V \<longrightarrow> depth par g v < depth par g w) \<and>
     (\<exists>l. genuine H quorum g V l \<and>
        (\<forall>v b1 b. (i, v) \<in> set V \<longrightarrow> just v = Some b1 \<longrightarrow> just b1 = Some b \<longrightarrow> depth par g b \<le> depth par g l) \<and>
        (anc par g l w \<or>
         (\<exists>q. just w = Some q \<and> genuine H quorum g V q \<and> anc par g q w \<and> depth par g l < depth par g q)))"

inductive vote_run ::
  "('h \<Rightarrow> 'h) \<Rightarrow> ('h \<Rightarrow> 'h option) \<Rightarrow> 'h \<Rightarrow> 'i set \<Rightarrow> ('i set \<Rightarrow> bool) \<Rightarrow> ('i \<times> 'h) list \<Rightarrow> bool"
  for par just g H quorum where
  start: "vote_run par just g H quorum []"
| vote: "vote_run par just g H quorum V \<Longrightarrow> safe_vote par just g H quorum V i w \<Longrightarrow>
    vote_run par just g H quorum (V @ [(i, w)])"

definition committed ::
  "('h \<Rightarrow> 'h) \<Rightarrow> ('h \<Rightarrow> 'h option) \<Rightarrow> 'h \<Rightarrow> 'i set \<Rightarrow> ('i set \<Rightarrow> bool) \<Rightarrow> ('i \<times> 'h) list \<Rightarrow> 'h \<Rightarrow> bool" where
  "committed par just g H quorum V b \<longleftrightarrow>
     (\<exists>b1 b2. par b2 = b1 \<and> par b1 = b \<and> just b2 = Some b1 \<and> just b1 = Some b \<and> b1 \<noteq> g \<and> b2 \<noteq> g \<and>
        grounded par g b \<and> certified H quorum V b \<and> certified H quorum V b1 \<and> certified H quorum V b2)"

lemma vote_run_split:
  assumes "vote_run par just g H quorum V" "V = V1 @ (i, w) # V2"
  shows "safe_vote par just g H quorum V1 i w"
  using assms
proof (induction arbitrary: V2)
  case (vote V j x)
  show ?case
  proof (cases V2 rule: rev_cases)
    case Nil
    then show ?thesis using vote by simp
  next
    case (snoc V2' y)
    then show ?thesis using vote by simp
  qed
qed simp

lemma vote_run_order:
  assumes "vote_run par just g H quorum V" "V = V1 @ (i, w) # V2" "(i, v) \<in> set V" "depth par g v < depth par g w"
  shows "(i, v) \<in> set V1"
proof -
  have "(i, v) \<notin> set V2"
  proof
    assume "(i, v) \<in> set V2"
    then obtain U1 U2 where "V2 = U1 @ (i, v) # U2" by (auto simp: in_set_conv_decomp)
    then have "safe_vote par just g H quorum (V1 @ (i, w) # U1) i v"
      using vote_run_split [OF assms(1), of "V1 @ (i, w) # U1"] assms(2) by simp
    then have "depth par g w < depth par g v" by (auto simp: safe_vote_def)
    then show False using assms(4) by simp
  qed
  then show ?thesis using assms(2-4) by auto
qed

lemma vote_run_unique:
  assumes "vote_run par just g H quorum V" "(i, v) \<in> set V" "(i, w) \<in> set V" "depth par g v = depth par g w"
  shows "v = w"
proof -
  have False if "V = V1 @ (i, x) # V2" "(i, y) \<in> set V1" "depth par g x = depth par g y" for V1 V2 x y
    using vote_run_split [OF assms(1) that(1)] that(2,3) by (auto simp: safe_vote_def)
  note once = this
  obtain V1 V2 where V: "V = V1 @ (i, v) # V2" using assms(2) by (auto simp: in_set_conv_decomp)
  then consider "(i, w) \<in> set V1" | "w = v" | "(i, w) \<in> set V2" using assms(3) by auto
  then show ?thesis
  proof cases
    case 1
    then show ?thesis using once [OF V] assms(4) by blast
  next
    case 3
    then obtain U1 U2 where "V2 = U1 @ (i, w) # U2" by (auto simp: in_set_conv_decomp)
    then show ?thesis using once [of "V1 @ (i, v) # U1" w U2 v] V assms(4) by simp
  qed simp
qed

lemma first_prefix:
  assumes "P V" "\<not> P []"
  shows "\<exists>V1 x V2. V = V1 @ x # V2 \<and> \<not> P V1 \<and> P (V1 @ [x])"
  using assms
proof (induction V rule: rev_induct)
  case (snoc x V)
  then show ?case by (cases "P V") (use snoc in force, blast)
qed simp

section \<open>Agreement on the chain\<close>

text \<open>Quorums meet in an honest replica.\<close>

locale quorum_system =
  fixes ok :: bool and H :: "'i set" and quorum :: "'i set \<Rightarrow> bool"
  assumes meet: "ok \<Longrightarrow> quorum A \<Longrightarrow> quorum B \<Longrightarrow> \<exists>i \<in> H. i \<in> A \<and> i \<in> B"
begin

lemma common_voter:
  assumes ok "certified H quorum V v" "certified H quorum W w"
  obtains i where "i \<in> H" "(i, v) \<in> set V" "(i, w) \<in> set W"
  using assms meet unfolding certified_def by blast

lemma certified_unique:
  assumes ok "vote_run par just g H quorum V" "certified H quorum V v" "certified H quorum V w"
    and "depth par g v = depth par g w"
  shows "v = w"
  using common_voter [OF assms(1,3,4)] vote_run_unique [OF assms(2)] assms(5) by metis

text \<open>The first time a block is certified, one of its voters had voted for any other certified block
  below it, and none had the block itself as lock.\<close>

lemma early_voter:
  assumes ok "vote_run par just g H quorum V" "certified H quorum V v" "certified H quorum V w"
    and "depth par g v < depth par g w"
  obtains V1 V2 i where "V = V1 @ (i, w) # V2" "\<not> certified H quorum V1 w" "(i, v) \<in> set V1"
    "safe_vote par just g H quorum V1 i w"
proof -
  have "\<not> certified H quorum [] w" using common_voter [OF assms(1)] by force
  from first_prefix [of "\<lambda>V. certified H quorum V w", OF assms(4) this]
  obtain U x U' where U: "V = U @ x # U'" "\<not> certified H quorum U w" "certified H quorum (U @ [x]) w" by blast
  obtain i where i: "(i, v) \<in> set V" "(i, w) \<in> set (U @ [x])" using common_voter [OF assms(1,3) U(3)] by blast
  obtain V1 V2 where V1: "V = V1 @ (i, w) # V2" "set V1 \<subseteq> set U"
  proof (cases "(i, w) \<in> set U")
    case True
    then obtain W1 W2 where "U = W1 @ (i, w) # W2" by (auto simp: in_set_conv_decomp)
    then show ?thesis using that [of W1 "W2 @ x # U'"] U(1) by auto
  next
    case False
    then show ?thesis using that [of U U'] U(1) i(2) by auto
  qed
  have "\<not> certified H quorum V1 w" using U(2) certified_mono [OF _ V1(2)] by blast
  moreover have "(i, v) \<in> set V1" using vote_run_order [OF assms(2) V1(1) i(1) assms(5)] .
  ultimately show ?thesis using that V1(1) vote_run_split [OF assms(2) V1(1)] by blast
qed

lemma certified_extends:
  assumes ok "vote_run par just g H quorum V" "committed par just g H quorum V b"
    and "certified H quorum V w" "grounded par g w" "depth par g b \<le> depth par g w"
  shows "anc par g b w"
  using assms(4-6)
proof (induction "depth par g w" arbitrary: w rule: less_induct)
  case less
  obtain b1 b2 where b: "par b2 = b1" "par b1 = b" "just b2 = Some b1" "just b1 = Some b" "b1 \<noteq> g" "b2 \<noteq> g"
      "grounded par g b" "certified H quorum V b" "certified H quorum V b1" "certified H quorum V b2"
    using assms(3) unfolding committed_def by blast
  have b1: "grounded par g b1" "depth par g b1 = Suc (depth par g b)" using grounded_step [of par g b1] b by auto
  have b2: "grounded par g b2" "depth par g b2 = Suc (depth par g b1)" using grounded_step [of par g b2] b b1 by auto
  have anc2: "anc par g b b1" "anc par g b b2"
    using anc_parent [OF b1(1) b(5)] anc_parent [OF b2(1) b(6)] anc_trans [of par g b b1 b2] b b2(1) by auto
  show ?case
  proof (cases "depth par g w \<le> depth par g b2")
    case True
    then consider "depth par g w = depth par g b" | "depth par g w = depth par g b1" | "depth par g w = depth par g b2"
      using less.prems(3) b1(2) b2(2) by linarith
    then show ?thesis
      by cases (use certified_unique [OF assms(1,2) less.prems(1)] b anc2 in auto)
  next
    case False
    then have "depth par g b2 < depth par g w" by simp
    from early_voter [OF assms(1,2) b(10) less.prems(1) this]
    obtain V1 V2 i where V: "V = V1 @ (i, w) # V2" "\<not> certified H quorum V1 w" "(i, b2) \<in> set V1"
      "safe_vote par just g H quorum V1 i w" .
    obtain l where l: "genuine H quorum g V1 l" "depth par g b \<le> depth par g l"
      "anc par g l w \<or> (\<exists>q. just w = Some q \<and> genuine H quorum g V1 q \<and> anc par g q w \<and> depth par g l < depth par g q)"
      using V(3,4) b(3,4) unfolding safe_vote_def by blast
    have below: "anc par g b w" if "anc par g x w" "genuine H quorum g V1 x" "depth par g b \<le> depth par g x" for x
    proof (cases "x = g")
      case True
      then have "b = g" using that(3) depth_0_iff [OF b(7)] by simp
      then show ?thesis using anc_genesis [OF less.prems(2)] by simp
    next
      case False
      then have c: "certified H quorum V1 x" using that(2) by (simp add: genuine_def)
      then have "x \<noteq> w" using V(2) by auto
      then have "depth par g x < depth par g w"
        using anc_grounded(2) [OF that(1) less.prems(2)] anc_same_depth [OF that(1) less.prems(2)] by fastforce
      moreover have "certified H quorum V x" by (rule certified_mono [OF c]) (simp add: V(1) subset_iff)
      ultimately have "anc par g b x" using less.hyps anc_grounded(1) [OF that(1) less.prems(2)] that(3) by blast
      then show ?thesis using anc_trans that(1) less.prems(2) by metis
    qed
    show ?thesis using l(3) below l(1,2) by (meson less_imp_le order.trans)
  qed
qed

lemma committed_chain:
  assumes ok "vote_run par just g H quorum V" "committed par just g H quorum V b" "committed par just g H quorum V b'"
  shows "anc par g b b' \<or> anc par g b' b"
proof -
  have "certified H quorum V b" "grounded par g b" "certified H quorum V b'" "grounded par g b'"
    using assms(3,4) unfolding committed_def by blast+
  then show ?thesis
    using certified_extends [OF assms(1,2,3), of b'] certified_extends [OF assms(1,2,4), of b]
    by (meson linear)
qed

end

section \<open>Quorums of the configuration\<close>

text \<open>Sets of at least \<open>n - (n - 1) / 3\<close> of \<open>n\<close> replicas, of which at most
  \<open>(n - 1) / 3\<close> are faulty.\<close>

definition big_enough :: "nat \<Rightarrow> nat set \<Rightarrow> bool" where
  "big_enough n A \<longleftrightarrow> A \<subseteq> {..<n} \<and> n - (n - 1) div 3 \<le> card A"

lemma big_sets_meet:
  assumes "big_enough n A" "big_enough n B" "card F \<le> (n - 1) div 3" "finite F" "0 < n"
  shows "\<exists>i \<in> {..<n} - F. i \<in> A \<and> i \<in> B"
proof (rule ccontr)
  assume "\<not> ?thesis"
  then have "A \<inter> B \<subseteq> F" using assms(1,2) by (auto simp: big_enough_def)
  then have "card (A \<inter> B) \<le> (n - 1) div 3" using card_mono [OF assms(4), of "A \<inter> B"] assms(3) by linarith
  moreover have "finite A" "finite B" using assms(1,2) by (auto simp: big_enough_def intro: finite_subset)
  moreover have "card (A \<union> B) \<le> n" using assms(1,2) card_mono [of "{..<n}" "A \<union> B"] by (auto simp: big_enough_def)
  moreover have "n - (n - 1) div 3 \<le> card A" "n - (n - 1) div 3 \<le> card B" using assms(1,2) by (simp_all add: big_enough_def)
  moreover have "3 * ((n - 1) div 3) < n" using assms(5) by linarith
  ultimately show False using card_Un_Int [of A B] by linarith
qed

interpretation bft: quorum_system "finite F \<and> card F \<le> (n - 1) div 3 \<and> 0 < n" "{..<n} - F" "big_enough n" for n F
proof unfold_locales
  fix A B
  assume "finite F \<and> card F \<le> (n - 1) div 3 \<and> 0 < n" "big_enough n A" "big_enough n B"
  then show "\<exists>i \<in> {..<n} - F. i \<in> A \<and> i \<in> B" by (intro big_sets_meet) simp_all
qed

end
