(* ===== verification/Hs_System.thy ===== *)
theory Hs_System
  imports Hs_Votes Hs_Ballots "HOL-Library.Sublist"
begin

text \<open>
  Several replicas: the states of the honest ones, each running
  \<^verbatim>\<open>src/consensus.cpp\<close>, and the history of the signatures they give. Every call of a
  replica respects the abstract voting rule, so what the replicas execute is one log.
\<close>

section \<open>What the hashes stand for\<close>

text \<open>The blocks behind the hashes, the same for every replica: the first parent, the block the
  certificate is for, the commands; and the hash of the genesis block.\<close>

record ledger =
  parent_of :: "uint256 \<Rightarrow> uint256"
  cert_of :: "uint256 \<Rightarrow> uint256 option"
  cmds_of :: "uint256 \<Rightarrow> uint256 list"
  genesis :: uint256

definition sees :: "ledger \<Rightarrow> ('p, 'k, 's, 'b) core \<Rightarrow> bool" where
  "sees L st \<longleftrightarrow> hash (blk st (b0 st)) = genesis L \<and>
     (\<forall>r. ref_ok st r \<longrightarrow>
        (r = b0 st \<or> hash (blk st r) \<noteq> genesis L \<and>
           parent_of L (hash (blk st r)) = hash (blk st (hd (parents (blk st r))))) \<and>
        cert_of L (hash (blk st r)) = map_option (\<lambda>q. hash (blk st q)) (qc_ref (blk st r)) \<and>
        cmds_of L (hash (blk st r)) = cmds (blk st r))"

lemma seesD:
  assumes "sees L st" "ref_ok st r"
  shows "r \<noteq> b0 st \<Longrightarrow> hash (blk st r) \<noteq> genesis L"
    "r \<noteq> b0 st \<Longrightarrow> parent_of L (hash (blk st r)) = hash (blk st (hd (parents (blk st r))))"
    "cert_of L (hash (blk st r)) = map_option (\<lambda>q. hash (blk st q)) (qc_ref (blk st r))"
    "cmds_of L (hash (blk st r)) = cmds (blk st r)"
  using assms unfolding sees_def by blast+

abbreviation chained :: "ledger \<Rightarrow> uint256 \<Rightarrow> bool" where
  "chained L \<equiv> grounded (parent_of L) (genesis L)"

abbreviation level :: "ledger \<Rightarrow> uint256 \<Rightarrow> nat" where
  "level L \<equiv> depth (parent_of L) (genesis L)"

abbreviation below :: "ledger \<Rightarrow> uint256 \<Rightarrow> uint256 \<Rightarrow> bool" where
  "below L \<equiv> anc (parent_of L) (genesis L)"

lemma ref_ok_parent:
  assumes "core_inv st" "ref_ok st r" "r \<noteq> b0 st"
  obtains p ps where "parents (blk st r) = p # ps" "ref_ok st p" "unat (height (blk st r)) = Suc (unat (height (blk st p)))"
proof -
  obtain p ps where p: "parents (blk st r) = p # ps"
    using assms(2,3) by (auto simp: ref_ok_def rooted_def neq_Nil_conv)
  have "blk_ok (mem st) (b0 st) r" using heap_okD(5) [OF core_invD(1) [OF assms(1)]] assms(2) by (simp add: ref_ok_def)
  note bp = blk_ok_parent [OF this p]
  show ?thesis using that [OF p] bp unat_plus_1_less [of "height (blk st p)"] by (simp add: ref_ok_def)
qed

lemma level_height:
  assumes "core_inv st" "sees L st" "ref_ok st r"
  shows "chained L (hash (blk st r)) \<and> level L (hash (blk st r)) = unat (height (blk st r))"
  using assms(3)
proof (induction "unat (height (blk st r))" arbitrary: r rule: less_induct)
  case less
  show ?case
  proof (cases "r = b0 st")
    case True
    then show ?thesis using assms(2) heap_okD(2) [OF core_invD(1) [OF assms(1)]] by (simp add: sees_def)
  next
    case False
    obtain p ps where p: "parents (blk st r) = p # ps" "ref_ok st p" "unat (height (blk st r)) = Suc (unat (height (blk st p)))"
      using ref_ok_parent [OF assms(1) less.prems False] .
    have "parent_of L (hash (blk st r)) = hash (blk st p)" "hash (blk st r) \<noteq> genesis L"
      using assms(2) less.prems False p(1) by (auto simp: sees_def)
    then show ?thesis
      using grounded_step [of "parent_of L" "genesis L" "hash (blk st r)"] less.hyps [of p] p(2,3) by simp
  qed
qed

lemma path_ref_ok:
  assumes "core_inv st" "ref_ok st b" "is_path (heap (mem st)) a xs b"
  shows "ref_ok st a"
  using assms(2,3)
proof (induction xs arbitrary: b rule: rev_induct)
  case (snoc x xs)
  then obtain p ps where p: "parents (blk st b) = p # ps" "is_path (heap (mem st)) a xs p" unfolding is_path_snoc by blast
  then have "b \<noteq> b0 st" using heap_okD(4) [OF core_invD(1) [OF assms(1)]] by auto
  then have "ref_ok st p" using ref_ok_parent [OF assms(1) snoc.prems(1)] p(1) by (metis list.inject)
  then show ?case using snoc.IH p(2) by blast
qed simp

lemma path_below:
  assumes "core_inv st" "sees L st" "ref_ok st b" "is_path (heap (mem st)) a xs b"
  shows "below L (hash (blk st a)) (hash (blk st b))"
  using assms(3,4)
proof (induction xs arbitrary: b rule: rev_induct)
  case (snoc x xs)
  then obtain p ps where p: "parents (blk st b) = p # ps" "is_path (heap (mem st)) a xs p" unfolding is_path_snoc by blast
  then have n: "b \<noteq> b0 st" using heap_okD(4) [OF core_invD(1) [OF assms(1)]] by auto
  then have rp: "ref_ok st p" using ref_ok_parent [OF assms(1) snoc.prems(1)] p(1) by (metis list.inject)
  have "parent_of L (hash (blk st b)) = hash (blk st p)" "hash (blk st b) \<noteq> genesis L"
    using assms(2) snoc.prems(1) n p(1) by (auto simp: sees_def)
  moreover have "chained L (hash (blk st b))" using level_height [OF assms(1,2) snoc.prems(1)] by blast
  ultimately show ?case
    using anc_trans [OF snoc.IH [OF rp p(2)]] anc_parent by metis
qed simp

section \<open>The system\<close>

text \<open>Every certificate is for an ancestor of the block that carries it.\<close>

definition anchored :: "('p, 'k, 's, 'b) core \<Rightarrow> bool" where
  "anchored st \<longleftrightarrow> (\<forall>r q. ref_ok st r \<longrightarrow> qc_ref (blk st r) = Some q \<longrightarrow> (\<exists>xs. is_path (heap (mem st)) q xs r))"

abbreviation trusted :: "ledger \<Rightarrow> nat \<Rightarrow> nat set \<Rightarrow> (nat \<times> uint256) list \<Rightarrow> uint256 \<Rightarrow> bool" where
  "trusted L n F \<equiv> genuine ({..<n} - F) (big_enough n) (genesis L)"

definition certs_genuine ::
  "ledger \<Rightarrow> nat \<Rightarrow> nat set \<Rightarrow> (nat \<times> uint256) list \<Rightarrow> ('p, 'k, 's, 'b) core \<Rightarrow> bool" where
  "certs_genuine L n F V st \<longleftrightarrow>
     (\<forall>r < nxt (mem st). \<forall>q. qc_ref (blk st r) = Some q \<longrightarrow> trusted L n F V (hash (blk st q)))"

text \<open>A block the replica proposes itself is above its votes, raises \<open>vheight\<close> and respects its lock.\<close>

definition proposes_safely :: "('p, 'k, 's, 'b) core \<Rightarrow> ('p, 'k, 's, 'b) core \<Rightarrow> bool" where
  "proposes_safely st st' \<longleftrightarrow>
     (\<forall>r. proposals (outs st') = proposals (outs st) @ [r] \<longrightarrow>
        vheight st < height (blk st' r) \<and> height (blk st' r) \<le> vheight st' \<and> lock_allows st' r)"

definition new_ballots :: "nat \<Rightarrow> ('p, 'k, 's, 'b) core \<Rightarrow> ('p, 'k, 's, 'b) core \<Rightarrow> (nat \<times> uint256) list" where
  "new_ballots i st st' =
     map (\<lambda>r. (i, hash (blk st' r))) (drop (length (ballots (outs st))) (ballots (outs st')))"

text \<open>
  The honest replicas are those below \<open>n\<close> outside \<open>F\<close>. A step is one call on one of them. The
  premises say what the replica may rely on: hashes identify blocks (\<open>sees\<close>);
  signatures are not forged and the certificates of connected blocks have a quorum of signers, so that a certified
  block was signed by the honest members of a quorum (\<open>certs_genuine\<close>; the code verifies the signatures of
  a certificate, but not their number); its pacemaker proposes
  above its own votes and lock (\<open>proposes_safely\<close>). The predicate \<open>chk\<close> is a further check of the
  blocks a replica connects.
\<close>

inductive system ::
  "('p, 'k, 's, 'b) env \<Rightarrow> ledger \<Rightarrow> nat \<Rightarrow> nat set \<Rightarrow> (('p, 'k, 's, 'b) core \<Rightarrow> bool) \<Rightarrow>
     (nat \<Rightarrow> ('p, 'k, 's, 'b) core) \<Rightarrow> (nat \<times> uint256) list \<Rightarrow> bool"
  for E L n F chk where
  start: "(\<And>i. i \<in> {..<n} - F \<Longrightarrow> booted E (S i) \<and> sees L (S i)) \<Longrightarrow> system E L n F chk S []"
| call: "system E L n F chk S V \<Longrightarrow> i \<in> {..<n} - F \<Longrightarrow> core_low_step E (S i) st' \<Longrightarrow>
    sees L st' \<Longrightarrow> certs_genuine L n F V st' \<Longrightarrow> proposes_safely (S i) st' \<Longrightarrow> chk st' \<Longrightarrow>
    system E L n F chk (S(i := st')) (V @ new_ballots i (S i) st')"

section \<open>The invariant of a replica in the system\<close>

definition replica_ok ::
  "ledger \<Rightarrow> nat \<Rightarrow> nat set \<Rightarrow> (nat \<times> uint256) list \<Rightarrow> nat \<Rightarrow> ('p, 'k, 's, 'b) core \<Rightarrow> bool" where
  "replica_ok L n F V i st \<longleftrightarrow>
     core_inv st \<and> low st \<and> sees L st \<and> anchored st \<and> lock_above_exec st \<and>
     trusted L n F V (hash (blk st (b_lock st))) \<and>
     (b_exec st = b0 st \<or>
      committed (parent_of L) (cert_of L) (genesis L) ({..<n} - F) (big_enough n) V (hash (blk st (b_exec st)))) \<and>
     (\<forall>h. (i, h) \<in> set V \<longleftrightarrow> h \<in> (\<lambda>r. hash (blk st r)) ` set (ballots (outs st))) \<and>
     (\<forall>r \<in> set (ballots (outs st)). ref_ok st r \<and> height (blk st r) \<le> vheight st) \<and>
     (\<forall>v c b. (i, v) \<in> set V \<longrightarrow> cert_of L v = Some c \<longrightarrow> cert_of L c = Some b \<longrightarrow>
        level L b \<le> unat (height (blk st (b_lock st))))"

lemma replica_okD:
  assumes "replica_ok L n F V i st"
  shows "core_inv st" "low st" "sees L st" "anchored st" "lock_above_exec st"
    "trusted L n F V (hash (blk st (b_lock st)))"
    "b_exec st = b0 st \<or> committed (parent_of L) (cert_of L) (genesis L) ({..<n} - F) (big_enough n) V (hash (blk st (b_exec st)))"
    "(i, h) \<in> set V \<longleftrightarrow> h \<in> (\<lambda>r. hash (blk st r)) ` set (ballots (outs st))"
    "r \<in> set (ballots (outs st)) \<Longrightarrow> ref_ok st r \<and> height (blk st r) \<le> vheight st"
    "(i, v) \<in> set V \<Longrightarrow> cert_of L v = Some c \<Longrightarrow> cert_of L c = Some b \<Longrightarrow> level L b \<le> unat (height (blk st (b_lock st)))"
  using assms unfolding replica_ok_def by blast+

lemma genuine_mono: "genuine H quorum g V h \<Longrightarrow> set V \<subseteq> set V' \<Longrightarrow> genuine H quorum g V' h"
  using certified_mono by (fastforce simp: genuine_def)

lemma committed_mono:
  "committed par just g H quorum V b \<Longrightarrow> set V \<subseteq> set V' \<Longrightarrow> committed par just g H quorum V' b"
  unfolding committed_def using certified_mono by metis

lemma replica_ok_mono:
  assumes "replica_ok L n F V i st" "set V \<subseteq> set V'" "\<And>h. (i, h) \<in> set V' \<longleftrightarrow> (i, h) \<in> set V"
  shows "replica_ok L n F V' i st"
proof -
  note d = replica_okD [OF assms(1)]
  have "trusted L n F V' (hash (blk st (b_lock st)))" by (rule genuine_mono [OF d(6) assms(2)])
  moreover have "b_exec st = b0 st \<or>
      committed (parent_of L) (cert_of L) (genesis L) ({..<n} - F) (big_enough n) V' (hash (blk st (b_exec st)))"
    using d(7) committed_mono [OF _ assms(2)] by blast
  ultimately show ?thesis using assms(1) unfolding replica_ok_def assms(3) by simp
qed

lemma replica_ok_boot:
  assumes "booted E st" "sees L st"
  shows "replica_ok L n F [] i st"
proof -
  from assms(1) obtain sc j sk lat0 cnt0 t0 fo pl ab rs nf where b: "boot E sc j sk lat0 cnt0 t0 fo pl ab rs nf = Inr st"
    unfolding booted_def by blast
  from boot_shape [OF b] have s: "b0 st = 0" "b_lock st = 0" "b_exec st = 0" "nxt (mem st) = 1" "outs st = []"
    "qc_ref (blk st 0) = Some 0" by blast+
  have "anchored st" unfolding anchored_def
    by (intro allI impI exI [of _ "[]"]) (simp add: s ref_ok_def)
  then show ?thesis using boot_inv [OF b] assms(2) s
    by (simp add: replica_ok_def lock_above_exec_def genuine_def sees_def)
qed

text \<open>Executed blocks are not above \<open>b_exec\<close>.\<close>

lemma decided_height:
  assumes "core_inv st" "r < nxt (mem st)" "decision (blk st r) \<noteq> 0"
  shows "height (blk st r) \<le> height (blk st (b_exec st))"
proof -
  note i = core_invD [OF assms(1)]
  have P: "is_path (heap (mem st)) (b0 st) (executed (outs st)) (b_exec st)" and L: "b_exec st < nxt (mem st)"
    using i(3,6) by (auto simp: log_ok_def ref_ok_def)
  from assms(2,3) i(3) consider "r = b0 st" | "r \<in> set (executed (outs st))" by (auto simp: log_ok_def)
  then show ?thesis
  proof cases
    case 1
    then show ?thesis using heap_okD(2) [OF i(1)] by simp
  next
    case 2
    then obtain ys zs where "executed (outs st) = ys @ r # zs" by (auto simp: in_set_conv_decomp)
    with P have "is_path (heap (mem st)) r zs (b_exec st)" by auto
    from is_path_height [OF i(1) this L] show ?thesis by (simp add: word_le_nat_alt)
  qed
qed

lemma sees_cert:
  assumes "core_inv st" "sees L st" "anchored st" "ref_ok st r" "cert_of L (hash (blk st r)) = Some c"
  obtains q xs where "qc_ref (blk st r) = Some q" "hash (blk st q) = c" "ref_ok st q" "is_path (heap (mem st)) q xs r"
    "height (blk st q) \<le> height (blk st r)"
proof -
  obtain q where q: "qc_ref (blk st r) = Some q" "hash (blk st q) = c"
    using seesD(3) [OF assms(2,4)] assms(5) by (cases "qc_ref (blk st r)") auto
  then obtain xs where xs: "is_path (heap (mem st)) q xs r" using assms(3,4) unfolding anchored_def by blast
  have "r < nxt (mem st)" using assms(4) by (simp add: ref_ok_def)
  from is_path_height [OF core_invD(1) [OF assms(1)] xs this] have "height (blk st q) \<le> height (blk st r)"
    by (simp add: word_le_nat_alt)
  then show ?thesis using that q xs path_ref_ok [OF assms(1,4) xs] by blast
qed

lemma lock_two_down:
  assumes "core_inv st" "sees L st" "anchored st" "lock_above_exec st" "ref_ok st r" "lock_covers st r"
    and "cert_of L (hash (blk st r)) = Some c" "cert_of L c = Some b"
  shows "level L b \<le> unat (height (blk st (b_lock st)))"
proof -
  obtain q2 where q2: "qc_ref (blk st r) = Some q2" "hash (blk st q2) = c" "ref_ok st q2"
    using sees_cert [OF assms(1-3,5,7)] by metis
  obtain q1 where q1: "qc_ref (blk st q2) = Some q1" "hash (blk st q1) = b" "ref_ok st q1"
    "height (blk st q1) \<le> height (blk st q2)"
    using sees_cert [OF assms(1-3) q2(3)] q2(2) assms(8) by metis
  have n: "q1 < nxt (mem st)" "q2 < nxt (mem st)" using q1(3) q2(3) by (simp_all add: ref_ok_def)
  have "height (blk st q1) \<le> height (blk st (b_lock st))"
  proof (cases "decision (blk st q2) = 0 \<and> decision (blk st q1) = 0")
    case True
    then show ?thesis using assms(6) q1(1) q2(1) unfolding lock_covers_def by blast
  next
    case False
    then have "height (blk st q1) \<le> height (blk st (b_exec st))"
      using decided_height [OF assms(1)] n q1(4) order.trans by blast
    then show ?thesis using assms(4) unfolding lock_above_exec_def by (rule order.trans)
  qed
  then show ?thesis using level_height [OF assms(1,2) q1(3)] q1(2) by (simp add: word_le_nat_alt)
qed

section \<open>One call of one replica\<close>

lemma evolves_refD:
  assumes "evolves st st'" "ref_ok st r"
  shows "ref_ok st' r" "hash (blk st' r) = hash (blk st r)" "height (blk st' r) = height (blk st r)"
  using assms(2) evolvesD(3) [OF assms(1)] unfolding progress_def graph_grows_def by (auto simp: ref_ok_def)

text \<open>The facts shared by the lemmas below: replica \<open>i\<close> moves from \<open>st\<close> to \<open>st'\<close>.\<close>

definition lawful_call ::
  "('p, 'k, 's, 'b) env \<Rightarrow> ledger \<Rightarrow> nat \<Rightarrow> nat set \<Rightarrow> (nat \<times> uint256) list \<Rightarrow> nat \<Rightarrow>
     ('p, 'k, 's, 'b) core \<Rightarrow> ('p, 'k, 's, 'b) core \<Rightarrow> bool" where
  "lawful_call E L n F V i st st' \<longleftrightarrow> replica_ok L n F V i st \<and> core_low_step E st st' \<and>
     sees L st' \<and> anchored st' \<and> certs_genuine L n F V st' \<and> proposes_safely st st'"

lemma lawful_callD:
  assumes "lawful_call E L n F V i st st'"
  shows "replica_ok L n F V i st" "evolves st st'" "call_effect st st'" "core_inv st'" "low st'"
    "sees L st'" "anchored st'" "certs_genuine L n F V st'" "proposes_safely st st'" "lock_above_exec st'"
proof -
  from assms have "core_step E st st'" "low st'" and ok: "replica_ok L n F V i st"
    by (simp_all add: lawful_call_def core_low_step_def)
  note ce = core_step_effect [OF this(1) replica_okD(1,2) [OF ok] this(2)]
    and ev = core_step_evolves [OF this(1) replica_okD(1,2) [OF ok] this(2)]
  from ce have "lock_above_exec st'" using replica_okD(5) [OF ok] by (simp add: call_effect_def lock_moves_def)
  with ce ev evolvesD(2) [OF ev] show "replica_ok L n F V i st" "evolves st st'" "call_effect st st'" "core_inv st'" "low st'"
    "sees L st'" "anchored st'" "certs_genuine L n F V st'" "proposes_safely st st'" "lock_above_exec st'"
    using assms by (simp_all add: lawful_call_def core_low_step_def)
qed

lemma lawful_call_lock:
  assumes "lawful_call E L n F V i st st'"
  shows "trusted L n F V (hash (blk st' (b_lock st')))"
    and "unat (height (blk st (b_lock st))) \<le> unat (height (blk st' (b_lock st')))"
proof -
  note d = lawful_callD [OF assms]
  note ok = replica_okD [OF d(1)]
  have "b_lock st' = b_lock st \<or> (\<exists>x < nxt (mem st'). qc_ref (blk st' x) = Some (b_lock st'))"
    using d(3) by (simp add: call_effect_def lock_moves_def)
  moreover have "hash (blk st' (b_lock st)) = hash (blk st (b_lock st))"
    using evolvesD(3) [OF d(2)] core_invD(5) [OF ok(1)] by (simp add: progress_def graph_grows_def ref_ok_def)
  ultimately show "trusted L n F V (hash (blk st' (b_lock st')))"
    using d(8) ok(6) unfolding certs_genuine_def by metis
  show "unat (height (blk st (b_lock st))) \<le> unat (height (blk st' (b_lock st')))"
    using evolvesD(3) [OF d(2)] by (simp add: progress_def word_le_nat_alt)
qed

lemma lawful_call_exec:
  assumes "lawful_call E L n F V i st st'"
  shows "b_exec st' = b0 st' \<or>
    committed (parent_of L) (cert_of L) (genesis L) ({..<n} - F) (big_enough n) V (hash (blk st' (b_exec st')))"
proof -
  note d = lawful_callD [OF assms]
  note ok = replica_okD [OF d(1)]
  have g: "b0 st' = b0 st" "hash (blk st' (b_exec st)) = hash (blk st (b_exec st))"
    using evolvesD(3) [OF d(2)] core_invD(6) [OF ok(1)] by (simp_all add: progress_def graph_grows_def ref_ok_def)
  have "b_exec st' = b_exec st \<or> chain3 st' (b_exec st')" using d(3) by (simp add: call_effect_def lock_moves_def)
  then show ?thesis
  proof
    assume "b_exec st' = b_exec st"
    then show ?thesis using ok(7) g by auto
  next
    assume "chain3 st' (b_exec st')"
    then obtain m b2 b1 where c: "m < nxt (mem st')" "qc_ref (blk st' m) = Some b2" "qc_ref (blk st' b2) = Some b1"
      "qc_ref (blk st' b1) = Some (b_exec st')" "is_path (heap (mem st')) (b_exec st') [b1, b2] b2"
      "b2 \<noteq> b0 st'" "b1 \<noteq> b0 st'" "b_exec st' \<noteq> b0 st'" unfolding chain3_def by blast
    have p: "hd (parents (blk st' b1)) = b_exec st'" "hd (parents (blk st' b2)) = b1" "parents (blk st' b2) \<noteq> []" "parents (blk st' b1) \<noteq> []"
      using c(5) by auto
    note q = blk_ok_qc_ref(1) [OF heap_okD(5) [OF core_invD(1) [OF d(4)]]]
    have n: "b2 < nxt (mem st')" "b1 < nxt (mem st')" using q [OF c(1,2)] q [OF _ c(3)] by auto
    have r: "ref_ok st' b1" "ref_ok st' b2" "ref_ok st' (b_exec st')"
      using n p core_invD(6) [OF d(4)] by (simp_all add: ref_ok_def rooted_def)
    note s = seesD [OF d(6)] and h = seesD(1) [OF d(6)]
    have t: "trusted L n F V (hash (blk st' x))" if "y < nxt (mem st')" "qc_ref (blk st' y) = Some x" for x y
      using d(8) that unfolding certs_genuine_def by blast
    have "certified ({..<n} - F) (big_enough n) V (hash (blk st' x))" if "ref_ok st' x" "x \<noteq> b0 st'" "y < nxt (mem st')" "qc_ref (blk st' y) = Some x" for x y
      using t [OF that(3,4)] h [OF that(1,2)] by (simp add: genuine_def)
    note cert = this [OF r(2) c(6) c(1,2)] this [OF r(1) c(7) n(1) c(3)] this [OF r(3) c(8) n(2) c(4)]
    have "parent_of L (hash (blk st' b2)) = hash (blk st' b1)" "parent_of L (hash (blk st' b1)) = hash (blk st' (b_exec st'))"
      "cert_of L (hash (blk st' b2)) = Some (hash (blk st' b1))" "cert_of L (hash (blk st' b1)) = Some (hash (blk st' (b_exec st')))"
      using s(2,3) [OF r(1)] s(2,3) [OF r(2)] c(3,4,6,7) p by simp_all
    moreover have "chained L (hash (blk st' (b_exec st')))" using level_height [OF d(4,6) r(3)] by blast
    ultimately have "committed (parent_of L) (cert_of L) (genesis L) ({..<n} - F) (big_enough n) V (hash (blk st' (b_exec st')))"
      unfolding committed_def using cert h r(1,2) c(6,7) by (intro exI [of _ "hash (blk st' b1)"] exI [of _ "hash (blk st' b2)"]) simp
    then show ?thesis ..
  qed
qed

text \<open>A new signature respects the abstract rule, with the lock after the call.\<close>

lemma lawful_call_signs:
  assumes "lawful_call E L n F V i st st'" "signs st st' r"
  shows "ref_ok st' r" "vheight st < height (blk st' r)" "height (blk st' r) \<le> vheight st'" "lock_allows st' r" "lock_covers st' r"
  using assms(2) lawful_callD(9) [OF assms(1)] by (auto simp: signs_def proposes_safely_def)

lemma lawful_call_ballots:
  assumes "lawful_call E L n F V i st st'" "x \<in> set (ballots (outs st))"
  shows "hash (blk st' x) = hash (blk st x)" "height (blk st' x) = height (blk st x)" "ref_ok st' x"
    "level L (hash (blk st' x)) = unat (height (blk st x))" "height (blk st x) \<le> vheight st"
proof -
  note d = lawful_callD [OF assms(1)]
  have r: "ref_ok st x" "height (blk st x) \<le> vheight st" using replica_okD(9) [OF d(1) assms(2)] by blast+
  then show g: "hash (blk st' x) = hash (blk st x)" "height (blk st' x) = height (blk st x)" "ref_ok st' x" "height (blk st x) \<le> vheight st"
    using evolves_refD [OF d(2) r(1)] by simp_all
  show "level L (hash (blk st' x)) = unat (height (blk st x))" using level_height [OF d(4,6) g(3)] g(2) by simp
qed

lemma lawful_call_safe_vote:
  assumes lc: "lawful_call E L n F V i st st'" and s: "signs st st' r"
  shows "safe_vote (parent_of L) (cert_of L) (genesis L) ({..<n} - F) (big_enough n) V i (hash (blk st' r))"
proof -
  note d = lawful_callD [OF lc] and sg = lawful_call_signs [OF lc s] and lk = lawful_call_lock [OF lc]
  note inv = core_invD [OF d(4)]
  note lr = level_height [OF d(4,6) sg(1)] and ll = level_height [OF d(4,6) inv(5)]
  have up: "level L v < level L (hash (blk st' r))" if v: "(i, v) \<in> set V" for v
  proof -
    obtain x where x: "x \<in> set (ballots (outs st))" "v = hash (blk st x)"
      using v replica_okD(8) [OF d(1), of v] by auto
    show ?thesis using lawful_call_ballots [OF lc x(1)] lr sg(2) x(2) by (simp add: word_less_nat_alt word_le_nat_alt)
  qed
  have "below L (hash (blk st' (b_lock st'))) (hash (blk st' r)) \<or>
    (\<exists>q. cert_of L (hash (blk st' r)) = Some q \<and> trusted L n F V q \<and> below L q (hash (blk st' r)) \<and>
       level L (hash (blk st' (b_lock st'))) < level L q)"
  proof (cases "\<exists>xs. is_path (heap (mem st')) (b_lock st') xs r")
    case True
    then show ?thesis using path_below [OF d(4,6) sg(1)] by blast
  next
    case False
    then obtain q where q: "qc_ref (blk st' r) = Some q" "height (blk st' (b_lock st')) < height (blk st' q)"
      using sg(4) unfolding lock_allows_def by blast
    then obtain xs where xs: "is_path (heap (mem st')) q xs r" using d(7) sg(1) unfolding anchored_def by blast
    note lq = level_height [OF d(4,6) path_ref_ok [OF d(4) sg(1) xs]]
    have "cert_of L (hash (blk st' r)) = Some (hash (blk st' q))" using seesD(3) [OF d(6) sg(1)] q(1) by simp
    moreover have "trusted L n F V (hash (blk st' q))" using d(8) q(1) sg(1) unfolding certs_genuine_def ref_ok_def by blast
    moreover have "level L (hash (blk st' (b_lock st'))) < level L (hash (blk st' q))"
      using ll lq q(2) by (simp add: word_less_nat_alt)
    ultimately show ?thesis using path_below [OF d(4,6) sg(1) xs] by blast
  qed
  moreover have "level L b \<le> level L (hash (blk st' (b_lock st')))"
    if "(i, v) \<in> set V" "cert_of L v = Some c" "cert_of L c = Some b" for v c b
    using replica_okD(10) [OF d(1) that] lk(2) ll by simp
  ultimately show ?thesis unfolding safe_vote_def
    using lr up lk(1) by (intro conjI exI [of _ "hash (blk st' (b_lock st'))"]) blast+
qed

lemma new_ballots_cases:
  assumes "lawful_call E L n F V i st st'"
  obtains "ballots (outs st') = ballots (outs st)" "new_ballots i st st' = []"
  | r where "signs st st' r" "ballots (outs st') = ballots (outs st) @ [r]" "new_ballots i st st' = [(i, hash (blk st' r))]"
proof -
  have "ballots (outs st') = ballots (outs st) \<or> (\<exists>r. signs st st' r)"
    using lawful_callD(3) [OF assms] unfolding call_effect_def by blast
  then show ?thesis
    using that(1) that(2) by (auto simp: new_ballots_def signs_def)
qed

lemma replica_ok_call:
  assumes lc: "lawful_call E L n F V i st st'"
  shows "replica_ok L n F (V @ new_ballots i st st') i st'"
proof -
  note d = lawful_callD [OF lc] and lk = lawful_call_lock [OF lc]
  let ?V = "V @ new_ballots i st st'"
  have sub: "set V \<subseteq> set ?V" by simp
  have old: "(\<lambda>r. hash (blk st' r)) ` set (ballots (outs st)) = (\<lambda>r. hash (blk st r)) ` set (ballots (outs st))"
    using lawful_call_ballots(1) [OF lc] by (auto simp: image_iff)
  have vh: "vheight st \<le> vheight st'" using evolvesD(3) [OF d(2)] by (simp add: progress_def)
  have oldr: "ref_ok st' x \<and> height (blk st' x) \<le> vheight st'" if "x \<in> set (ballots (outs st))" for x
    using lawful_call_ballots [OF lc that] vh by (simp add: order.trans)
  have oldc: "level L b \<le> unat (height (blk st' (b_lock st')))"
    if "(i, v) \<in> set V" "cert_of L v = Some c" "cert_of L c = Some b" for v c b
    using replica_okD(10) [OF d(1) that] lk(2) by simp
  have common: "trusted L n F ?V (hash (blk st' (b_lock st')))"
    "b_exec st' = b0 st' \<or> committed (parent_of L) (cert_of L) (genesis L) ({..<n} - F) (big_enough n) ?V (hash (blk st' (b_exec st')))"
    using genuine_mono [OF lk(1) sub] lawful_call_exec [OF lc] committed_mono [OF _ sub] by blast+
  show ?thesis
  proof (cases rule: new_ballots_cases [OF lc])
    case 1
    then show ?thesis
      using common d oldr oldc replica_okD(8) [OF d(1)] old by (simp add: replica_ok_def)
  next
    case (2 r)
    note sg = lawful_call_signs [OF lc 2(1)]
    have "level L b \<le> unat (height (blk st' (b_lock st')))"
      if "(i, v) \<in> set ?V" "cert_of L v = Some c" "cert_of L c = Some b" for v c b
    proof (cases "(i, v) \<in> set V")
      case False
      then have "v = hash (blk st' r)" using that(1) by (simp add: 2(3))
      then show ?thesis using lock_two_down [OF d(4,6,7,10) sg(1,5)] that by blast
    qed (use oldc that in blast)
    then show ?thesis
      using common d oldr sg replica_okD(8) [OF d(1)] old unfolding replica_ok_def 2(2)
      by (simp add: 2(3))
  qed
qed

section \<open>The invariant of the system\<close>

lemma system_inv:
  assumes "system E L n F anchored S V"
  shows "vote_run (parent_of L) (cert_of L) (genesis L) ({..<n} - F) (big_enough n) V \<and>
    (\<forall>i \<in> {..<n} - F. replica_ok L n F V i (S i))"
  using assms
proof (induction rule: system.induct)
  case (start S)
  have "replica_ok L n F [] i (S i)" if "i \<in> {..<n} - F" for i
    using replica_ok_boot [of E "S i" L n F i] start that by simp
  then show ?case using vote_run.start by simp
next
  case (call S V i st')
  have lc: "lawful_call E L n F V i (S i) st'" using call by (simp add: lawful_call_def)
  have V: "set V \<subseteq> set (V @ new_ballots i (S i) st')" by simp
  have "vote_run (parent_of L) (cert_of L) (genesis L) ({..<n} - F) (big_enough n) (V @ new_ballots i (S i) st')"
  proof (cases rule: new_ballots_cases [OF lc])
    case 1
    then show ?thesis using call.IH by simp
  next
    case (2 r)
    then show ?thesis using vote_run.vote [OF _ lawful_call_safe_vote [OF lc 2(1)]] call.IH by simp
  qed
  moreover have "replica_ok L n F (V @ new_ballots i (S i) st') j ((S(i := st')) j)" if "j \<in> {..<n} - F" for j
  proof (cases "j = i")
    case True
    then show ?thesis using replica_ok_call [OF lc] by simp
  next
    case False
    then have same: "(j, h) \<in> set (V @ new_ballots i (S i) st') \<longleftrightarrow> (j, h) \<in> set V" for h by (auto simp: new_ballots_def)
    have "replica_ok L n F V j (S j)" using call.IH that by blast
    from replica_ok_mono [OF this V same] show ?thesis using False by simp
  qed
  ultimately show ?case by blast
qed

text \<open>Whatever is checked, the history holds every signature of every honest replica.\<close>

lemma system_recorded:
  assumes "system E L n F chk S V" "i \<in> {..<n} - F"
  shows "reachable E (S i) \<and> (\<forall>r \<in> set (ballots (outs (S i))). r < nxt (mem (S i)) \<and> (i, hash (blk (S i) r)) \<in> set V)"
  using assms
proof (induction arbitrary: i rule: system.induct)
  case (start S)
  then have b: "booted E (S i)" by blast
  then have "outs (S i) = []" unfolding booted_def by (elim exE boot_shape)
  moreover have "reachable E (S i)" using b unfolding reachable_def by blast
  ultimately show ?case by simp
next
  case (call S V j st')
  show ?case
  proof (cases "i = j")
    case False
    then show ?thesis using call.IH [OF call.prems] by simp
  next
    case True
    note IH = call.IH [OF call.prems, unfolded True] and step = call.hyps(3) [unfolded core_low_step_def]
    have r: "reachable E (S j)" using IH by blast
    note ev = core_step_evolves [OF conjunct1 [OF step] reachable_inv [OF r] conjunct2 [OF step]]
      and ce = core_step_effect [OF conjunct1 [OF step] reachable_inv [OF r] conjunct2 [OF step]]
    have old: "x < nxt (mem st') \<and> (j, hash (blk st' x)) \<in> set V" if "x \<in> set (ballots (outs (S j)))" for x
      using IH that evolvesD(3) [OF ev] by (auto simp: progress_def graph_grows_def)
    have "ballots (outs st') = ballots (outs (S j)) \<or> (\<exists>x. ballots (outs st') = ballots (outs (S j)) @ [x] \<and> x < nxt (mem st'))"
      using ce by (auto simp: call_effect_def signs_def ref_ok_def)
    then have "\<forall>x \<in> set (ballots (outs st')). x < nxt (mem st') \<and> (j, hash (blk st' x)) \<in> set (V @ new_ballots j (S j) st')"
      using old by (auto simp: new_ballots_def)
    moreover have "reachable E st'"
      using r call.hyps(3) unfolding reachable_def by (blast intro: rtranclp.rtrancl_into_rtrancl)
    ultimately show ?thesis using True by simp
  qed
qed

section \<open>Logs\<close>

text \<open>The hashes on the way from the genesis block to a block.\<close>

definition log_to :: "ledger \<Rightarrow> uint256 \<Rightarrow> uint256 list" where
  "log_to L h = rev (map (\<lambda>k. (parent_of L ^^ k) h) [0..<level L h])"

lemma log_to_step:
  assumes "chained L (parent_of L h)" "h \<noteq> genesis L"
  shows "log_to L h = log_to L (parent_of L h) @ [h]"
proof -
  note d = grounded_step(2) [OF assms]
  have "map (\<lambda>k. (parent_of L ^^ k) h) [0..<Suc m] = h # map (\<lambda>k. (parent_of L ^^ k) (parent_of L h)) [0..<m]" for m
    by (induction m) (simp_all add: funpow_swap1)
  then show ?thesis by (simp add: log_to_def d)
qed

lemma log_to_below:
  assumes "below L a b" "chained L b"
  shows "prefix (log_to L a) (log_to L b)"
proof -
  obtain k where k: "k \<le> level L b" "(parent_of L ^^ k) b = a" using assms(1) unfolding anc_def by blast
  note d = depth_walk(2) [OF assms(2) k(1)]
  have split: "[0..<level L b] = [0..<k] @ map (\<lambda>j. j + k) [0..<level L b - k]"
    using k(1) map_add_upt [of k "level L b - k"] upt_add_eq_append [of 0 k "level L b - k"] by simp
  have "log_to L b = log_to L a @ rev (map (\<lambda>k. (parent_of L ^^ k) b) [0..<k])"
    unfolding log_to_def split using d k(2) by (simp add: comp_def funpow_add)
  then show ?thesis by simp
qed

lemma log_of_path:
  assumes "core_inv st" "sees L st" "ref_ok st b" "is_path (heap (mem st)) (b0 st) xs b"
  shows "map (\<lambda>r. hash (blk st r)) xs = log_to L (hash (blk st b))"
  using assms(3,4)
proof (induction xs arbitrary: b rule: rev_induct)
  case Nil
  then show ?case using assms(2) by (simp add: log_to_def sees_def)
next
  case (snoc x xs)
  then obtain p ps where p: "x = b" "parents (blk st b) = p # ps" "is_path (heap (mem st)) (b0 st) xs p"
    unfolding is_path_snoc by blast
  then have n: "b \<noteq> b0 st" using heap_okD(4) [OF core_invD(1) [OF assms(1)]] by auto
  then have rp: "ref_ok st p" using ref_ok_parent [OF assms(1) snoc.prems(1)] p(2) by (metis list.inject)
  have "parent_of L (hash (blk st b)) = hash (blk st p)" "hash (blk st b) \<noteq> genesis L"
    using seesD(1,2) [OF assms(2) snoc.prems(1) n] p(2) by simp_all
  then show ?case
    using snoc.IH [OF rp p(3)] log_to_step [of L "hash (blk st b)"] level_height [OF assms(1,2) rp] p(1) by simp
qed

definition executed_hashes :: "('p, 'k, 's, 'b) core \<Rightarrow> uint256 list" where
  "executed_hashes st = map (\<lambda>r. hash (blk st r)) (executed (outs st))"

definition decided_cmds :: "('p, 'k, 's, 'b) core \<Rightarrow> uint256 list" where
  "decided_cmds st = map fin_cmd_hash (decided (outs st))"

lemma finalities_cmds: "map fin_cmd_hash (finalities st r) = cmds (blk st r)"
  by (simp add: finalities_def comp_def map_nth)

lemma decided_cmds_log:
  assumes "core_inv st" "sees L st"
  shows "decided_cmds st = concat (map (cmds_of L) (executed_hashes st))"
proof -
  have "decided_cmds st = concat (map (\<lambda>r. cmds (blk st r)) (executed (outs st)))"
    using core_invD(3) [OF assms(1)]
    by (simp add: decided_cmds_def log_ok_def map_concat comp_def finalities_cmds)
  moreover have "map (\<lambda>r. cmds (blk st r)) (executed (outs st)) = map (cmds_of L) (executed_hashes st)"
    using seesD(4) [OF assms(2)] executed_ref_ok(1) [OF assms(1)] by (simp add: executed_hashes_def)
  ultimately show ?thesis by simp
qed

lemma executed_hashes_log:
  assumes "core_inv st" "sees L st"
  shows "executed_hashes st = log_to L (hash (blk st (b_exec st)))"
  using log_of_path [OF assms core_invD(6) [OF assms(1)]] core_invD(3) [OF assms(1)]
  by (simp add: executed_hashes_def log_ok_def)

lemma executed_below:
  assumes "system E L n F anchored S V" "finite F" "card F \<le> (n - 1) div 3" "i \<in> {..<n} - F" "j \<in> {..<n} - F"
  shows "below L (hash (blk (S i) (b_exec (S i)))) (hash (blk (S j) (b_exec (S j)))) \<or>
    below L (hash (blk (S j) (b_exec (S j)))) (hash (blk (S i) (b_exec (S i))))"
proof -
  note si = system_inv [OF assms(1)]
  have ok: "replica_ok L n F V i (S i)" "replica_ok L n F V j (S j)" using si assms(4,5) by blast+
  have g: "chained L (hash (blk (S k) (b_exec (S k))))" "hash (blk (S k) (b0 (S k))) = genesis L" if "replica_ok L n F V k (S k)" for k
    using level_height [OF replica_okD(1,3) [OF that] core_invD(6) [OF replica_okD(1) [OF that]]] replica_okD(3) [OF that]
    by (simp_all add: sees_def)
  have "finite F \<and> card F \<le> (n - 1) div 3 \<and> 0 < n" using assms(2-4) by auto
  note chain = bft.committed_chain [OF this conjunct1 [OF si]]
  from replica_okD(7) [OF ok(1)] replica_okD(7) [OF ok(2)] show ?thesis
    using chain anc_genesis [OF g(1) [OF ok(1)]] anc_genesis [OF g(1) [OF ok(2)]] g(2) [OF ok(1)] g(2) [OF ok(2)]
    by (elim disjE) simp_all
qed

lemma prefix_concat_map: "prefix xs ys \<Longrightarrow> prefix (concat (map f xs)) (concat (map f ys))"
  by (auto simp: prefix_def)

lemma logs_below:
  assumes "system E L n F anchored S V" "i \<in> {..<n} - F" "j \<in> {..<n} - F"
    and "below L (hash (blk (S i) (b_exec (S i)))) (hash (blk (S j) (b_exec (S j))))"
  shows "prefix (executed_hashes (S i)) (executed_hashes (S j)) \<and> prefix (decided_cmds (S i)) (decided_cmds (S j))"
proof -
  have ok: "replica_ok L n F V k (S k)" if "k \<in> {..<n} - F" for k using system_inv [OF assms(1)] that by blast
  have log: "executed_hashes (S k) = log_to L (hash (blk (S k) (b_exec (S k))))" "chained L (hash (blk (S k) (b_exec (S k))))"
      "decided_cmds (S k) = concat (map (cmds_of L) (executed_hashes (S k)))" if "k \<in> {..<n} - F" for k
    using executed_hashes_log decided_cmds_log level_height core_invD(6) replica_okD(1,3) [OF ok [OF that]] by blast+
  show ?thesis
    using log_to_below [OF assms(4)] prefix_concat_map log [OF assms(2)] log [OF assms(3)] by metis
qed

end
