(* ===== verification/Hs_Fork.thy ===== *)
theory Hs_Fork
  imports Hs_System Hs_Scenario
begin

text \<open>
  Computed runs of four replicas, replica 0 faulty: one in which the replicas agree, and one in
  which every premise of the system but \<open>anchored\<close> holds and two replicas execute
  different blocks.
\<close>

section \<open>A computable environment\<close>

text \<open>One-byte integers and hashes; the hash of a block is that of its first command.\<close>

definition mini_env :: "(uint256, uint256, uint256, bool list) env" where
  "mini_env = sample_env\<lparr>put_int := \<lambda>k v. [of_nat v], put_u256 := \<lambda>h. [ucast h],
     get_int := \<lambda>k s. case s of [] \<Rightarrow> None | b # s' \<Rightarrow> Some (unat b, s'),
     get_u256 := \<lambda>s. case s of [] \<Rightarrow> None | b # s' \<Rightarrow> Some (ucast b, s'),
     sha256 := \<lambda>bs. if 3 < length bs then ucast (bs ! 3) else 0\<rparr>"

definition start_at :: "nat \<Rightarrow> sample_core res" where
  "start_at i = boot mini_env NoSig (of_nat i) 7 0 0 (0, 0) 2 0 0 [(0, 0, 7), (1, 1, 7), (2, 2, 7), (3, 3, 7)] 1"

text \<open>The moves of a replica: a block with a parent, a command and a certificate arrives from the network, is
  delivered, is proposed; \<open>Voted\<close> checks that the replica has signed a hash.\<close>

datatype move = Fetch u8 u8 u8 | Deliver blkref | Receive blkref | Voted uint256

fun run_move :: "move \<Rightarrow> sample_core \<Rightarrow> sample_core res" where
  "run_move (Fetch p c q) st =
     bind (block_unserialize mini_env (sch st) [1, p, 1, c, 1, q, 1, 0]) (\<lambda>(b, s').
       checked True (st\<lparr>mem := snd (add_blk_move b (mem st))\<rparr>))"
| "run_move (Deliver r) st = bind (on_deliver_blk r (0, 0) st) (\<lambda>(b, st'). checked (r < nxt (mem st)) st')"
| "run_move (Receive r) st =
     bind (on_receive_proposal mini_env \<lparr>proposer = 0, prop_blk = r\<rparr> st) (checked (r < nxt (mem st)))"
| "run_move (Voted h) st = (if h \<in> (\<lambda>r. hash (blk st r)) ` set (ballots (outs st)) then Inr st else Inl AssertFail)"

text \<open>The premises of a step, for one block: the hashes stand for the blocks of \<open>L\<close>, the certificate
  is for a block in \<open>C\<close>, and with \<open>dir\<close> it is for the first parent.\<close>

definition fits :: "ledger \<Rightarrow> uint256 list \<Rightarrow> bool \<Rightarrow> sample_core \<Rightarrow> blkref \<Rightarrow> bool" where
  "fits L C dir st r \<longleftrightarrow>
     (rooted (mem st) (b0 st) r \<longrightarrow>
        (r = b0 st \<or> hash (blk st r) \<noteq> genesis L \<and>
           parent_of L (hash (blk st r)) = hash (blk st (hd (parents (blk st r))))) \<and>
        cert_of L (hash (blk st r)) = map_option (\<lambda>q. hash (blk st q)) (qc_ref (blk st r)) \<and>
        cmds_of L (hash (blk st r)) = cmds (blk st r)) \<and>
     (case qc_ref (blk st r) of None \<Rightarrow> True
      | Some q \<Rightarrow> (hash (blk st q) = genesis L \<or> hash (blk st q) \<in> set C) \<and>
          (dir \<longrightarrow> r = q \<or> (\<exists>ps. parents (blk st r) = q # ps)))"

definition tracked :: "ledger \<Rightarrow> uint256 list \<Rightarrow> bool \<Rightarrow> sample_core \<Rightarrow> bool" where
  "tracked L C dir st \<longleftrightarrow> core_inv st \<and> low st \<and> hash (blk st (b0 st)) = genesis L \<and> proposals (outs st) = [] \<and>
     (\<forall>r < nxt (mem st). fits L C dir st r)"

text \<open>Only delivery fills in the pointers of a block, so only there is something to check.\<close>

fun guided :: "ledger \<Rightarrow> bool \<Rightarrow> uint256 list \<times> move \<Rightarrow> sample_core \<Rightarrow> sample_core res" where
  "guided L dir (C, m) st =
     bind (run_move m st) (\<lambda>st'.
       if (case m of Deliver r \<Rightarrow> fits L C dir st' r | _ \<Rightarrow> True) then Inr st' else Inl AssertFail)"

definition connection_check :: "bool \<Rightarrow> sample_core \<Rightarrow> bool" where
  "connection_check dir st \<longleftrightarrow> (dir \<longrightarrow> anchored st)"

lemma run_move_step:
  assumes "run_move m st = Inr st'"
  shows "st' = st \<or> core_low_step mini_env st st'"
proof (cases m)
  case (Fetch p c q)
  then obtain b s' where "block_unserialize mini_env (sch st) [1, p, 1, c, 1, q, 1, 0] = Inr (b, s')"
    "st' = st\<lparr>mem := snd (add_blk_move b (mem st))\<rparr>" "low st'"
    using assms by (auto simp: bind_Inr_iff checked_def split: if_splits)
  then show ?thesis using core_step.fetch [of mini_env st _ b s' "fst (add_blk_move b (mem st))"]
    by (auto simp: core_low_step_def)
qed (use assms in \<open>auto simp: bind_Inr_iff checked_def core_low_step_def split: if_splits
  intro: core_step.deliver core_step.proposal\<close>)

lemma fits_same:
  assumes "blk_view (blk st' r) = blk_view (blk st r)" "b0 st' = b0 st" "core_inv st" "r < nxt (mem st)"
    and h: "\<forall>x < nxt (mem st). hash (blk st' x) = hash (blk st x)"
  shows "fits L C dir st' r = fits L C dir st r"
proof -
  note ok = heap_okD(5) [OF core_invD(1) [OF assms(3)] assms(4)]
  have v: "hash (blk st' r) = hash (blk st r)" "parents (blk st' r) = parents (blk st r)"
    "qc_ref (blk st' r) = qc_ref (blk st r)" "cmds (blk st' r) = cmds (blk st r)"
    using assms(1) by (simp_all add: blk_view_def)
  have "hash (blk st' q) = hash (blk st q)" if "qc_ref (blk st r) = Some q" for q
    using h blk_ok_qc_ref(1) [OF ok that] by blast
  moreover have "hash (blk st' (hd (parents (blk st r)))) = hash (blk st (hd (parents (blk st r))))"
    if "rooted (mem st) (b0 st) r" "r \<noteq> b0 st"
    using that h blk_ok_parent(1) [OF ok] by (cases "parents (blk st r)") (auto simp: rooted_def)
  ultimately show ?thesis unfolding fits_def rooted_def v assms(2)
    by (cases "qc_ref (blk st r)") (auto simp: rooted_def)
qed

lemma tracked_move:
  assumes g: "guided L dir (C, m) st = Inr st'" and t: "tracked L C dir st"
  shows "tracked L C dir st'"
proof (cases "st' = st")
  case False
  have rm: "run_move m st = Inr st'" and chk: "case m of Deliver r \<Rightarrow> fits L C dir st' r | _ \<Rightarrow> True"
    using g by (auto simp: bind_Inr_iff split: if_splits)
  note i = t [unfolded tracked_def]
  have st: "core_step mini_env st st'" "low st'" using run_move_step [OF rm] False by (auto simp: core_low_step_def)
  have ev: "evolves st st'" by (rule core_step_evolves [OF st(1) _ _ st(2)]) (use i in simp_all)
  have h: "\<forall>x < nxt (mem st). hash (blk st' x) = hash (blk st x)" and b: "b0 st' = b0 st"
    using evolvesD(3) [OF ev] by (simp_all add: progress_def graph_grows_def)
  have same: "fits L C dir st' r" if "r < nxt (mem st)" "blk_view (blk st' r) = blk_view (blk st r)" for r
    using fits_same [OF that(2) b _ that(1) h] i that(1) by simp
  have "(\<forall>r < nxt (mem st'). fits L C dir st' r) \<and> proposals (outs st') = []"
  proof (cases m)
    case (Fetch p c q)
    then obtain d s' where d: "block_unserialize mini_env (sch st) [1, p, 1, c, 1, q, 1, 0] = Inr (d, s')"
      and st': "st' = st\<lparr>mem := snd (add_blk_move d (mem st))\<rparr>"
      using rm by (auto simp: bind_Inr_iff checked_def split: if_splits)
    note am = add_blk_move_steps [of d "mem st" "fst (add_blk_move d (mem st))" "snd (add_blk_move d (mem st))"]
    have "parents d = []" "qc_ref d = None" using d by (auto simp: block_unserialize_def Block_default_def bind_Inr_iff)
    moreover have "nxt (mem st) \<noteq> b0 st" using heap_okD(1) [OF core_invD(1)] i by fastforce
    ultimately have "fits L C dir st' (nxt (mem st))" using am(2) by (simp add: fits_def rooted_def st')
    then show ?thesis using same am(1,2) i by (auto simp: st' less_Suc_eq)
  next
    case (Deliver r)
    then obtain b' where dl: "on_deliver_blk r (0, 0) st = Inr (b', st')" and r: "r < nxt (mem st)"
      using rm by (auto simp: bind_Inr_iff checked_def split: if_splits)
    from dl _ r obtain ps q where m': "mem st' = connect r ps q (mem st)"
      by (rule on_deliver_blk_steps) (use i False in auto)
    have "fits L C dir st' x" if "x < nxt (mem st)" for x
    proof (cases "x = r")
      case True
      then show ?thesis using chk Deliver by simp
    next
      case False
      then show ?thesis using same [OF that] by (simp add: m' connect_def)
    qed
    moreover have "nxt (mem st') = nxt (mem st)" by (simp add: m' connect_def)
    ultimately show ?thesis using idle_on_deliver_blk [OF dl] i by (simp add: idle_def)
  next
    case (Receive r)
    then have rp: "on_receive_proposal mini_env \<lparr>proposer = 0, prop_blk = r\<rparr> st = Inr st'" and r: "r < nxt (mem st)"
      using rm by (auto simp: bind_Inr_iff checked_def split: if_splits)
    from rp obtain s1 op where u: "update r st = Inr s1" and st': "st' = answer_proposal mini_env \<lparr>proposer = 0, prop_blk = r\<rparr> op s1"
      by (auto simp: on_receive_proposal_stages bind_Inr_iff)
    have "graph_eq (mem st) (mem st')" using graph_eq_update [OF u] by (simp add: st')
    then have "\<forall>r. blk_view (blk st' r) = blk_view (blk st r)" "nxt (mem st') = nxt (mem st)" by (simp_all add: graph_eq_def)
    moreover have "proposals (outs st') = proposals (outs st)"
      using update_lock(4) [OF u _ r] i
      by (simp add: st' answer_proposal_def on_qc_finish_def Let_def split: option.split)
    ultimately show ?thesis using same i by simp
  next
    case (Voted h)
    then show ?thesis using rm False by (auto split: if_splits)
  qed
  moreover have "hash (blk st' (b0 st')) = genesis L" using h b i heap_okD(1) [OF core_invD(1) [OF evolvesD(1) [OF ev]]] by simp
  ultimately show ?thesis using evolvesD(2) [OF ev] st(2) by (simp add: tracked_def)
qed (use t in simp)

lemma trackedD:
  assumes "tracked L C dir st"
  shows "sees L st" "proposals (outs st) = []" "connection_check dir st"
    and "\<forall>h \<in> set C. trusted L n F V h \<Longrightarrow> certs_genuine L n F V st"
proof -
  have f: "fits L C dir st r" if "r < nxt (mem st)" for r using assms that by (simp add: tracked_def)
  show "sees L st" unfolding sees_def
    using assms f by (auto simp: tracked_def fits_def ref_ok_def)
  show "proposals (outs st) = []" using assms by (simp add: tracked_def)
  show "connection_check dir st" unfolding connection_check_def anchored_def
  proof (intro impI allI)
    fix r q assume "dir" "ref_ok st r" "qc_ref (blk st r) = Some q"
    then have "r = q \<or> (\<exists>ps. parents (blk st r) = q # ps)" using f [of r] by (simp add: fits_def ref_ok_def)
    then show "\<exists>xs. is_path (heap (mem st)) q xs r"
    proof
      assume "r = q"
      then have "is_path (heap (mem st)) q [] r" by simp
      then show ?thesis ..
    next
      assume "\<exists>ps. parents (blk st r) = q # ps"
      then have "is_path (heap (mem st)) q [r] r" by simp
      then show ?thesis ..
    qed
  qed
  show "certs_genuine L n F V st" if "\<forall>h \<in> set C. trusted L n F V h"
    unfolding certs_genuine_def
  proof (intro allI impI)
    fix r q assume "r < nxt (mem st)" "qc_ref (blk st r) = Some q"
    then have "hash (blk st q) = genesis L \<or> hash (blk st q) \<in> set C" using f [of r] by (simp add: fits_def)
    then show "trusted L n F V (hash (blk st q))" using that by (auto simp: genuine_def)
  qed
qed

lemma tracked_mono: "tracked L C dir st \<Longrightarrow> set C \<subseteq> set C' \<Longrightarrow> tracked L C' dir st"
  by (fastforce simp: tracked_def fits_def split: option.splits)

text \<open>A guided move of an honest replica is a step of the system, or none.\<close>

lemma guided_system:
  assumes "fold_res (guided L dir) (map (Pair C) ms) (S i) = Inr st'"
    and "system mini_env L n F (connection_check dir) S V" "i \<in> {..<n} - F"
    and "\<forall>h \<in> set C. trusted L n F V h" "tracked L C dir (S i)"
  shows "\<exists>W. system mini_env L n F (connection_check dir) (S(i := st')) (V @ W) \<and> tracked L C dir st'"
  using assms
proof (induction ms arbitrary: S V)
  case Nil
  then have "S(i := st') = S" by auto
  then show ?case using Nil.prems by (intro exI [of _ "[]"]) (simp del: fun_upd_apply)
next
  case (Cons m ms)
  from Cons.prems(1) obtain s where m: "guided L dir (C, m) (S i) = Inr s" "run_move m (S i) = Inr s"
    and ms: "fold_res (guided L dir) (map (Pair C) ms) s = Inr st'"
    by (auto simp: bind_Inr_iff split: if_splits)
  note tr = tracked_move [OF m(1) Cons.prems(5)]
  note so = trackedD [OF tr]
  have "\<exists>W. system mini_env L n F (connection_check dir) (S(i := s)) (V @ W)"
  proof (cases "s = S i")
    case True
    then show ?thesis using Cons.prems(2) by (intro exI [of _ "[]"]) simp
  next
    case False
    then have "core_low_step mini_env (S i) s" using run_move_step [OF m(2)] by blast
    then have "system mini_env L n F (connection_check dir) (S(i := s)) (V @ new_ballots i (S i) s)"
      using so(1-3) so(4) [OF Cons.prems(4)]
      by (intro system.call [OF Cons.prems(2,3)]) (simp_all add: proposes_safely_def)
    then show ?thesis ..
  qed
  then obtain W where W: "system mini_env L n F (connection_check dir) (S(i := s)) (V @ W)" ..
  have C: "\<forall>h \<in> set C. trusted L n F (V @ W) h" using Cons.prems(4) genuine_mono [of _ _ _ V _ "V @ W"] by simp
  have "fold_res (guided L dir) (map (Pair C) ms) ((S(i := s)) i) = Inr st'" using ms by simp
  from Cons.IH [OF this W Cons.prems(3) C] tr show ?case by (metis append.assoc fun_upd_same fun_upd_upd)
qed

lemma voted_recorded:
  assumes "system E L n F chk S V" "i \<in> {..<n} - F" "h \<in> (\<lambda>r. hash (blk (S i) r)) ` set (ballots (outs (S i)))"
  shows "(i, h) \<in> set V"
  using system_recorded [OF assms(1,2)] assms(3) by auto

text \<open>Two signatures of honest replicas and that of the faulty one certify a block.\<close>

lemma trusted_four:
  assumes "(i, h) \<in> set V" "(j, h) \<in> set V" "i \<noteq> j" "i \<in> {..<4} - {0}" "j \<in> {..<4} - {0}"
  shows "trusted L 4 {0} V h"
proof -
  have "card {0, i, j} = 3" using assms(3-5) by auto
  then have "big_enough 4 {0, i, j}" using assms(4,5) by (auto simp: big_enough_def)
  then have "certified ({..<4} - {0}) (big_enough 4) V h"
    unfolding certified_def using assms(1,2) by (intro exI [of _ "{0, i, j}"]) auto
  then show ?thesis by (simp add: genuine_def)
qed

section \<open>Schedules\<close>

text \<open>A stage: some moves, and the hashes certified when they happen. The state of a replica after
  the first stages of its schedule.\<close>

type_synonym stage = "uint256 list \<times> move list"

definition run_stages :: "ledger \<Rightarrow> bool \<Rightarrow> nat \<Rightarrow> stage list \<Rightarrow> sample_core res" where
  "run_stages L dir i ss = bind (start_at i) (fold_res (guided L dir) (concat (map (\<lambda>(C, ms). map (Pair C) ms) ss)))"

definition state_after :: "ledger \<Rightarrow> bool \<Rightarrow> stage list \<Rightarrow> nat \<Rightarrow> sample_core" where
  "state_after L dir ss i = projr (run_stages L dir i ss)"

lemma run_stages_snoc:
  assumes "run_stages L dir i (ss @ [(C, ms)]) = Inr st'"
  shows "run_stages L dir i ss = Inr (state_after L dir ss i)"
    and "fold_res (guided L dir) (map (Pair C) ms) (state_after L dir ss i) = Inr st'"
  using assms by (auto simp: run_stages_def state_after_def fold_res_append bind_Inr_iff)

lemma run_stages_prefix:
  assumes "run_stages L dir i (ss @ ts) = Inr st'"
  shows "run_stages L dir i ss = Inr (state_after L dir ss i)"
  using assms by (auto simp: run_stages_def state_after_def fold_res_append bind_Inr_iff)

text \<open>The replicas \<open>is\<close> are about to run a stage, with the certificates it needs.\<close>

definition ready_for ::
  "ledger \<Rightarrow> bool \<Rightarrow> (nat \<Rightarrow> sample_core) \<Rightarrow> (nat \<times> uint256) list \<Rightarrow> nat list \<Rightarrow> stage list \<Rightarrow> uint256 list \<Rightarrow> bool" where
  "ready_for L dir S V is ss C \<longleftrightarrow> system mini_env L 4 {0} (connection_check dir) S V \<and>
     set is \<subseteq> {..<4} - {0} \<and> distinct is \<and> (\<forall>h \<in> set C. trusted L 4 {0} V h) \<and>
     (\<forall>i \<in> set is. S i = state_after L dir ss i \<and> tracked L C dir (S i))"

lemma stage_system:
  assumes "ready_for L dir S V is ss C" "\<forall>i \<in> set is. run_stages L dir i (ss @ [(C, ms)]) = Inr (state_after L dir (ss @ [(C, ms)]) i)"
  shows "\<exists>W. ready_for L dir (\<lambda>i. if i \<in> set is then state_after L dir (ss @ [(C, ms)]) i else S i) (V @ W) is (ss @ [(C, ms)]) C"
  using assms
proof (induction "is" rule: rev_induct)
  case Nil
  then show ?case by (intro exI [of _ "[]"]) (simp add: ready_for_def)
next
  case (snoc i "is")
  let ?f = "state_after L dir (ss @ [(C, ms)])"
  let ?S = "\<lambda>i. if i \<in> set is then ?f i else S i"
  have r: "ready_for L dir S V is ss C" using snoc.prems(1) unfolding ready_for_def by auto
  from snoc.IH [OF r] snoc.prems(2) obtain W where W: "ready_for L dir ?S (V @ W) is (ss @ [(C, ms)]) C" by auto
  have i: "i \<in> {..<4} - {0}" "i \<notin> set is" "S i = state_after L dir ss i" "tracked L C dir (S i)"
    using snoc.prems(1) by (auto simp: ready_for_def)
  have "fold_res (guided L dir) (map (Pair C) ms) (?S i) = Inr (?f i)"
    using i(2,3) run_stages_snoc(2) [of L dir i ss C ms "?f i"] snoc.prems(2) by simp
  moreover have "system mini_env L 4 {0} (connection_check dir) ?S (V @ W)" "\<forall>h \<in> set C. trusted L 4 {0} (V @ W) h"
    using W by (simp_all add: ready_for_def)
  moreover have "tracked L C dir (?S i)" using i(2,4) by simp
  ultimately obtain W' where W': "system mini_env L 4 {0} (connection_check dir) (?S(i := ?f i)) ((V @ W) @ W')" "tracked L C dir (?f i)"
    using guided_system [of L dir C ms ?S i "?f i" 4 "{0}" "V @ W"] i(1) by blast
  have "trusted L 4 {0} ((V @ W) @ W') h" if "h \<in> set C" for h
    by (rule genuine_mono [of _ _ _ "V @ W"]) (use W that in \<open>auto simp: ready_for_def\<close>)
  then have C: "\<forall>h \<in> set C. trusted L 4 {0} ((V @ W) @ W') h" by blast
  have eq: "?S(i := ?f i) = (\<lambda>j. if j \<in> set (is @ [i]) then ?f j else S j)" by (auto simp: fun_eq_iff)
  have "ready_for L dir (?S(i := ?f i)) ((V @ W) @ W') (is @ [i]) (ss @ [(C, ms)]) C"
    using W W' C snoc.prems(1) i(2) unfolding ready_for_def by auto
  then show ?case unfolding eq by (intro exI [of _ "W @ W'"]) simp
qed

lemma run_stages_voted:
  assumes "run_stages L dir i (ss @ [(C, ms @ [Voted h])]) = Inr st'"
  shows "h \<in> (\<lambda>r. hash (blk st' r)) ` set (ballots (outs st'))"
  using run_stages_snoc(2) [OF assms] by (auto simp: fold_res_append bind_Inr_iff split: if_splits)

text \<open>A stage after which two honest replicas have signed a hash.\<close>

lemma stage_certifies:
  assumes "ready_for L dir S V is ss C" "{i, j} \<subseteq> set is" "i \<noteq> j"
    and run: "\<forall>i \<in> set is. run_stages L dir i (ss @ [(C, ms @ [Voted h])]) = Inr (state_after L dir (ss @ [(C, ms @ [Voted h])]) i)"
  shows "\<exists>W. ready_for L dir (\<lambda>i. if i \<in> set is then state_after L dir (ss @ [(C, ms @ [Voted h])]) i else S i) (V @ W) is
    (ss @ [(C, ms @ [Voted h])]) (h # C)"
proof -
  let ?f = "state_after L dir (ss @ [(C, ms @ [Voted h])])"
  let ?S = "\<lambda>i. if i \<in> set is then ?f i else S i"
  obtain W where W: "ready_for L dir ?S (V @ W) is (ss @ [(C, ms @ [Voted h])]) C" using stage_system [OF assms(1) run] by blast
  have sys: "system mini_env L 4 {0} (connection_check dir) ?S (V @ W)" and sub: "set is \<subseteq> {..<4} - {0}"
    using W by (simp_all add: ready_for_def)
  have v: "(k, h) \<in> set (V @ W)" if "k \<in> set is" for k
    by (rule voted_recorded [OF sys]) (use that sub run run_stages_voted [of L dir k ss C ms h "?f k"] in auto)
  have ij: "i \<in> set is" "j \<in> set is" using assms(2) by auto
  then have "trusted L 4 {0} (V @ W) h"
    using trusted_four [OF v v assms(3)] sub by blast
  moreover have "tracked L (h # C) dir (?S k)" if "k \<in> set is" for k
    using W that tracked_mono [of L C dir "?S k" "h # C"] unfolding ready_for_def by auto
  ultimately show ?thesis using W unfolding ready_for_def by (intro exI [of _ W]) simp
qed

text \<open>A list of stages, each relying on the certificates formed before it and ending with a vote.\<close>

fun linked :: "uint256 list \<Rightarrow> stage list \<Rightarrow> uint256 list option" where
  "linked C [] = Some C"
| "linked C ((C', ms) # ts) =
     (case rev ms of Voted h # _ \<Rightarrow> if C' = C then linked (h # C) ts else None | _ \<Rightarrow> None)"

definition joined :: "(nat \<Rightarrow> sample_core) \<Rightarrow> nat list \<Rightarrow> (nat \<Rightarrow> sample_core) \<Rightarrow> nat \<Rightarrow> sample_core" where
  "joined S is f = (\<lambda>i. if i \<in> set is then f i else S i)"

lemma joined_same: "\<forall>i \<in> set is. S i = f i \<Longrightarrow> joined S is f = S"
  by (auto simp: joined_def fun_eq_iff)

lemma joined_joined [simp]: "joined (joined S is f) is g = joined S is g"
  by (auto simp: joined_def fun_eq_iff)

lemma stages_run:
  assumes "ready_for L dir S V is ss C" "linked C ts = Some D" "{i, j} \<subseteq> set is" "i \<noteq> j"
    and "\<forall>i \<in> set is. \<exists>st. run_stages L dir i (ss @ ts) = Inr st"
  shows "\<exists>W. ready_for L dir (joined S is (state_after L dir (ss @ ts))) W is (ss @ ts) D"
  using assms
proof (induction ts arbitrary: S V ss C)
  case Nil
  then have "joined S is (state_after L dir ss) = S" by (intro joined_same) (simp add: ready_for_def)
  then show ?case using Nil by auto
next
  case (Cons t ts)
  obtain C' ms where t: "t = (C', ms)" by fastforce
  from Cons.prems(2) obtain h ms' where ms: "rev ms = Voted h # ms'" "C' = C" "linked (h # C) ts = Some D"
    by (auto simp: t split: list.splits move.splits if_splits)
  then have ms: "ms = rev ms' @ [Voted h]" "C' = C" "linked (h # C) ts = Some D" by (metis rev.simps(2) rev_rev_ident)+
  have "run_stages L dir i (ss @ [t]) = Inr (state_after L dir (ss @ [t]) i)" if "i \<in> set is" for i
    using Cons.prems(5) that run_stages_prefix [of L dir i "ss @ [t]" ts] by auto
  then obtain W where "ready_for L dir (joined S is (state_after L dir (ss @ [t]))) (V @ W) is (ss @ [t]) (h # C)"
    using stage_certifies [OF Cons.prems(1,3,4), of "rev ms'" h] unfolding t ms(1,2) joined_def by blast
  from Cons.IH [OF this ms(3) Cons.prems(3,4)] Cons.prems(5) show ?case by simp
qed

section \<open>The blocks\<close>

text \<open>The chain 1, 2, 3, 4, 5, each certifying its parent, and the fork 11, 12, 13 with the genesis
  certificate, 14 with the certificate of block 2, and 15, 16, 17, each certifying its parent.\<close>

definition block_table :: "(uint256 \<times> uint256 \<times> uint256) list" where
  "block_table = [(0, 0, 0), (1, 0, 0), (2, 1, 1), (3, 2, 2), (4, 3, 3), (5, 4, 4),
     (11, 0, 0), (12, 11, 0), (13, 12, 0), (14, 13, 2), (15, 14, 14), (16, 15, 15), (17, 16, 16)]"

definition sample_ledger :: ledger where
  "sample_ledger = \<lparr>parent_of = \<lambda>h. case map_of block_table h of None \<Rightarrow> 0 | Some (p, q) \<Rightarrow> p,
     cert_of = \<lambda>h. case map_of block_table h of None \<Rightarrow> None | Some (p, q) \<Rightarrow> Some q,
     cmds_of = \<lambda>h. if h = 0 then [] else [h], genesis = 0\<rparr>"

definition on_chain :: "stage list" where
  "on_chain = [([], [Fetch 0 1 0, Deliver 1, Receive 1, Voted 1]), ([1], [Fetch 1 2 1, Deliver 2, Receive 2, Voted 2]),
     ([2, 1], [Fetch 2 3 2, Deliver 3, Receive 3, Voted 3])]"

definition commit_chain :: "stage list" where
  "commit_chain = [([3, 2, 1], [Fetch 3 4 3, Deliver 4, Receive 4, Voted 4])]"

definition on_fork :: "stage list" where
  "on_fork = [([3, 2, 1], [Fetch 0 11 0, Deliver 4, Fetch 11 12 0, Deliver 5, Fetch 12 13 0, Deliver 6,
       Fetch 13 14 2, Deliver 7, Receive 7, Voted 14]),
     ([14, 3, 2, 1], [Fetch 14 15 14, Deliver 8, Receive 8, Voted 15]),
     ([15, 14, 3, 2, 1], [Fetch 15 16 15, Deliver 9, Receive 9, Voted 16]),
     ([16, 15, 14, 3, 2, 1], [Fetch 16 17 16, Deliver 10, Receive 10, Voted 17])]"

lemmas move_eval = start_at_def boot_eval core_eval check_eval mini_env_def add_blk_move_def block_unserialize_def
  get_len_def dummy_unserialize_def fits_def sample_ledger_def block_table_def run_stages_def
  on_chain_def commit_chain_def on_fork_def executed_hashes_def

lemma chain_run:
  "\<exists>st. run_stages sample_ledger dir i (on_chain @ commit_chain) = Inr st \<and> executed_hashes st = [1]"
  by (simp add: move_eval)

lemma fork_run:
  "\<exists>st. run_stages sample_ledger False i (on_chain @ on_fork) = Inr st \<and> executed_hashes st = [11, 12, 13, 14]"
  by (simp add: move_eval)

lemma start_tracked:
  "\<exists>st. start_at i = Inr st \<and> booted mini_env st \<and> tracked sample_ledger [] dir st"
proof -
  have "\<exists>st. start_at i = Inr st \<and> hash (blk st (b0 st)) = genesis sample_ledger \<and> proposals (outs st) = [] \<and>
      (\<forall>r < nxt (mem st). fits sample_ledger [] dir st r)"
    by (simp add: move_eval)
  then obtain st where st: "start_at i = Inr st" "hash (blk st (b0 st)) = genesis sample_ledger" "proposals (outs st) = []"
      "\<forall>r < nxt (mem st). fits sample_ledger [] dir st r" by blast
  have "core_inv st" "low st" using boot_inv [OF st(1) [unfolded start_at_def]] by auto
  moreover have "booted mini_env st" using st(1) unfolding booted_def start_at_def by blast
  ultimately show ?thesis using st by (simp add: tracked_def)
qed

lemma start_ready:
  assumes "set is \<subseteq> {..<4} - {0}" "distinct is"
  shows "ready_for sample_ledger dir (state_after sample_ledger dir []) [] is [] []"
proof -
  have s: "booted mini_env (state_after sample_ledger dir [] i) \<and> tracked sample_ledger [] dir (state_after sample_ledger dir [] i)" for i
    using start_tracked [of i dir] by (auto simp: state_after_def run_stages_def)
  then have "system mini_env sample_ledger 4 {0} (connection_check dir) (state_after sample_ledger dir []) []"
    using trackedD(1) by (intro system.start) blast
  then show ?thesis using s assms by (simp add: ready_for_def)
qed

lemma chain_ready:
  "\<exists>V. ready_for sample_ledger dir (joined (state_after sample_ledger dir []) [1, 2, 3] (state_after sample_ledger dir on_chain))
     V [1, 2, 3] on_chain [3, 2, 1]"
proof -
  have "\<forall>i \<in> set [1, 2, 3]. \<exists>st. run_stages sample_ledger dir i ([] @ on_chain) = Inr st"
    using chain_run [of dir] run_stages_prefix [of sample_ledger dir _ on_chain commit_chain] by auto
  moreover have "linked [] on_chain = Some [3, 2, 1]" by (simp add: on_chain_def)
  moreover have "ready_for sample_ledger dir (state_after sample_ledger dir []) [] [1, 2, 3] [] []" by (rule start_ready) auto
  ultimately show ?thesis using stages_run [of sample_ledger dir _ _ "[1, 2, 3]" "[]" "[]" on_chain "[3, 2, 1]" 1 2] by auto
qed

text \<open>Some of the replicas go on.\<close>

lemma ready_for_some:
  assumes "ready_for L dir S V is ss C" "set is' \<subseteq> set is" "distinct is'"
  shows "ready_for L dir S V is' ss C"
  using assms unfolding ready_for_def by auto

lemma ready_for_kept:
  assumes "ready_for L dir S V is ss C" "ready_for L dir S' (V @ W) is' ss' C'" "\<forall>i \<in> set is. S' i = S i"
  shows "ready_for L dir S' (V @ W) is ss C"
proof -
  have "trusted L 4 {0} (V @ W) h" if "h \<in> set C" for h
    by (rule genuine_mono [of _ _ _ V]) (use assms(1) that in \<open>auto simp: ready_for_def\<close>)
  then show ?thesis using assms unfolding ready_for_def by auto
qed

lemma state_after_chain: "executed_hashes (state_after sample_ledger dir (on_chain @ commit_chain) i) = [1]"
  using chain_run [of dir i] by (auto simp: state_after_def)

lemma state_after_fork: "executed_hashes (state_after sample_ledger False (on_chain @ on_fork) i) = [11, 12, 13, 14]"
  using fork_run [of i] by (auto simp: state_after_def)

section \<open>Agreement and its limit\<close>



text \<open>
  C3: The check that a certificate is for an ancestor is needed for agreement, and the code does not
  make it: \<open>on_deliver_blk\<close> connects a block whatever block its certificate is for, and
  \<open>on_receive_proposal\<close> accepts a block whose certificate is higher than the lock without looking at its
  branch. There is a run of four replicas, one of them faulty, in which all other premises of agreement
  hold and replicas 1 and 2 execute different first blocks.
\<close>

theorem replicas_diverge_without_ancestor_check:
  "\<exists>L S V. system mini_env L 4 {0} (\<lambda>_. True) S V \<and>
     executed_hashes (S 1) = [1] \<and> executed_hashes (S 2) = [11, 12, 13, 14]"
proof -
  let ?f = "state_after sample_ledger False (on_chain @ commit_chain)"
    and ?g = "state_after sample_ledger False (on_chain @ on_fork)"
  obtain S V where r: "ready_for sample_ledger False S V [1, 2, 3] on_chain [3, 2, 1]" using chain_ready [of False] by blast
  have r1: "ready_for sample_ledger False S V [1] on_chain [3, 2, 1]" and
    r23: "ready_for sample_ledger False S V [2, 3] on_chain [3, 2, 1]" by (rule ready_for_some [OF r]; simp)+
  have "\<forall>i \<in> set [1]. run_stages sample_ledger False i (on_chain @ commit_chain) = Inr (?f i)"
    using chain_run [of False "Suc 0"] by (auto simp: state_after_def)
  then obtain W where s: "ready_for sample_ledger False (joined S [1] ?f) (V @ W) [1] (on_chain @ commit_chain) [3, 2, 1]"
    using stage_system [OF r1] unfolding joined_def commit_chain_def by blast
  have "ready_for sample_ledger False (joined S [1] ?f) (V @ W) [2, 3] on_chain [3, 2, 1]"
    by (rule ready_for_kept [OF r23 s]) (simp add: joined_def)
  moreover have "\<forall>i \<in> set [2, 3]. \<exists>st. run_stages sample_ledger False i (on_chain @ on_fork) = Inr st"
    using fork_run by blast
  ultimately obtain W' where "ready_for sample_ledger False (joined (joined S [1] ?f) [2, 3] ?g) W' [2, 3] (on_chain @ on_fork) [17, 16, 15, 14, 3, 2, 1]"
    using stages_run [of sample_ledger False _ _ "[2, 3]" on_chain "[3, 2, 1]" on_fork "[17, 16, 15, 14, 3, 2, 1]" 2 3]
    by (auto simp: on_fork_def)
  then have "system mini_env sample_ledger 4 {0} (\<lambda>_. True) (joined (joined S [1] ?f) [2, 3] ?g) W'"
    by (simp add: ready_for_def connection_check_def [abs_def])
  then show ?thesis using state_after_chain state_after_fork
    by (intro exI [of _ sample_ledger] exI [of _ "joined (joined S [1] ?f) [2, 3] ?g"] exI [of _ W']) (simp add: joined_def)
qed

end
