(* ===== verification/Hs_App.thy ===== *)
theory Hs_App
  imports Hs_Net_Log "HOL-Library.Sublist"
begin

text \<open>
  The replica program \<open>HotStuffApp\<close> (\<^verbatim>\<open>examples/hotstuff_app.cpp\<close>): it hands
  the commands of clients to the network layer, queues the answers for the clients and drives the
  impeachment timer.

  A callback passed to \<open>exec_command\<close> is a lambda that captures the address of the client;
  it is identified by its position in \<open>requests\<close>, which records the address and the
  command. Addresses are numbers; whether a client can be reached is an argument of the operations that send.
  Times are in microseconds.
\<close>

section \<open>State\<close>

record ('p, 'k, 's, 'b) happ =
  ha :: "('p, 'k, 's, 'b) base"
  impeach_timeout :: int
  requests :: "(nat \<times> uint256) list"
  resp_queue :: "(Finality \<times> nat) list"
  resps_sent :: "(nat \<times> bytes) list"
  impeach_timer :: "int option"
  impeached :: nat
  client_conns :: "nat set"

definition HotStuffApp_new :: "int \<Rightarrow> ('p, 'k, 's, 'b) base \<Rightarrow> ('p, 'k, 's, 'b) happ" where
  "HotStuffApp_new timeout b = \<lparr>ha = b, impeach_timeout = timeout, requests = [], resp_queue = [], resps_sent = [],
     impeach_timer = None, impeached = 0, client_conns = {}\<rparr>"

section \<open>Operations\<close>

definition parse_cmd :: "('p, 'k, 's, 'b) env \<Rightarrow> bytes \<Rightarrow> CommandDummy res" where
  "parse_cmd E s = bind (command_unserialize E s) (\<lambda>(c, _). Inr c)"

definition reset_imp_timer :: "int \<Rightarrow> ('p, 'k, 's, 'b) happ \<Rightarrow> ('p, 'k, 's, 'b) happ" where
  "reset_imp_timer now a = a\<lparr>impeach_timer := Some (now + impeach_timeout a)\<rparr>"

definition state_machine_execute :: "int \<Rightarrow> Finality \<Rightarrow> ('p, 'k, 's, 'b) happ \<Rightarrow> ('p, 'k, 's, 'b) happ" where
  "state_machine_execute now f a = reset_imp_timer now a"

text \<open>The body of the lambda of \<open>client_request_cmd_handler\<close>.\<close>

definition enqueue_resp :: "nat \<Rightarrow> Finality \<Rightarrow> ('p, 'k, 's, 'b) happ \<Rightarrow> ('p, 'k, 's, 'b) happ" where
  "enqueue_resp k f a = a\<lparr>resp_queue := resp_queue a @ [(f, fst (requests a ! k))]\<rparr>"

fun on_app_event :: "int \<Rightarrow> app_event \<Rightarrow> ('p, 'k, 's, 'b) happ \<Rightarrow> ('p, 'k, 's, 'b) happ" where
  "on_app_event now (AppExecute f) a = state_machine_execute now f a"
| "on_app_event now (AppCallback k f) a = enqueue_resp k f a"
| "on_app_event now _ a = a"

text \<open>A step of the network layer, with the calls it makes into this class.\<close>

definition after_base :: "int \<Rightarrow> ('p, 'k, 's, 'b) base \<Rightarrow> ('p, 'k, 's, 'b) happ \<Rightarrow> ('p, 'k, 's, 'b) happ" where
  "after_base now b a = fold (on_app_event now) (drop (length (app (ha a))) (app b)) (a\<lparr>ha := b\<rparr>)"

definition client_request_cmd_handler ::
  "('p, 'k, 's, 'b) env \<Rightarrow> bytes \<Rightarrow> nat \<Rightarrow> ('p, 'k, 's, 'b) happ \<Rightarrow> ('p, 'k, 's, 'b) happ res" where
  "client_request_cmd_handler E msg addr a =
     bind (parse_cmd E msg) (\<lambda>c.
       Inr (a\<lparr>requests := requests a @ [(addr, cmd_hash c)],
              ha := exec_command (cmd_hash c) (length (requests a)) (ha a)\<rparr>))"

text \<open>The handler of the response queue: a client that cannot be reached is skipped.\<close>

definition resp_handler :: "('p, 'k, 's, 'b) env \<Rightarrow> (nat \<Rightarrow> bool) \<Rightarrow> ('p, 'k, 's, 'b) happ \<Rightarrow> ('p, 'k, 's, 'b) happ" where
  "resp_handler E reachable_client a =
     a\<lparr>resp_queue := [],
       resps_sent := resps_sent a @
         map (\<lambda>(f, addr). (addr, MsgRespCmd E f)) (filter (\<lambda>(f, addr). reachable_client addr) (resp_queue a))\<rparr>"

definition impeach_handler :: "int \<Rightarrow> ('p, 'k, 's, 'b) happ \<Rightarrow> ('p, 'k, 's, 'b) happ" where
  "impeach_handler now a =
     reset_imp_timer now
       (if decision_waiting (ha a) \<noteq> [] then a\<lparr>impeached := impeached a + 1\<rparr> else a)"

definition client_conn_handler :: "nat \<Rightarrow> bool \<Rightarrow> ('p, 'k, 's, 'b) happ \<Rightarrow> ('p, 'k, 's, 'b) happ" where
  "client_conn_handler c connected a =
     a\<lparr>client_conns := (if connected then insert c (client_conns a) else client_conns a - {c})\<rparr>"

definition app_start ::
  "('p, 'k, 's, 'b) env \<Rightarrow> int \<Rightarrow> nat \<Rightarrow> 'k replica_entry list \<Rightarrow> ('p, 'k, 's, 'b) happ \<Rightarrow> ('p, 'k, 's, 'b) happ res" where
  "app_start E now listen_addr rs a =
     bind (start E listen_addr rs (ha (reset_imp_timer now a))) (\<lambda>b. Inr ((reset_imp_timer now a)\<lparr>ha := b\<rparr>))"

section \<open>Runs\<close>

text \<open>\<open>exec_command\<close> is called by the request handler only.\<close>

inductive app_step :: "('p, 'k, 's, 'b) env \<Rightarrow> ('p, 'k, 's, 'b) happ \<Rightarrow> ('p, 'k, 's, 'b) happ \<Rightarrow> bool" for E where
  request: "client_request_cmd_handler E msg addr a = Inr a' \<Longrightarrow> app_step E a a'"
| network: "base_step E (ha a) b \<Longrightarrow> \<nexists>h k. b = exec_command h k (ha a) \<Longrightarrow> app_step E a (after_base now b a)"
| respond: "app_step E a (resp_handler E rc a)"
| impeach: "app_step E a (impeach_handler now a)"
| connection: "app_step E a (client_conn_handler c connected a)"

definition app_low_step :: "('p, 'k, 's, 'b) env \<Rightarrow> ('p, 'k, 's, 'b) happ \<Rightarrow> ('p, 'k, 's, 'b) happ \<Rightarrow> bool" where
  "app_low_step E a a' \<longleftrightarrow> app_step E a a' \<and> low (hsc (ha a')) \<and> piped_connected (hsc (ha a'))"

definition app_reachable :: "('p, 'k, 's, 'b) env \<Rightarrow> ('p, 'k, 's, 'b) happ \<Rightarrow> bool" where
  "app_reachable E a \<longleftrightarrow> (\<exists>timeout now sc bs i sk lat0 cnt0 t0 fo pl ab addr rs b1 a0.
     HotStuffBase_new E sc bs i sk lat0 cnt0 t0 = Inr b1 \<and>
     app_start E now addr rs (HotStuffApp_new timeout (on_hsc (\<lambda>st. set_piped_latency pl ab (set_fanout fo st)) b1)) = Inr a0 \<and>
     (app_low_step E)\<^sup>*\<^sup>* a0 a)"

section \<open>Callbacks\<close>

fun callbacks :: "app_event list \<Rightarrow> (nat \<times> Finality) list" where
  "callbacks [] = []"
| "callbacks (AppCallback k f # es) = (k, f) # callbacks es"
| "callbacks (_ # es) = callbacks es"

lemma callbacks_append [simp]: "callbacks (xs @ ys) = callbacks xs @ callbacks ys"
  by (induction xs rule: callbacks.induct) auto

fun decisive :: "(nat \<times> Finality) list \<Rightarrow> nat list" where
  "decisive [] = []"
| "decisive ((k, f) # cs) = (if fin_decision f \<noteq> 0 then k # decisive cs else decisive cs)"

lemma decisive_append [simp]: "decisive (xs @ ys) = decisive xs @ decisive ys"
  by (induction xs rule: decisive.induct) auto

text \<open>A callback waits in the command queue, then for the decision, and is called with a
  decision once.\<close>

definition waiting_ok :: "(nat \<times> uint256) list \<Rightarrow> (uint256 \<times> nat) list \<Rightarrow> bool" where
  "waiting_ok rq m \<longleftrightarrow> (\<forall>(h, k) \<in> set m. k < length rq \<and> snd (rq ! k) = h)"

definition called_ok :: "(nat \<times> uint256) list \<Rightarrow> app_event list \<Rightarrow> bool" where
  "called_ok rq es \<longleftrightarrow> (\<forall>(k, f) \<in> set (callbacks es). k < length rq \<and> snd (rq ! k) = fin_cmd_hash f \<and>
     (fin_decision f \<noteq> 0 \<longrightarrow> f \<in> set (execution_log es)))"

definition callbacks_ok :: "(nat \<times> uint256) list \<Rightarrow> ('p, 'k, 's, 'b) base \<Rightarrow> bool" where
  "callbacks_ok rq b \<longleftrightarrow>
     distinct (map snd (cmd_pending b) @ map snd (decision_waiting b) @ decisive (callbacks (app b))) \<and>
     waiting_ok rq (cmd_pending b) \<and> waiting_ok rq (decision_waiting b) \<and> called_ok rq (app b)"

lemma waiting_ok_subset: "waiting_ok rq m \<Longrightarrow> set m' \<subseteq> set m \<Longrightarrow> waiting_ok rq m'"
  by (auto simp: waiting_ok_def)

lemma called_ok_append:
  "called_ok rq es \<Longrightarrow> (\<And>k f. (k, f) \<in> set (callbacks xs) \<Longrightarrow> k < length rq \<and> snd (rq ! k) = fin_cmd_hash f \<and>
     (fin_decision f \<noteq> 0 \<longrightarrow> f \<in> set (execution_log xs))) \<Longrightarrow> called_ok rq (es @ xs)"
  by (auto simp: called_ok_def)

lemma distinct_move:
  assumes "distinct (A @ W @ C)" "distinct W'" "set W' \<subseteq> set W"
  shows "distinct (A @ W' @ C)" "k \<in> set W \<Longrightarrow> k \<notin> set W' \<Longrightarrow> distinct (A @ W' @ C @ [k])"
  using assms by auto

lemma distinct_take:
  assumes "distinct ((k # A) @ W @ C)" "distinct W'" "set W' \<subseteq> insert k (set W)"
  shows "distinct (A @ W' @ C)"
  using assms by auto

lemma umap_erase_subset: "set (umap_erase k m) \<subseteq> set m"
  by (auto simp: umap_erase_def)

lemma map_of_erase_distinct:
  assumes "distinct (map snd m)" "map_of m k = Some v"
  shows "v \<notin> set (map snd (umap_erase k m))" "distinct (map snd (umap_erase k m))"
proof -
  have "(k, v) \<in> set m" using assms(2) by (rule map_of_SomeD)
  then have "(k', v) \<in> set m \<Longrightarrow> k' = k" for k' using assms(1) by (metis distinct_map inj_on_eq_iff prod.inject snd_conv)
  then show "v \<notin> set (map snd (umap_erase k m))" by (auto simp: umap_erase_def)
  show "distinct (map snd (umap_erase k m))" using assms(1) by (simp add: umap_erase_def distinct_map_filter)
qed

lemma callbacks_ok_decide:
  assumes "callbacks_ok rq b"
  shows "callbacks_ok rq (do_decide f b)"
proof (cases "map_of (decision_waiting b) (fin_cmd_hash f)")
  case None
  then show ?thesis using assms called_ok_append [of rq "app b" "[AppExecute f]"]
    by (simp add: callbacks_ok_def do_decide_def Let_def)
next
  case (Some k)
  let ?W = "umap_erase (fin_cmd_hash f) (decision_waiting b)"
  note c = assms [unfolded callbacks_ok_def]
  have m: "(fin_cmd_hash f, k) \<in> set (decision_waiting b)" using Some by (rule map_of_SomeD)
  then have k: "k < length rq" "snd (rq ! k) = fin_cmd_hash f" using c by (auto simp: waiting_ok_def)
  have k3: "k \<in> set (map snd (decision_waiting b))" using m by (metis image_set imageI snd_conv)
  have "distinct (map snd (decision_waiting b))" using c by simp
  note er = map_of_erase_distinct [OF this Some]
  have sub: "set (map snd ?W) \<subseteq> set (map snd (decision_waiting b))" using umap_erase_subset by fastforce
  note dm = distinct_move [OF conjunct1 [OF c] er(2) sub]
  have "distinct (map snd (cmd_pending b) @ map snd ?W @ decisive (callbacks (app b) @ [(k, f)]))"
    using dm(1) dm(2) [OF k3 er(1)] by simp
  moreover have "called_ok rq (app b @ [AppExecute f, AppCallback k f])" using c k(1,2) by (intro called_ok_append) auto
  moreover have "waiting_ok rq ?W" using c waiting_ok_subset [OF _ umap_erase_subset] by simp
  ultimately show ?thesis using c Some by (simp add: callbacks_ok_def do_decide_def Let_def)
qed

lemma callbacks_ok_view: "callbacks_ok rq b \<Longrightarrow> user_view b' = user_view b \<Longrightarrow> callbacks_ok rq b'"
  by (simp add: callbacks_ok_def user_view_def)

lemma callbacks_ok_log:
  assumes "callbacks_ok rq b" "app b' = app b @ [x]" "callbacks [x] = []"
    "decision_waiting b' = decision_waiting b" "cmd_pending b' = cmd_pending b"
  shows "callbacks_ok rq b'"
  using assms called_ok_append [of rq "app b" "[x]"] by (simp add: callbacks_ok_def)

lemma callbacks_ok_dispatch:
  assumes "dispatch E x b = Inr b'" "callbacks_ok rq b"
  shows "callbacks_ok rq b'"
proof (cases x)
  case (OutDecide f)
  then show ?thesis using assms callbacks_ok_decide by auto
next
  case (OutBroadcast p)
  then show ?thesis using assms(1) callbacks_ok_view [OF assms(2), of b']
    by (auto simp: do_broadcast_proposal_def bind_Inr_iff)
next
  case (OutVote p v)
  then show ?thesis using assms(1) callbacks_ok_view [OF assms(2), of b'] by (auto simp: do_vote_def)
qed (use assms(1) callbacks_ok_log [OF assms(2), of b'] in \<open>auto simp: do_consensus_def\<close>)

lemma callbacks_ok_run_core:
  assumes "callbacks_ok rq b" "run_core E f b = Inr b'"
  shows "callbacks_ok rq b'"
proof -
  from assms(2) obtain st where
    d: "fold_res (dispatch E) (drop (length (outs (hsc b))) (outs st)) (b\<lparr>hsc := st\<rparr>) = Inr b'"
    by (auto simp: run_core_def bind_Inr_iff)
  have "callbacks_ok rq (b\<lparr>hsc := st\<rparr>)" using assms(1) by (simp add: callbacks_ok_def)
  then show ?thesis using fold_res_inv [OF d, of "callbacks_ok rq"] callbacks_ok_dispatch by blast
qed

text \<open>One command taken from the queue.\<close>

lemma callbacks_ok_accept:
  assumes "callbacks_ok rq (b\<lparr>cmd_pending := (h, k) # q\<rparr>)"
  shows "callbacks_ok rq (b\<lparr>cmd_pending := q\<rparr>)" "callbacks_ok rq ((accept_command E h k b)\<lparr>cmd_pending := q\<rparr>)"
proof -
  let ?W = "umap_insert h k (decision_waiting b)"
  have c: "distinct ((k # map snd q) @ map snd (decision_waiting b) @ decisive (callbacks (app b)))"
    "waiting_ok rq ((h, k) # q)" "waiting_ok rq (decision_waiting b)" "called_ok rq (app b)"
    using assms by (simp_all add: callbacks_ok_def)
  have w: "set (map snd ?W) \<subseteq> insert k (set (map snd (decision_waiting b)))" "distinct (map snd ?W)" "waiting_ok rq ?W"
    using c by (auto simp: umap_insert_def waiting_ok_def split: option.split)
  have q: "waiting_ok rq q" using c(2) by (simp add: waiting_ok_def)
  show p: "callbacks_ok rq (b\<lparr>cmd_pending := q\<rparr>)" using c q by (simp add: callbacks_ok_def)
  have "called_ok rq (app b @ [AppCallback k (pending_reply E h (hsc b))])"
    using c(2,4) by (intro called_ok_append) (auto simp: waiting_ok_def pending_reply_def)
  then show "callbacks_ok rq ((accept_command E h k b)\<lparr>cmd_pending := q\<rparr>)"
    using distinct_take [OF c(1) w(2,1)] w(3) q p
    by (simp add: callbacks_ok_def accept_command_def Let_def pending_reply_def)
qed

lemma callbacks_ok_cmd_loop:
  assumes "callbacks_ok rq (b\<lparr>cmd_pending := q\<rparr>)"
  shows "callbacks_ok rq (snd (cmd_loop E prid q b))"
  using assms
proof (induction E prid q b rule: cmd_loop.induct)
  case (1 E prid b)
  then show ?case by simp
next
  case (2 E prid h cb q b)
  note ca = callbacks_ok_accept(2) [OF 2(3), where E = E] callbacks_ok_accept(1) [OF 2(3)]
  show ?case
  proof (cases "prid = my_id (hsc b)")
    case False
    then show ?thesis using 2(1) ca(2) by simp
  next
    case True
    let ?b = "accept_command E h cb b"
    show ?thesis
    proof (cases "blk_size ?b \<le> length (cmd_pending_buffer ?b) \<or> final_buffer ?b \<noteq> []")
      case full: True
      have "callbacks_ok rq ((if final_buffer ?b = [] then ?b\<lparr>final_buffer := cmd_pending_buffer ?b, cmd_pending_buffer := []\<rparr> else ?b)\<lparr>cmd_pending := q\<rparr>)"
        using ca(1) by (simp add: callbacks_ok_def)
      then show ?thesis using True full by (simp add: Let_def callbacks_ok_def)
    next
      case more: False
      then have "callbacks_ok rq (snd (cmd_loop E prid q ?b))" using 2(2) True ca(1) by simp
      then show ?thesis using True more by (auto simp: Let_def)
    qed
  qed
qed

interpretation cbs: handler_invariant "callbacks_ok rq" for rq
proof unfold_locales
  show "callbacks_ok rq (snd (cmd_handler E prid b))" if "callbacks_ok rq b" for b :: "('a, 'b, 'c, 'd) base" and E prid
    using callbacks_ok_cmd_loop [where q = "cmd_pending b" and b = b] that by (simp add: cmd_handler_def)
qed (rule callbacks_ok_view callbacks_ok_run_core; assumption)+

section \<open>What the network layer tells the application only grows\<close>

lemma dispatch_app_prefix: "dispatch E x b = Inr b' \<Longrightarrow> prefix (app b) (app b')"
  by (cases x) (auto simp: do_broadcast_proposal_def do_vote_def do_decide_def do_consensus_def Let_def bind_Inr_iff
      split: option.split_asm)

lemma cmd_loop_app_prefix: "prefix (app b) (app (snd (cmd_loop E prid q b)))"
proof (induction E prid q b rule: cmd_loop.induct)
  case (2 E prid h cb q b)
  have "prefix (app b) (app (accept_command E h cb b))" by (simp add: accept_command_def Let_def)
  with 2 show ?case by (auto simp: Let_def intro: prefix_order.trans)
qed simp

interpretation app_grows: handler_invariant "\<lambda>b. prefix es (app b)" for es
proof unfold_locales
  fix b b' :: "('a, 'b, 'c, 'd) base" and E f
  assume p: "prefix es (app b)" and r: "run_core E f b = Inr b'"
  from r obtain st where
    "fold_res (dispatch E) (drop (length (outs (hsc b))) (outs st)) (b\<lparr>hsc := st\<rparr>) = Inr b'"
    by (auto simp: run_core_def bind_Inr_iff)
  then show "prefix es (app b')"
    by (rule fold_res_inv [where P = "\<lambda>b. prefix es (app b)"]) (use p in \<open>auto dest: dispatch_app_prefix intro: prefix_order.trans\<close>)
qed (auto simp: user_view_def cmd_handler_def intro: prefix_order.trans [OF _ cmd_loop_app_prefix])

lemma base_step_app_prefix:
  assumes "base_step E b b'" "\<nexists>h k. b' = exec_command h k b"
  shows "prefix (app b) (app b')"
  using app_grows.step_keeps [OF assms(1), of "app b"] assms(2) by blast

section \<open>The answers to the clients\<close>

abbreviation answers :: "('p, 'k, 's, 'b) happ \<Rightarrow> (Finality \<times> nat) list" where
  "answers a \<equiv> map (\<lambda>(k, f). (f, fst (requests a ! k))) (callbacks (app (ha a)))"

definition app_ok :: "('p, 'k, 's, 'b) env \<Rightarrow> ('p, 'k, 's, 'b) happ \<Rightarrow> bool" where
  "app_ok E a \<longleftrightarrow> callbacks_ok (requests a) (ha a) \<and>
     (\<exists>ds. answers a = ds @ resp_queue a \<and> subseq (resps_sent a) (map (\<lambda>(f, addr). (addr, MsgRespCmd E f)) ds))"

lemma on_app_events:
  "ha (fold (on_app_event now) xs a) = ha a \<and> requests (fold (on_app_event now) xs a) = requests a \<and>
   resps_sent (fold (on_app_event now) xs a) = resps_sent a \<and>
   resp_queue (fold (on_app_event now) xs a) = resp_queue a @ map (\<lambda>(k, f). (f, fst (requests a ! k))) (callbacks xs)"
proof (induction xs arbitrary: a)
  case (Cons x xs)
  then show ?case by (cases x) (simp_all add: enqueue_resp_def state_machine_execute_def reset_imp_timer_def)
qed simp

lemma callbacks_ok_request:
  assumes "callbacks_ok rq b"
  shows "callbacks_ok (rq @ [(addr, h)]) (exec_command h (length rq) b)"
proof -
  note c = assms [unfolded callbacks_ok_def]
  have w: "waiting_ok (rq @ [(addr, h)]) m \<and> length rq \<notin> set (map snd m)" if "waiting_ok rq m" for m
    using that by (auto simp: waiting_ok_def nth_append)
  have k: "called_ok (rq @ [(addr, h)]) es \<and> length rq \<notin> set (decisive (callbacks es))" if "called_ok rq es" for es
  proof -
    have "set (decisive cs) \<subseteq> fst ` set cs" for cs by (induction cs rule: decisive.induct) auto
    then show ?thesis using that by (fastforce simp: called_ok_def nth_append)
  qed
  have "waiting_ok (rq @ [(addr, h)]) (cmd_pending b @ [(h, length rq)])"
    using w [of "cmd_pending b"] c by (auto simp: waiting_ok_def)
  then show ?thesis
    using c w [of "cmd_pending b"] w [of "decision_waiting b"] k [of "app b"] by (auto simp: callbacks_ok_def exec_command_def)
qed

lemma subseq_map_filter: "subseq (map f (filter P xs)) (map f xs)"
  by (simp add: subseq_map)

lemma app_step_ok:
  assumes "app_step E a a'" "app_ok E a"
  shows "app_ok E a'"
proof -
  obtain ds where c: "callbacks_ok (requests a) (ha a)" and ds: "answers a = ds @ resp_queue a"
    and s: "subseq (resps_sent a) (map (\<lambda>(f, addr). (addr, MsgRespCmd E f)) ds)"
    using assms(2) by (auto simp: app_ok_def)
  show ?thesis using assms(1)
  proof cases
    case (request msg addr)
    then obtain c' where "parse_cmd E msg = Inr c'" by (auto simp: client_request_cmd_handler_def bind_Inr_iff)
    with request have a': "a' = a\<lparr>requests := requests a @ [(addr, cmd_hash c')],
        ha := exec_command (cmd_hash c') (length (requests a)) (ha a)\<rparr>"
      by (simp add: client_request_cmd_handler_def)
    have "answers a' = answers a"
      using c by (auto simp: a' exec_command_def callbacks_ok_def called_ok_def nth_append)
    then show ?thesis using callbacks_ok_request [OF c] ds s by (auto simp: a' app_ok_def)
  next
    case (network b now)
    obtain xs where xs: "app b = app (ha a) @ xs" using base_step_app_prefix [OF network(2,3)] by (auto simp: prefix_def)
    have "callbacks_ok (requests a) b" using cbs.step_keeps [OF network(2) c] network(3) by blast
    then show ?thesis using ds s on_app_events [of now xs "a\<lparr>ha := b\<rparr>"]
      by (auto simp: network(1) after_base_def app_ok_def xs)
  next
    case (respond rc)
    have "subseq (resps_sent a') (map (\<lambda>(f, addr). (addr, MsgRespCmd E f)) (ds @ resp_queue a))"
      unfolding respond resp_handler_def using list_emb_append_mono [OF s subseq_map_filter] by simp
    then show ?thesis using c ds by (auto simp: respond resp_handler_def app_ok_def)
  next
    case (impeach now)
    then show ?thesis using assms(2) by (simp add: impeach_handler_def reset_imp_timer_def app_ok_def)
  next
    case (connection c' connected)
    then show ?thesis using assms(2) by (simp add: client_conn_handler_def app_ok_def)
  qed
qed

lemma start_clean:
  assumes "HotStuffBase_new E sc bs i sk lat0 cnt0 t0 = Inr b1" "start E addr rs (on_hsc g b1) = Inr b"
  shows "app b = []" "cmd_pending b = []" "decision_waiting b = []"
proof -
  have f: "app (fold (add_peer x) es b) = app b \<and> cmd_pending (fold (add_peer x) es b) = cmd_pending b \<and>
      decision_waiting (fold (add_peer x) es b) = decision_waiting b" for x es and b :: "('a, 'b, 'c, 'd) base"
    by (induction es arbitrary: b) (simp_all add: add_peer_def Let_def)
  show "app b = []" "cmd_pending b = []" "decision_waiting b = []"
    using assms f by (auto simp: start_def HotStuffBase_new_def bind_Inr_iff Let_def)
qed

lemma app_reachable_ok:
  assumes "app_reachable E a"
  shows "app_ok E a"
proof -
  from assms obtain timeout now sc bs i sk lat0 cnt0 t0 fo pl ab addr rs b1 a0 where
    n: "HotStuffBase_new E sc bs i sk lat0 cnt0 t0 = Inr b1" and
    s: "app_start E now addr rs (HotStuffApp_new timeout (on_hsc (\<lambda>st. set_piped_latency pl ab (set_fanout fo st)) b1)) = Inr a0" and
    r: "(app_low_step E)\<^sup>*\<^sup>* a0 a" unfolding app_reachable_def by blast
  from s obtain b where b: "start E addr rs (on_hsc (\<lambda>st. set_piped_latency pl ab (set_fanout fo st)) b1) = Inr b"
    and a0: "a0 = (reset_imp_timer now (HotStuffApp_new timeout (on_hsc (\<lambda>st. set_piped_latency pl ab (set_fanout fo st)) b1)))\<lparr>ha := b\<rparr>"
    by (auto simp: app_start_def reset_imp_timer_def HotStuffApp_new_def bind_Inr_iff)
  have "app_ok E a0" using start_clean [OF n, of addr rs "\<lambda>st. set_piped_latency pl ab (set_fanout fo st)" b] b
    by (simp add: a0 app_ok_def callbacks_ok_def waiting_ok_def called_ok_def reset_imp_timer_def HotStuffApp_new_def)
  with r show ?thesis by (induction rule: rtranclp_induct) (auto simp: app_low_step_def intro: app_step_ok)
qed

text \<open>Decisions are counted against the requests they answer.\<close>

lemma decisive_count:
  assumes "distinct (decisive cs)" "\<forall>(k, f) \<in> set cs. k < length rq \<and> snd (rq ! k) = fin_cmd_hash f"
  shows "length (filter (\<lambda>(f, x). fin_decision f \<noteq> 0 \<and> x = addr \<and> fin_cmd_hash f = h) (map (\<lambda>(k, f). (f, fst (rq ! k))) cs))
    \<le> length (filter ((=) (addr, h)) rq)"
proof -
  let ?ks = "filter (\<lambda>k. rq ! k = (addr, h)) (decisive cs)"
  have "length (filter (\<lambda>(f, x). fin_decision f \<noteq> 0 \<and> x = addr \<and> fin_cmd_hash f = h) (map (\<lambda>(k, f). (f, fst (rq ! k))) cs))
      = length ?ks"
    using assms(2) by (induction cs rule: decisive.induct) (auto simp: prod_eq_iff)
  also have "\<dots> = card (set ?ks)" using assms(1) by (metis distinct_card distinct_filter)
  also have "\<dots> \<le> card {k. k < length rq \<and> rq ! k = (addr, h)}"
  proof (rule card_mono)
    have "set (decisive cs) \<subseteq> fst ` set cs" by (induction cs rule: decisive.induct) auto
    then show "set ?ks \<subseteq> {k. k < length rq \<and> rq ! k = (addr, h)}" using assms(2) by fastforce
  qed simp
  also have "\<dots> = length (filter ((=) (addr, h)) rq)" by (auto simp: length_filter_conv_card intro!: arg_cong [where f = card])
  finally show ?thesis .
qed

end
