(* ===== verification/Hs_Client.thy ===== *)
theory Hs_Client
  imports Hs_Wire
begin

text \<open>
  The client program (\<^verbatim>\<open>examples/hotstuff_client.cpp\<close>) and the command line of both
  programs (\<open>main\<close> there and in \<^verbatim>\<open>examples/hotstuff_app.cpp\<close>): what is sent, what
  is done with an answer, and which configurations are accepted.

  The string functions and the address parser of \<^verbatim>\<open>salticidae\<close> are the fields of \<open>conf_env\<close>.
  Addresses are numbers. The timing statistics of the requests are left out.
\<close>

section \<open>State\<close>

record Request =
  req_cmd :: CommandDummy
  confirmed :: nat

record client =
  c_cid :: u32
  c_cnt :: u32
  max_async_num :: nat
  max_iter_num :: "32 word"
  c_nfaulty :: u32
  c_replicas :: "nat list"
  conns :: "(ReplicaID \<times> nat) list"
  waiting :: "(uint256 \<times> Request) list"
  c_sent :: "(nat \<times> bytes) list"

section \<open>Sending and answers\<close>

definition connect_all :: "client \<Rightarrow> client res" where
  "connect_all c = bind (front (c_replicas c)) (\<lambda>addr. Inr (c\<lparr>conns := umap_insert 0 addr (conns c)\<rparr>))"

definition try_send :: "('p, 'k, 's, 'b) env \<Rightarrow> bool \<Rightarrow> client \<Rightarrow> bool \<times> client" where
  "try_send E check c =
     (if (\<not> check \<or> length (waiting c) < max_async_num c) \<and> max_iter_num c \<noteq> 0 then
        let cmd = CommandDummy_new E (c_cid c) (c_cnt c);
            c = c\<lparr>c_cnt := c_cnt c + 1, c_sent := c_sent c @ map (\<lambda>p. (snd p, MsgReqCmd E cmd)) (conns c)\<rparr>;
            c = c\<lparr>waiting := umap_insert (cmd_hash cmd) \<lparr>req_cmd = cmd, confirmed = 0\<rparr> (waiting c)\<rparr>;
            c = (if 0 < sint (max_iter_num c) then c\<lparr>max_iter_num := max_iter_num c - 1\<rparr> else c) in
        (False, c)
      else (False, c))"

text \<open>The loop \<open>while (try_send())\<close>.\<close>

partial_function (option) send_loop :: "('p, 'k, 's, 'b) env \<Rightarrow> client \<Rightarrow> client res option" where
  "send_loop E c =
     (case try_send E True c of (again, c') \<Rightarrow> if again then send_loop E c' else Some (Inr c'))"

text \<open>The reference to the request is formed before the iterator is tested; it is not read when
  there is no request.\<close>

definition client_resp_cmd_handler :: "('p, 'k, 's, 'b) env \<Rightarrow> bytes \<Rightarrow> client \<Rightarrow> client res" where
  "client_resp_cmd_handler E msg c =
     bind (MsgRespCmd_parse E msg) (\<lambda>fin.
       case map_of (waiting c) (fin_cmd_hash fin) of
         None \<Rightarrow> Inr c
       | Some _ \<Rightarrow> run_loop (send_loop E (c\<lparr>waiting := umap_erase (fin_cmd_hash fin) (waiting c)\<rparr>)))"

section \<open>Command lines\<close>

record conf_env =
  cf_split :: "string \<Rightarrow> string \<Rightarrow> string list"
  cf_trim_all :: "string list \<Rightarrow> string list"
  cf_from_hex :: "string \<Rightarrow> bytes res"
  cf_addr :: "string \<Rightarrow> nat res"
  cf_client_addr :: "string \<Rightarrow> int \<Rightarrow> nat res"

text \<open>\<open>std::stoi\<close>: white space, a sign, decimal digits; the rest is ignored.\<close>

definition is_space :: "char \<Rightarrow> bool" where
  "is_space ch \<longleftrightarrow> of_char ch \<in> {32 :: nat, 9, 10, 11, 12, 13}"

definition is_digit :: "char \<Rightarrow> bool" where
  "is_digit ch \<longleftrightarrow> 48 \<le> (of_char ch :: nat) \<and> (of_char ch :: nat) \<le> 57"

definition number_of_digits :: "string \<Rightarrow> int" where
  "number_of_digits ds = foldl (\<lambda>n ch. 10 * n + (of_char ch - 48)) 0 ds"

definition stoi :: "string \<Rightarrow> int res" where
  "stoi s =
     (let t = dropWhile is_space s;
          (neg, u) = (case t of [] \<Rightarrow> (False, []) | ch # cs \<Rightarrow>
             if ch = CHR ''-'' then (True, cs) else if ch = CHR ''+'' then (False, cs) else (False, t));
          ds = takeWhile is_digit u;
          v = (if neg then - number_of_digits ds else number_of_digits ds) in
      if ds = [] then Inl (InvalidArgument ''stoi'')
      else if - (2 ^ 31) \<le> v \<and> v < 2 ^ 31 then Inr v else Inl OutOfRange)"

text \<open>The replica program checks the number of parts, the client does not.\<close>

definition split_ip_port_cport :: "conf_env \<Rightarrow> string \<Rightarrow> (string \<times> string) res" where
  "split_ip_port_cport C s =
     (let ret = cf_trim_all C (cf_split C s '';'') in
      if length ret \<noteq> 2 then Inl (InvalidArgument ''invalid cport format'') else Inr (ret ! 0, ret ! 1))"

definition client_split_ip_port_cport :: "conf_env \<Rightarrow> string \<Rightarrow> (string \<times> string) res" where
  "client_split_ip_port_cport C s =
     (let ret = cf_trim_all C (cf_split C s '';'') in
      if length ret < 2 then Inl OutOfRange else Inr (ret ! 0, ret ! 1))"

definition parse_replica :: "conf_env \<Rightarrow> string \<Rightarrow> (string \<times> string \<times> string) res" where
  "parse_replica C s =
     (let r = cf_trim_all C (cf_split C s '','') in
      if length r \<noteq> 3 then Inl (HotStuffError ''invalid replica info'') else Inr (r ! 0, r ! 1, r ! 2))"

fun each_res :: "('a \<Rightarrow> 'c res) \<Rightarrow> 'a list \<Rightarrow> 'c list res" where
  "each_res f [] = Inr []"
| "each_res f (x # xs) = bind (f x) (\<lambda>y. bind (each_res f xs) (\<lambda>ys. Inr (y # ys)))"

definition client_port_of :: "conf_env \<Rightarrow> int \<Rightarrow> string \<Rightarrow> int res" where
  "client_port_of C port binding =
     (if port = -1 then
        bind (split_ip_port_cport C binding) (\<lambda>p.
          case stoi (snd p) of
            Inl (InvalidArgument _) \<Rightarrow> Inl (HotStuffError ''client port not specified'')
          | r \<Rightarrow> r)
      else Inr port)"

record replica_args =
  ra_idx :: int
  ra_client_port :: int
  ra_plisten :: nat
  ra_reps :: "(nat \<times> bytes \<times> bytes) list"

definition rep_entry :: "conf_env \<Rightarrow> string \<times> string \<times> string \<Rightarrow> (nat \<times> bytes \<times> bytes) res" where
  "rep_entry C r =
     bind (split_ip_port_cport C (fst r)) (\<lambda>p.
     bind (cf_addr C (fst p)) (\<lambda>addr.
     bind (cf_from_hex C (fst (snd r))) (\<lambda>pub.
     bind (cf_from_hex C (snd (snd r))) (\<lambda>cert. Inr (addr, pub, cert)))))"

definition replica_main :: "conf_env \<Rightarrow> int \<Rightarrow> int \<Rightarrow> string list \<Rightarrow> replica_args res" where
  "replica_main C idx port opt_replicas =
     bind (each_res (parse_replica C) opt_replicas) (\<lambda>replicas.
     if \<not> (0 \<le> idx \<and> nat idx < length replicas) then Inl (HotStuffError ''replica idx out of range'') else
     let binding_addr = fst (replicas ! nat idx) in
     bind (client_port_of C port binding_addr) (\<lambda>client_port.
     bind (split_ip_port_cport C binding_addr) (\<lambda>p.
     bind (cf_addr C (fst p)) (\<lambda>plisten.
     bind (each_res (rep_entry C) replicas) (\<lambda>reps.
       Inr \<lparr>ra_idx = idx, ra_client_port = client_port, ra_plisten = plisten, ra_reps = reps\<rparr>)))))"

definition client_replica :: "conf_env \<Rightarrow> string \<Rightarrow> nat res" where
  "client_replica C p =
     bind (client_split_ip_port_cport C p) (\<lambda>q. bind (stoi (snd q)) (\<lambda>port. cf_client_addr C (fst q) port))"

text \<open>The globals of the program when the replicas are known.\<close>

definition client_init :: "int \<Rightarrow> 32 word \<Rightarrow> nat \<Rightarrow> nat list \<Rightarrow> client" where
  "client_init i iter max_async rs = \<lparr>c_cid = of_int i, c_cnt = 0, max_async_num = max_async, max_iter_num = iter,
     c_nfaulty = of_nat ((length rs - 1) div 3), c_replicas = rs, conns = [], waiting = [], c_sent = []\<rparr>"

definition client_main ::
  "('p, 'k, 's, 'b) env \<Rightarrow> conf_env \<Rightarrow> int \<Rightarrow> int \<Rightarrow> 32 word \<Rightarrow> nat \<Rightarrow> string list \<Rightarrow> client res" where
  "client_main E C idx opt_cid iter max_async opt_replicas =
     bind (each_res (\<lambda>s. case cf_trim_all C (cf_split C s '','') of [] \<Rightarrow> Inl (HotStuffError ''format error'') | x # _ \<Rightarrow> Inr x)
             opt_replicas) (\<lambda>raw.
     if \<not> (0 \<le> idx \<and> nat idx < length raw \<and> 0 < length raw) then Inl (InvalidArgument ''out of range'') else
     bind (each_res (client_replica C) raw) (\<lambda>rs.
     bind (connect_all (client_init (if opt_cid \<noteq> -1 then opt_cid else idx) iter max_async rs)) (\<lambda>c.
       run_loop (send_loop E c))))"

end
