(* ===== verification/Hs_Safety.thy ===== *)
theory Hs_Safety
  imports Hs_Scenario
begin

text \<open>
  The safety properties of the core, over all reachable states: what is executed, when a block
  is committed, when a vote is cast, and that the operations end without undefined accesses.
\<close>

section \<open>The executed log\<close>

text \<open>
  C5: In every reachable state the blocks reported by \<open>do_consensus\<close> are, in order, the
  first-parent path from the genesis block to \<open>b_exec\<close>; no block is executed twice; the
  commands reported by \<open>do_decide\<close> are exactly the commands of those blocks, in order, with
  their index, height and block hash; and a block carries a decision exactly when it is on that
  path.
\<close>

theorem executed_log_is_chain:
  assumes "reachable E st"
  shows "is_path (heap (mem st)) (b0 st) (executed (outs st)) (b_exec st) \<and>
    distinct (b0 st # executed (outs st)) \<and>
    decided (outs st) = concat (map (finalities st) (executed (outs st))) \<and>
    (\<forall>r < nxt (mem st). decision (blk st r) \<noteq> 0 \<longleftrightarrow> r = b0 st \<or> r \<in> set (executed (outs st)))"
proof -
  note i = core_invD [OF reachable_inv(1) [OF assms]]
  then show ?thesis
    using is_path_distinct [OF i(1), of "b0 st" "executed (outs st)" "b_exec st"]
    by (auto simp: log_ok_def ref_ok_def)
qed

theorem executed_log_is_chain_witness:
  "\<exists>st. reachable tiny_env st \<and> executed (outs st) = [1] \<and>
     is_path (heap (mem st)) 0 [1] 1 \<and> decided (outs st) = finalities st 1"
proof -
  obtain st where s: "scenario 0 [(0, 0, 7)] [CallPropose [1] [0], CallPropose [2] [1], CallPropose [3] [2], CallPropose [4] [3]] = Inr st"
    "executed (outs st) = [1]" "b_exec st = 1" "b0 st = 0"
    using leader_run by blast
  from executed_log_is_chain [OF scenario_reachable [OF s(1)]] s scenario_reachable [OF s(1)] show ?thesis
    by (intro exI [of _ st]) simp
qed

text \<open>
  C6: Execution is append-only: along any run the executed blocks are extended at the end, by
  the path from the old \<open>b_exec\<close> to the new one.
\<close>

theorem execution_append_only:
  assumes "reachable E st" "(core_low_step E)\<^sup>*\<^sup>* st st'"
  shows "\<exists>xs. executed (outs st') = executed (outs st) @ xs \<and>
    is_path (heap (mem st')) (b_exec st) xs (b_exec st')"
  using evolvesD(3) [OF reachable_evolves [OF assms]] by (simp add: progress_def)

theorem execution_append_only_witness:
  "\<exists>st (st' :: sample_core). reachable tiny_env st \<and> executed (outs st') = [1] \<and> b_exec st' = 1 \<and>
     (\<exists>xs. executed (outs st') = executed (outs st) @ xs \<and> is_path (heap (mem st')) (b_exec st) xs (b_exec st'))"
proof -
  obtain st' where s: "scenario 0 [(0, 0, 7)] [CallPropose [1] [0], CallPropose [2] [1], CallPropose [3] [2], CallPropose [4] [3]] = Inr st'"
    "executed (outs st') = [1]" "b_exec st' = 1"
    using leader_run by blast
  from s(1) obtain st where b: "scenario 0 [(0, 0, 7)] [] = Inr st"
    and r: "(core_low_step tiny_env)\<^sup>*\<^sup>* st st'"
    by (auto simp: scenario_def bind_Inr_iff dest: run_calls simp del: run_call.simps fold_res.simps(2))
  from execution_append_only [OF scenario_reachable [OF b] r] scenario_reachable [OF b] s show ?thesis by blast
qed

section \<open>The commit rule\<close>

text \<open>
  C7: The commit rule. On a reachable state, \<open>update\<close> of a stored block commits exactly when
  the block's certificate heads a three-chain of undecided blocks linked by direct parents: then
  it executes the path from \<open>b_exec\<close> to the lowest block of the chain and makes that block
  \<open>b_exec\<close>. Without a three-chain nothing is executed. The only exception is
  \<open>safety breached\<close>, raised exactly when the lowest block does not descend from
  \<open>b_exec\<close>.
\<close>

theorem update_commit_rule:
  assumes "reachable E st" "n < nxt (mem st)"
  shows "case update n st of
      Inr st' \<Rightarrow> (\<exists>b xs. three_chain (mem st) n b \<and> is_path (heap (mem st)) (b_exec st) xs b \<and> b_exec st' = b \<and>
                   executed (outs st') = executed (outs st) @ xs \<and>
                   decided (outs st') = decided (outs st) @ concat (map (finalities st) xs)) \<or>
               (\<nexists>b. three_chain (mem st) n b) \<and> b_exec st' = b_exec st \<and>
                   executed (outs st') = executed (outs st) \<and> decided (outs st') = decided (outs st)
    | Inl e \<Rightarrow> e = RuntimeError ''safety breached :( '' \<and>
               (\<exists>b. three_chain (mem st) n b \<and> (\<nexists>xs. is_path (heap (mem st)) (b_exec st) xs b))"
  using reachable_inv(1) [OF assms(1)] assms(2)
proof (cases rule: update_cases)
  case (commit st1 b xs)
  have "finalities st1 = finalities st"
    using finalities_cong [OF quietD(4) mem_eqD(8) mem_eqD(4) mem_eqD(5)] quietD(1) commit(2) by (metis ext)
  with commit show ?thesis by (auto simp: quietD)
qed (auto simp: quietD)

theorem update_commit_rule_witness:
  "\<exists>st. reachable tiny_env st \<and> executed (outs st) = [1] \<and>
    (case update 0 st of
      Inr st' \<Rightarrow> (\<exists>b xs. three_chain (mem st) 0 b \<and> is_path (heap (mem st)) (b_exec st) xs b \<and> b_exec st' = b \<and>
                   executed (outs st') = executed (outs st) @ xs \<and>
                   decided (outs st') = decided (outs st) @ concat (map (finalities st) xs)) \<or>
               (\<nexists>b. three_chain (mem st) 0 b) \<and> b_exec st' = b_exec st \<and>
                   executed (outs st') = executed (outs st) \<and> decided (outs st') = decided (outs st)
    | Inl e \<Rightarrow> e = RuntimeError ''safety breached :( '' \<and>
               (\<exists>b. three_chain (mem st) 0 b \<and> (\<nexists>xs. is_path (heap (mem st)) (b_exec st) xs b)))"
proof -
  obtain st where s: "scenario 0 [(0, 0, 7)] [CallPropose [1] [0], CallPropose [2] [1], CallPropose [3] [2], CallPropose [4] [3]] = Inr st"
    "executed (outs st) = [1]" "b0 st = 0"
    using leader_run by blast
  note r = scenario_reachable [OF s(1)]
  have "0 < nxt (mem st)" using heap_okD(1) [OF core_invD(1) [OF reachable_inv(1) [OF r]]] s(3) by simp
  from update_commit_rule [OF r this] r s(2) show ?thesis by (intro exI [of _ st] conjI)
qed

section \<open>Voting\<close>



text \<open>
  C9: The voting rule. When \<open>on_receive_proposal\<close> of a stored block succeeds on a reachable
  state, then with \<open>st1\<close> the state after \<open>update\<close>: the replica accepts the block
  exactly when it is higher than \<open>vheight\<close> and either its certificate is for a block higher
  than \<open>b_lock\<close> or it descends from \<open>b_lock\<close>. Accepting sets \<open>vheight\<close> to
  the block's height, and the vote for the block is sent unless voting is disabled; otherwise
  nothing is voted and \<open>vheight\<close> stays.
\<close>

theorem voting_rule:
  assumes "reachable E st" "prop_blk prop < nxt (mem st)" "on_receive_proposal E prop st = Inr st'"
  shows "\<exists>st1. update (prop_blk prop) st = Inr st1 \<and>
    (let r = prop_blk prop;
         accept = (vheight st < height (blk st r) \<and>
           ((\<exists>q. qc_ref (blk st r) = Some q \<and> height (blk st (b_lock st1)) < height (blk st q)) \<or>
            (\<exists>xs. is_path (heap (mem st)) (b_lock st1) xs r))) in
     vheight st' = (if accept then height (blk st r) else vheight st) \<and>
     votes (outs st') = votes (outs st) @ (if accept \<and> \<not> vote_disabled st1 then [r] else []))"
proof -
  note inv = reachable_inv(1) [OF assms(1)]
  from assms(3) inv assms(2) obtain st1 op where u: "update (prop_blk prop) st = Inr st1"
    and ev: "evolves st st1" and o: "opinion (prop_blk prop) st1 = Inr op"
    and st': "st' = answer_proposal E prop op st1" and r: "prop_blk prop < nxt (mem st1)"
    by (rule on_receive_proposal_steps)
  note fr = update_frame [OF u inv assms(2)] and ge = graph_eqD [OF update_frame(1) [OF u inv assms(2)]]
  show ?thesis
    using u o opinion_result [OF evolvesD(2) [OF ev] r]
    by (auto simp: st' Let_def fr ge is_path_graph_eq [OF fr(1)])
qed

theorem voting_rule_witness:
  "\<exists>st st'. reachable tiny_env st \<and> on_receive_proposal tiny_env \<lparr>proposer = 0, prop_blk = 1\<rparr> st = Inr st' \<and>
     votes (outs st') = [1] \<and> (\<exists>st1. update 1 st = Inr st1 \<and> vheight st < height (blk st 1))"
proof -
  obtain st' where s: "scenario 1 [(0, 0, 7), (1, 1, 7)] [CallCreate [1] [0], CallDeliver 1, CallReceive \<lparr>proposer = 0, prop_blk = 1\<rparr>] = Inr st'"
    "votes (outs st') = [1]"
    using follower_run by blast
  from s(1) obtain st where c: "scenario 1 [(0, 0, 7), (1, 1, 7)] [CallCreate [1] [0], CallDeliver 1] = Inr st"
    and p: "run_call tiny_env (CallReceive \<lparr>proposer = 0, prop_blk = 1\<rparr>) st = Inr st'"
    by (auto simp: scenario_def bind_Inr_iff simp del: run_call.simps)
  from p have o: "on_receive_proposal tiny_env \<lparr>proposer = 0, prop_blk = 1\<rparr> st = Inr st'" and n: "1 < nxt (mem st)"
    by (auto simp: bind_Inr_iff checked_def split: if_splits)
  have v: "votes (outs st) = []" using follower_ready c by auto
  from voting_rule [OF scenario_reachable [OF c] _ o] n v s(2) scenario_reachable [OF c] o
  show ?thesis by (intro exI [of _ st] exI [of _ st']) (auto simp: Let_def split: if_splits)
qed

end
