(* ===== verification/Hs_Net_Props.thy ===== *)
theory Hs_Net_Props
  imports Hs_Net_Log Hs_Safety
begin

text \<open>
  The properties of the network layer: it refines the core, the application is handed the chain,
  the size of a quorum, when a vote relay is sent, how commands are batched, and where a handler
  ends in an undefined access.
\<close>

section \<open>A started replica\<close>

text \<open>Two replicas with a fanout of two.\<close>

definition sample_entries :: "uint256 replica_entry list" where
  "sample_entries = [\<lparr>re_addr = 10, re_pubkey = 7, re_cert = 100\<rparr>, \<lparr>re_addr = 11, re_pubkey = 7, re_cert = 101\<rparr>]"

lemma sample_new:
  fixes E :: "(uint256, uint256, 's, 'b) env"
  shows "\<exists>b. HotStuffBase_new E AggBLS 1 0 7 0 0 (0, 0) = Inr b \<and> nreplicas (config (hsc b)) = 0 \<and> peers b = []"
  by (simp add: HotStuffBase_new_def boot_eval)

lemma sample_start:
  fixes E :: "(uint256, uint256, 's, 'b) env"
  assumes "HotStuffBase_new E AggBLS 1 0 7 0 0 (0, 0) = Inr c0"
  shows "\<exists>b. start E 10 sample_entries (on_hsc (\<lambda>st. set_piped_latency 0 0 (set_fanout 2 st)) c0) = Inr b \<and>
    blk_size b = 1 \<and> final_buffer b = [] \<and> cmd_pending b = [] \<and> cmd_pending_buffer b = [] \<and>
    my_id (hsc b) = 0 \<and> piped_queue (hsc b) = [] \<and> decision_waiting b = []"
proof -
  have c: "blk_size c0 = 1" "final_buffer c0 = []" "decision_waiting c0 = []" "parentPeer c0 = None"
    "cmd_pending c0 = []" "cmd_pending_buffer c0 = []" "my_id (hsc c0) = 0" "piped_queue (hsc c0) = []"
    "config (hsc c0) = ReplicaConfig_new"
    using assms by (auto simp: HotStuffBase_new_def boot_eval)
  have "\<exists>t. tree_build (Suc (Suc 0)) 2 0 peer None = Inr t" for peer
    by (simp add: tree_build_def tree_loop.simps numeral_2_eq_2 Let_def tree_edge_def)
  then obtain t where "tree_build (Suc (Suc 0)) 2 0 (\<lambda>j. re_cert (sample_entries ! j)) None = Inr t" by blast
  then show ?thesis
    using c unfolding sample_entries_def
    by (simp add: start_def Let_def add_peer_def set_piped_latency_def set_fanout_def add_replica_def
        add_replica_cfg_def ReplicaConfig_new_def on_init_def)
qed

lemma sample_started:
  fixes E :: "(uint256, uint256, 's, 'b) env"
  shows "\<exists>b. started E b \<and> blk_size b = 1 \<and> final_buffer b = [] \<and> cmd_pending b = [] \<and> cmd_pending_buffer b = [] \<and>
     my_id (hsc b) = 0 \<and> piped_queue (hsc b) = [] \<and> decision_waiting b = []"
proof -
  obtain b0 where b0: "HotStuffBase_new E AggBLS 1 0 7 0 0 (0, 0) = Inr b0" using sample_new by blast
  with sample_start [OF b0] show ?thesis unfolding started_def by blast
qed

text \<open>A client submits a command to the started replica.\<close>

lemma sample_base_run:
  "\<exists>b b'. base_reachable tiny_env b \<and> base_low_step tiny_env b b' \<and> base_reachable tiny_env b' \<and> cmd_pending b' = [(5, 0)] \<and> b' = exec_command 5 0 b"
proof -
  obtain b where b: "started tiny_env b" "cmd_pending b = []" "piped_queue (hsc b) = []" using sample_started by blast
  let ?b' = "exec_command 5 0 b"
  have "low (hsc ?b')" using reachable_inv(2) [OF started_ok(1) [OF b(1)]] by (simp add: exec_command_def)
  then have st: "base_low_step tiny_env b ?b'"
    using b(3) base_step.command [of tiny_env b 5 0] by (simp add: base_low_step_def piped_connected_def exec_command_def)
  have "base_reachable tiny_env b" "base_reachable tiny_env ?b'"
    using b(1) st unfolding base_reachable_def by blast+
  with st b(2) show ?thesis by (intro exI [of _ b] exI [of _ ?b']) (simp add: exec_command_def)
qed

section \<open>The network layer and the core\<close>



text \<open>
  C11: What the application is told. In every reachable state of the network layer the blocks
  passed to \<open>on_consensus\<close> are the first-parent path from the genesis block to \<open>b_exec\<close>,
  each once, and the commands passed to \<open>state_machine_execute\<close> are the commands of these
  blocks, in order, each with its index, height and block hash.
\<close>

theorem application_log:
  assumes "base_reachable E b"
  shows "is_path (heap (mem (hsc b))) (b0 (hsc b)) (consensus_log (app b)) (b_exec (hsc b)) \<and>
    distinct (consensus_log (app b)) \<and>
    execution_log (app b) = concat (map (finalities (hsc b)) (consensus_log (app b)))"
proof -
  note i = core_invD [OF reachable_inv(1) [OF base_reachable_facts(1) [OF assms]]]
  then show ?thesis
    using is_path_distinct [OF i(1), of "b0 (hsc b)" "executed (outs (hsc b))" "b_exec (hsc b)"] base_reachable_facts(2) [OF assms]
    by (auto simp: log_ok_def ref_ok_def in_sync_def)
qed

theorem application_log_witness:
  "\<exists>b. base_reachable tiny_env b \<and> cmd_pending b = [(5, 0)] \<and>
     is_path (heap (mem (hsc b))) (b0 (hsc b)) (consensus_log (app b)) (b_exec (hsc b)) \<and> distinct (consensus_log (app b))"
proof -
  obtain b where b: "base_reachable tiny_env b" "cmd_pending b = [(5, 0)]" using sample_base_run by blast
  from application_log [OF b(1)] b show ?thesis by blast
qed

section \<open>Quorums\<close>

lemma add_peers_config:
  "nreplicas (config (hsc (fold (add_peer a) es b))) = nreplicas (config (hsc b)) + of_nat (length es) \<and>
   peers (fold (add_peer a) es b) = peers b @ map (re_cert \<circ> snd) (filter (\<lambda>e. re_addr (snd e) \<noteq> a) es)"
  by (induction es arbitrary: b) (simp_all add: add_peer_def add_replica_def add_replica_cfg_def Let_def)

lemma filter_zip_snd: "length (filter (\<lambda>e. P (snd e)) (zip [0..<length xs] xs)) = length (filter P xs)"
proof -
  have "filter P xs = map snd (filter (\<lambda>e. P (snd e)) (zip [0..<length xs] xs))"
    using filter_map [of P snd "zip [0..<length xs] xs"] by (simp add: comp_def)
  then show ?thesis by simp
qed

lemma start_majority:
  assumes "start E a rs b = Inr b'" "nreplicas (config (hsc b)) = 0" "peers b = []" "length rs < 2 ^ 32"
  shows "unat (nmajority (config (hsc b'))) = length rs - length (filter (\<lambda>e. re_addr e \<noteq> a) rs) div 3"
proof -
  let ?k = "length (filter (\<lambda>e. re_addr e \<noteq> a) rs) div 3"
  have k: "?k \<le> length rs" by (meson div_le_dividend le_trans length_filter_le)
  have "nmajority (config (hsc b')) = of_nat (length rs) - ucast (of_nat ?k :: u32)"
    using assms(1-3) add_peers_config [of a "zip [0..<length rs] rs" "b\<lparr>childPeers := {}\<rparr>"]
      filter_zip_snd [of "\<lambda>e. re_addr e \<noteq> a" rs]
    by (auto simp: start_def Let_def bind_Inr_iff on_init_def)
  also have "ucast (of_nat ?k :: u32) = (of_nat ?k :: u64)"
    using k assms(4) by (intro unsigned_word_eqI [where 'a = nat]) (simp add: unsigned_of_nat take_bit_nat_eq_self)
  also have "of_nat (length rs) - of_nat ?k = (of_nat (length rs - ?k) :: u64)" using k by simp
  finally show ?thesis using assms(4) by (simp add: unsigned_of_nat take_bit_nat_eq_self)
qed

text \<open>
  Quorums intersect in a correct replica. For \<open>n\<close> replicas of which one has the own address,
  \<open>start\<close> sets \<open>nmajority\<close> to \<open>n - f\<close> with \<open>f = (n - 1) div 3\<close>, and any two sets of that many
  replicas have more than \<open>f\<close> replicas in common.
\<close>

theorem quorum_intersection:
  assumes "start E a rs b = Inr b'" "nreplicas (config (hsc b)) = 0" "peers b = []" "length rs < 2 ^ 32"
    and "length (filter (\<lambda>e. re_addr e = a) rs) = 1"
    and "Q1 \<subseteq> {..<length rs}" "Q2 \<subseteq> {..<length rs}"
    and "unat (nmajority (config (hsc b'))) \<le> card Q1" "unat (nmajority (config (hsc b'))) \<le> card Q2"
  shows "unat (nmajority (config (hsc b'))) = length rs - (length rs - 1) div 3 \<and> (length rs - 1) div 3 < card (Q1 \<inter> Q2)"
proof -
  define n f where "n = length rs" and "f = (length rs - 1) div 3"
  have l: "length (filter (\<lambda>e. re_addr e \<noteq> a) rs) = n - 1" and n: "1 \<le> n"
    using sum_length_filter_compl [of "\<lambda>e. re_addr e = a" rs] assms(5) unfolding n_def by simp_all
  have m: "unat (nmajority (config (hsc b'))) = n - f"
    using start_majority [OF assms(1-4)] unfolding l by (simp add: n_def f_def)
  have f: "3 * f \<le> n - 1" by (simp add: n_def f_def)
  have fin: "finite Q1" "finite Q2" using assms(6,7) finite_subset by auto
  have "card (Q1 \<union> Q2) \<le> n" using card_mono [of "{..<n}" "Q1 \<union> Q2"] assms(6,7) by (simp add: n_def)
  then have "card Q1 + card Q2 \<le> n + card (Q1 \<inter> Q2)" using card_Un_Int [OF fin] by linarith
  moreover have "n - f \<le> card Q1" "n - f \<le> card Q2" using assms(8,9) m by simp_all
  ultimately have "f < card (Q1 \<inter> Q2)" using n f by linarith
  with m show ?thesis unfolding n_def f_def by (rule conjI)
qed

theorem quorum_intersection_witness:
  "\<exists>b. nmajority (config (hsc b)) = 2 \<and> (1 :: nat) div 3 < card ({..<2} \<inter> {..<(2 :: nat)}) \<and> started tiny_env b"
proof -
  obtain b0 where b0: "HotStuffBase_new tiny_env AggBLS 1 0 7 0 0 (0, 0) = Inr b0"
    "nreplicas (config (hsc b0)) = 0" "peers b0 = []" using sample_new by blast
  let ?b1 = "on_hsc (\<lambda>st. set_piped_latency 0 0 (set_fanout 2 st)) b0"
  obtain b where s: "start tiny_env 10 sample_entries ?b1 = Inr b" using sample_start b0(1) by blast
  have n: "nreplicas (config (hsc ?b1)) = 0" "peers ?b1 = []" "length sample_entries < 2 ^ 32"
    "length (filter (\<lambda>e. re_addr e = 10) sample_entries) = 1" "length sample_entries = 2"
    using b0 by (simp_all add: sample_entries_def set_piped_latency_def set_fanout_def)
  have m: "unat (nmajority (config (hsc b))) = 2"
    using start_majority [OF s n(1-3)] by (simp add: sample_entries_def)
  have "started tiny_env b" using b0(1) s unfolding started_def by blast
  with quorum_intersection [OF s n(1-4), of "{..<2}" "{..<2}"] m n(5) show ?thesis
    by (intro exI [of _ b]) (auto simp: unsigned_word_eqI [where 'a = nat])
qed

section \<open>Votes\<close>

text \<open>
  C17: A vote for a delivered block that has no certificate of its own yet ends the handler of a
  replica that is not the proposer with an access through a null pointer.
\<close>

theorem vote_without_cert_crashes:
  assumes "MsgVote_parse E (sch (hsc b)) msg = Inr v" "my_id (hsc b) \<noteq> prid"
    and "find_blk (v_blk_hash v) (mem (hsc b)) = Some r" "delivered (bblk b r)" "self_qc (bblk b r) = None"
  shows "vote_handler E prid msg (Some p) now b = Inl NullDeref"
  using assms
  by (simp add: vote_handler_def normalise_piped_def get_potentially_not_delivered_blk_def ensure_cert_def)

lemma follower_uncertified:
  "\<exists>st. scenario 1 [(0, 0, 7), (1, 1, 7)] [CallCreate [1] [0], CallDeliver 1] = Inr st \<and> sch st = AggBLS \<and> my_id st = 1 \<and>
     delivered (blk st 1) \<and> self_qc (blk st 1) = None \<and> find_blk (hash (blk st 1)) (mem st) = Some 1"
  by (simp add: scenario_def boot_eval core_eval check_eval two_bits)

lemma tiny_parse_vote: "MsgVote_parse tiny_env sc msg = MsgVote_parse sample_env sc msg"
proof -
  have f: "get_int tiny_env = get_int sample_env" "get_u256 tiny_env = get_u256 sample_env"
    "get_data tiny_env = get_data sample_env" "sig_size tiny_env = sig_size sample_env" "sig_des tiny_env = sig_des sample_env"
    by (simp_all add: tiny_env_def)
  then have "sig_unserialize tiny_env = sig_unserialize sample_env" by (intro ext) (simp add: sig_unserialize_def split: option.split)
  with f show ?thesis
    by (cases sc) (simp_all add: MsgVote_parse_def vote_unserialize_def get_rid_def parse_part_cert_def)
qed

theorem vote_without_cert_crashes_witness:
  "\<exists>(b :: (uint256, uint256, uint256, bool list) base) msg. reachable tiny_env (hsc b) \<and>
     vote_handler tiny_env 0 msg (Some 5) (0, 0) b = Inl NullDeref"
proof -
  obtain st where st: "scenario 1 [(0, 0, 7), (1, 1, 7)] [CallCreate [1] [0], CallDeliver 1] = Inr st" "sch st = AggBLS" "my_id st = 1"
    "delivered (blk st 1)" "self_qc (blk st 1) = None" "find_blk (hash (blk st 1)) (mem st) = Some 1"
    using follower_uncertified by blast
  obtain c :: "(uint256, uint256, uint256, bool list) base" where "peers c = []" using sample_new by blast
  let ?b = "c\<lparr>hsc := st\<rparr>" and ?v = "\<lparr>voter = 0, v_blk_hash = hash (blk st 1), v_cert = Some (PartCertBLSAgg 9 16)\<rparr>"
  obtain msg where m: "MsgVote sample_env ?v = Inr msg" by (simp add: MsgVote_def vote_serialize_def)
  have "MsgVote_parse tiny_env (sch (hsc ?b)) msg = Inr ?v"
    using m vote_wire.get_put_exact [of sample_env AggBLS ?v msg] st(2)
    unfolding tiny_parse_vote by (simp add: MsgVote_def MsgVote_parse_def)
  from vote_without_cert_crashes [OF this, of 0 1 5 "(0, 0)"] st scenario_reachable [OF st(1)] show ?thesis
    by (intro exI [of _ ?b] exI [of _ msg]) simp
qed

lemma qc_has_n_compute [simp]: "qc_has_n n (qc_compute E q) = qc_has_n n q"
  by (cases q) (simp_all add: agg_has_n_def agg_compute_def split: option.split)

text \<open>What a vote does on an inner node that still waits for its group.\<close>

lemma inner_vote_result:
  assumes "inner_vote E r v pc q b = Inr b'" "\<not> qc_has_n (group_size (hsc b)) q"
  obtains q1 where "qc_add_part E (config (hsc b)) (voter v) pc q = Inr q1" "\<not> qc_has_n (group_size (hsc b)) q1"
      "b' = on_hsc (put_cert r q1) b"
  | q1 hs ok where "qc_add_part E (config (hsc b)) (voter v) pc q = Inr q1" "qc_has_n (group_size (hsc b)) q1"
      "hsc b' = put_cert r (qc_compute E q1) ((hsc b)\<lparr>piped_queue := hs\<rparr>)"
      "qc_verify E (config (hsc b)) (qc_compute E q1) = Inr ok" "parentPeer b' = parentPeer b"
      "if ok then \<exists>m. MsgRelay E \<lparr>vr_blk_hash = v_blk_hash v, vr_cert = Some (qc_clone (qc_compute E q1))\<rparr> = Inr m \<and>
         net b' = net b @ [NetRelay (parentPeer b) m] else net b' = net b"
proof -
  from assms obtain q1 where q1: "qc_add_part E (config (hsc b)) (voter v) pc q = Inr q1"
    by (auto simp: inner_vote_def bind_Inr_iff)
  show ?thesis
  proof (cases "qc_has_n (group_size (hsc b)) q1")
    case False
    with assms q1 show ?thesis by (intro that(1) [OF q1 False]) (simp add: inner_vote_def)
  next
    case True
    with assms q1 obtain st1 where st1: "pop_piped r (hsc b) = Inr st1"
      by (auto simp: inner_vote_def bind_Inr_iff)
    obtain hs where hs: "st1 = (hsc b)\<lparr>piped_queue := hs\<rparr>" using pop_piped_shape [OF st1] by blast
    from assms q1 True st1 obtain ok where ok: "qc_verify E (config (hsc b)) (qc_compute E q1) = Inr ok"
      by (auto simp: inner_vote_def Let_def hs bind_Inr_iff)
    let ?b = "b\<lparr>hsc := put_cert r (qc_compute E q1) ((hsc b)\<lparr>piped_queue := hs\<rparr>)\<rparr>"
    have b': "(if ok then send_relay E (v_blk_hash v) (qc_compute E q1) ?b else Inr ?b) = Inr b'"
      using assms q1 True st1 ok by (simp add: inner_vote_def Let_def hs split: if_split_asm)
    show ?thesis
      by (rule that(2) [OF q1 True _ ok, of hs])
         (use b' in \<open>auto simp: send_relay_def bind_Inr_iff split: if_split_asm\<close>)
  qed
qed


lemma u64_2_le_1 [simp]: "\<not> (2 :: u64) \<le> 1"
  by (simp add: word_le_nat_alt)


section \<open>The ready queue\<close>

lemma resolve_ready_enough:
  assumes "length (rdy_queue st) \<le> fuel"
  shows "resolve_ready stale fuel ch st = resolve_ready stale (length (rdy_queue st)) ch st"
  using assms
proof (induction "length (rdy_queue st)" arbitrary: fuel ch st)
  case 0
  then show ?case by (cases fuel) simp_all
next
  case (Suc n)
  then obtain k where k: "fuel = Suc k" "n \<le> k" by (metis Suc_le_D Suc_le_mono)
  have "resolve_ready stale k c (on_qc_finish r s2) = resolve_ready stale n c (on_qc_finish r s2)"
    if "find_ready st ch (rdy_queue st) = Inr (Some (h, r))"
      "update_hqc r x (st\<lparr>rdy_queue := remove1 h (rdy_queue st), piped_queue := pq\<rparr>) = Inr s2" for h r x pq s2 c
  proof -
    have "rdy_queue (on_qc_finish r s2) = remove1 h (rdy_queue st)"
      using that(2) by (auto simp: update_hqc_def on_hqc_update_def on_qc_finish_def bind_Inr_iff split: if_split_asm)
    then have l: "length (rdy_queue (on_qc_finish r s2)) = n"
      using find_ready_held(1) [OF that(1)] Suc.hyps(2) by (simp add: length_remove1)
    show ?thesis using Suc.hyps(1) [OF l [symmetric], of k c] k(2) by (simp add: l)
  qed
  then show ?case
    unfolding k(1) Suc.hyps(2) [symmetric] resolve_ready.simps
    by (intro bind_cong refl) (auto simp: Let_def split: option.split intro!: bind_cong)
qed

text \<open>
  The loop over the ready queue ends: every round removes a block from the queue, so the
  length of the queue is enough fuel and more fuel changes nothing.
\<close>

theorem ready_loop_ends:
  "resolve_ready stale (length (rdy_queue st) + k) ch st = resolve_ready stale (length (rdy_queue st)) ch st"
  by (rule resolve_ready_enough) simp

section \<open>Commands\<close>

lemma accept_command_fill:
  assumes "length (cmd_pending_buffer b) < blk_size b" "final_buffer b = []"
  shows "cmd_pending_buffer (accept_command E h cb b) = cmd_pending_buffer b @ [h]"
    "map_of (decision_waiting (accept_command E h cb b)) x =
       (if x = h \<and> map_of (decision_waiting b) h = None then Some cb else map_of (decision_waiting b) x)"
    "app (accept_command E h cb b) = app b @ [AppCallback cb (pending_reply E h (hsc b))]"
  using assms by (simp_all add: accept_command_def Let_def)

lemma cmd_loop_fill:
  assumes "length (cmd_pending_buffer b) < blk_size b" "final_buffer b = []" "prid = my_id (hsc b)"
    and "blk_size b - length (cmd_pending_buffer b) \<le> length q"
  shows "\<exists>b'. cmd_loop E prid q b = (True, b') \<and>
    final_buffer b' = cmd_pending_buffer b @ map fst (take (blk_size b - length (cmd_pending_buffer b)) q) \<and>
    cmd_pending_buffer b' = [] \<and> cmd_pending b' = drop (blk_size b - length (cmd_pending_buffer b)) q \<and>
    jobs b' = jobs b @ [JobBeat] \<and> hsc b' = hsc b \<and>
    app b' = app b @ map (\<lambda>(h, cb). AppCallback cb (pending_reply E h (hsc b))) (take (blk_size b - length (cmd_pending_buffer b)) q)"
  using assms
proof (induction q arbitrary: b)
  case (Cons x q)
  obtain h cb where x: "x = (h, cb)" by (cases x)
  let ?b = "accept_command E h cb b"
  note a = accept_command_fill [OF Cons.prems(1,2), of E h cb]
  show ?case
  proof (cases "Suc (length (cmd_pending_buffer b)) = blk_size b")
    case True
    then have "blk_size b - length (cmd_pending_buffer b) = Suc 0" by linarith
    then show ?thesis using Cons.prems True a by (simp add: x Let_def)
  next
    case False
    then have l: "length (cmd_pending_buffer ?b) < blk_size ?b" "\<not> blk_size ?b \<le> length (cmd_pending_buffer ?b)"
      using Cons.prems(1) a(1) by simp_all
    have d: "blk_size b - length (cmd_pending_buffer b) = Suc (blk_size ?b - length (cmd_pending_buffer ?b))"
      using Cons.prems(1) a(1) by simp
    have "blk_size ?b - length (cmd_pending_buffer ?b) \<le> length q" using Cons.prems(4) d by simp
    from Cons.IH [OF l(1) _ _ this] show ?thesis
      using Cons.prems l(2) unfolding d x by (simp add: a Let_def)
  qed
qed simp

text \<open>
  Batching. On the proposer, with no batch waiting and enough commands pending to fill a block,
  the command handler moves exactly the next commands into one batch of \<open>blk_size\<close> commands in the
  order they were submitted, answers each of them as pending, leaves the others in the queue, and
  asks for one beat.
\<close>

theorem command_batch:
  assumes "length (cmd_pending_buffer b) < blk_size b" "final_buffer b = []" "prid = my_id (hsc b)"
    and "blk_size b \<le> length (cmd_pending_buffer b) + length (cmd_pending b)"
  shows "\<exists>b'. cmd_handler E prid b = (True, b') \<and> length (final_buffer b') = blk_size b \<and>
    final_buffer b' @ map fst (cmd_pending b') = cmd_pending_buffer b @ map fst (cmd_pending b) \<and>
    cmd_pending_buffer b' = [] \<and> jobs b' = jobs b @ [JobBeat] \<and> hsc b' = hsc b \<and>
    app b' = app b @ map (\<lambda>(h, cb). AppCallback cb (pending_reply E h (hsc b)))
      (take (blk_size b - length (cmd_pending_buffer b)) (cmd_pending b))"
proof -
  let ?k = "blk_size b - length (cmd_pending_buffer b)"
  have k: "?k \<le> length (cmd_pending b)" using assms(4) by simp
  from cmd_loop_fill [OF assms(1-3) this] obtain b' where b': "cmd_loop E prid (cmd_pending b) b = (True, b')"
    "final_buffer b' = cmd_pending_buffer b @ map fst (take ?k (cmd_pending b))" "cmd_pending b' = drop ?k (cmd_pending b)"
    "cmd_pending_buffer b' = []" "jobs b' = jobs b @ [JobBeat]" "hsc b' = hsc b"
    "app b' = app b @ map (\<lambda>(h, cb). AppCallback cb (pending_reply E h (hsc b))) (take ?k (cmd_pending b))" by blast
  have "map fst (take ?k (cmd_pending b)) @ map fst (drop ?k (cmd_pending b)) = map fst (cmd_pending b)"
    by (metis append_take_drop_id map_append)
  then show ?thesis using b' k assms(1) by (auto simp: cmd_handler_def)
qed

theorem command_batch_witness:
  "\<exists>(b :: (uint256, uint256, uint256, bool list) base) b'. started tiny_env b \<and>
     cmd_handler tiny_env 0 (exec_command 6 1 (exec_command 5 0 b)) = (True, b') \<and> final_buffer b' = [5] \<and> cmd_pending b' = [(6, 1)]"
proof -
  obtain b where b: "started tiny_env b" "blk_size b = 1" "final_buffer b = []" "cmd_pending b = []" "cmd_pending_buffer b = []"
    "my_id (hsc b) = 0" using sample_started by blast
  let ?b = "exec_command 6 1 (exec_command 5 0 b)"
  from command_batch [of ?b 0 tiny_env] b obtain b' where b': "cmd_handler tiny_env 0 ?b = (True, b')" "length (final_buffer b') = 1"
    "final_buffer b' @ map fst (cmd_pending b') = [5, 6]" by (auto simp: exec_command_def)
  then have "final_buffer b' = [5]" by (cases "final_buffer b'") auto
  moreover have "cmd_pending b' = [(6, 1)]" using b' b by (auto simp: cmd_handler_def exec_command_def Let_def accept_command_def)
  ultimately show ?thesis using b(1) b'(1) by blast
qed

lemma fetch_batch [simp]:
  "final_buffer (fetch_send E h p b) = final_buffer b"
  "final_buffer (fetch_add_replica E h p f b) = final_buffer b"
  "final_buffer (async_fetch_blk E h q f b) = final_buffer b"
  "final_buffer (async_deliver_blk E h p b) = final_buffer b"
  "final_buffer (on_fetch_blk r b) = final_buffer b"
  by (simp_all add: fetch_send_def fetch_add_replica_def async_fetch_blk_def async_deliver_blk_def on_fetch_blk_def Let_def
      split: option.split)

lemma fold_batch:
  assumes "\<And>x b. final_buffer (f x b) = final_buffer b"
  shows "final_buffer (fold f xs b) = final_buffer b"
  by (induction xs arbitrary: b) (simp_all add: assms)

lemma fold_fetch_batch [simp]:
  "final_buffer (fold (fetch_send E h) xs b) = final_buffer b"
  "final_buffer (fold (\<lambda>h. async_fetch_blk E h q f) hs b) = final_buffer b"
  "final_buffer (fold (\<lambda>h. async_deliver_blk E h p) hs b) = final_buffer b"
  "final_buffer (fold on_fetch_blk rs b) = final_buffer b"
  by (simp_all add: fold_batch)

lemma dispatch_batch: "dispatch E x b = Inr b' \<Longrightarrow> final_buffer b' = final_buffer b"
  by (cases x) (auto simp: do_broadcast_proposal_def do_vote_def do_decide_def do_consensus_def Let_def bind_Inr_iff
      split: option.split_asm)

lemma run_core_batch:
  assumes "run_core E f b = Inr b'"
  shows "final_buffer b' = final_buffer b"
proof -
  from assms obtain st where "fold_res (dispatch E) (drop (length (outs (hsc b))) (outs st)) (b\<lparr>hsc := st\<rparr>) = Inr b'"
    by (auto simp: run_core_def bind_Inr_iff)
  then show ?thesis by (rule fold_res_inv) (auto dest: dispatch_batch)
qed

lemma normalise_batch: "normalise_piped E prid h now b = Inr b' \<Longrightarrow> final_buffer b' = final_buffer b"
  by (auto simp: normalise_piped_def bind_Inr_iff split: if_split_asm dest: run_core_batch)

lemma handler_batch:
  "propose_handler E msg peer b = Inr b' \<Longrightarrow> final_buffer b' = final_buffer b"
  "vote_handler E prid msg peer now b = Inr b' \<Longrightarrow> final_buffer b' = final_buffer b"
  "vote_relay_handler E prid stale msg peer now b = Inr b' \<Longrightarrow> final_buffer b' = final_buffer b"
  "req_blk_handler E msg peer b = Inr b' \<Longrightarrow> final_buffer b' = final_buffer b"
  "resp_blk_handler E msg b = Inr b' \<Longrightarrow> final_buffer b' = final_buffer b"
  by (auto simp: propose_handler_def vote_handler_def vote_relay_handler_def req_blk_handler_def resp_blk_handler_def
      Let_def bind_Inr_iff split: option.split_asm if_split_asm dest!: normalise_batch run_core_batch)

lemma send_relay_batch: "send_relay E h q b = Inr b' \<Longrightarrow> final_buffer b' = final_buffer b"
  by (auto simp: send_relay_def bind_Inr_iff)

lemma inner_vote_batch: "inner_vote E r v pc q b = Inr b' \<Longrightarrow> final_buffer b' = final_buffer b"
  by (auto simp: inner_vote_def Let_def bind_Inr_iff split: if_split_asm dest!: send_relay_batch)

lemma cont_batch:
  "vote_cont E prid r v ok b = Inr b' \<Longrightarrow> final_buffer b' = final_buffer b"
  "relay_cont E prid stale r w ok b = Inr b' \<Longrightarrow> final_buffer b' = final_buffer b"
  "fetched_cont E h p b = Inr b' \<Longrightarrow> final_buffer b' = final_buffer b"
  "deliver_cont E r ok now b = Inr b' \<Longrightarrow> final_buffer b' = final_buffer b"
  "resp_cont E p hs b = Inr b' \<Longrightarrow> final_buffer b' = final_buffer b"
  "do_vote_cont E prop v prid b = Inr b' \<Longrightarrow> final_buffer b' = final_buffer b"
  "beat_cont E prid ps c now t1 t2 t3 b = Inr b' \<Longrightarrow> final_buffer b' = final_buffer b"
  by (auto simp: vote_cont_def relay_cont_def fetched_cont_def deliver_cont_def base_on_deliver_blk_def resp_cont_def
      do_vote_cont_def beat_cont_def Let_def bind_Inr_iff split: option.split_asm if_split_asm
      dest!: run_core_batch inner_vote_batch send_relay_batch)

lemma run_job_batch: "run_job E a j b = Inr b' \<Longrightarrow> final_buffer b' = final_buffer b"
  by (cases j) (auto simp: proposal_cont_def dest: run_core_batch cont_batch)

lemma cmd_loop_batch: "final_buffer b \<noteq> [] \<Longrightarrow> final_buffer (snd (cmd_loop E prid q b)) = final_buffer b"
  by (induction E prid q b rule: cmd_loop.induct) (auto simp: Let_def)

text \<open>
  C14: Once a batch is formed it never changes: \<open>beat\<close> proposes it but nothing removes it, so no
  later command enters a block and every block proposed from then on carries the same commands.
\<close>

theorem batch_never_replaced:
  assumes "base_step E b b'" "final_buffer b \<noteq> []"
  shows "final_buffer b' = final_buffer b"
  using assms(1)
proof cases
  case (commands prid again)
  then show ?thesis using cmd_loop_batch [OF assms(2), of E prid "cmd_pending b"] by (simp add: cmd_handler_def)
next
  case (job xs j ys a)
  then show ?thesis using run_job_batch [of E a j "b\<lparr>jobs := xs @ ys\<rparr>" b'] by simp
next
  case (timer h)
  then show ?thesis by (simp add: fetch_timeout_cb_def split: option.split)
qed (auto simp: exec_command_def dest: handler_batch)

theorem batch_never_replaced_witness:
  "\<exists>(b :: (uint256, uint256, uint256, bool list) base) b'. final_buffer b = [5] \<and> base_step tiny_env b b' \<and>
     cmd_pending b' = [(6, 1)] \<and> final_buffer b' = [5]"
proof -
  obtain b :: "(uint256, uint256, uint256, bool list) base" where b: "final_buffer b = []" "cmd_pending b = []"
    using sample_started by blast
  let ?b = "b\<lparr>final_buffer := [5]\<rparr>"
  have s: "base_step tiny_env ?b (exec_command 6 1 ?b)" by (rule base_step.command)
  from batch_never_replaced [OF s] s b(2) show ?thesis
    by (intro exI [of _ ?b] exI [of _ "exec_command 6 1 ?b"]) (simp add: exec_command_def)
qed


section \<open>Decisions\<close>

text \<open>
  A decision is executed and answered once: \<open>do_decide\<close> passes the command to the state
  machine, then calls the callback waiting for it, if any, with the decision, and forgets it.
\<close>

theorem decide_answers_once:
  "do_decide f (do_decide f b) = (let b1 = do_decide f b in
     b1\<lparr>part_decided := part_decided b1 + 1, app := app b1 @ [AppExecute f]\<rparr>) \<and>
   app (do_decide f b) = app b @ AppExecute f #
     (case map_of (decision_waiting b) (fin_cmd_hash f) of None \<Rightarrow> [] | Some cb \<Rightarrow> [AppCallback cb f]) \<and>
   (\<forall>h. map_of (decision_waiting (do_decide f b)) h = (if h = fin_cmd_hash f then None else map_of (decision_waiting b) h))"
  by (auto simp: do_decide_def Let_def split: option.splits)

end
