(* ===== verification/Hs_App_Props.thy ===== *)
theory Hs_App_Props
  imports Hs_App Hs_Client Hs_Net_Props
begin

text \<open>
  The properties of the replica and client programs: what clients are told, how many commands a
  client has under way, what an answer is worth, and which configurations start a replica.
\<close>

section \<open>A started replica program\<close>

lemma sample_app_started:
  fixes E :: "(uint256, uint256, 's, 'b) env"
  shows "\<exists>a. app_reachable E a \<and> low (hsc (ha a)) \<and> piped_queue (hsc (ha a)) = [] \<and> my_id (hsc (ha a)) = 0 \<and>
    cmd_pending (ha a) = [] \<and> resp_queue a = [] \<and> requests a = [] \<and> resps_sent a = [] \<and> app (ha a) = []"
proof -
  obtain b1 where b1: "HotStuffBase_new E AggBLS 1 0 7 0 0 (0, 0) = Inr b1" using sample_new by blast
  let ?b = "on_hsc (\<lambda>st. set_piped_latency 0 0 (set_fanout 2 st)) b1"
  obtain b where b: "start E 10 sample_entries ?b = Inr b" "cmd_pending b = []" "my_id (hsc b) = 0" "piped_queue (hsc b) = []"
    using sample_start [OF b1] by blast
  have st: "started E b" using b1 b(1) unfolding started_def by blast
  let ?a = "(reset_imp_timer 0 (HotStuffApp_new 11 ?b))\<lparr>ha := b\<rparr>"
  have "app_start E 0 10 sample_entries (HotStuffApp_new 11 ?b) = Inr ?a"
    using b(1) by (simp add: app_start_def reset_imp_timer_def HotStuffApp_new_def)
  then have "app_reachable E ?a" using b1 unfolding app_reachable_def by blast
  moreover have "low (hsc b)" using reachable_inv(2) [OF started_ok(1) [OF st]] .
  ultimately show ?thesis using b started_boot(3) [OF st]
    by (intro exI [of _ ?a]) (simp add: reset_imp_timer_def HotStuffApp_new_def)
qed

text \<open>A request that arrives at the proposer with an empty queue is answered at once.\<close>

definition pending_answer :: "('p, 'k, 's, 'b) env \<Rightarrow> CommandDummy \<Rightarrow> ('p, 'k, 's, 'b) happ \<Rightarrow> Finality" where
  "pending_answer E c a = pending_reply E (cmd_hash c) (hsc (ha a))"

lemma request_answered:
  assumes "parse_cmd E msg = Inr c" "cmd_pending (ha a) = []" "resp_queue a = []" "prid = my_id (hsc (ha a))"
  shows "\<exists>a1 b. client_request_cmd_handler E msg addr a = Inr a1 \<and> base_step E (ha a1) b \<and>
    (\<nexists>h k. b = exec_command h k (ha a1)) \<and> hsc b = hsc (ha a) \<and>
    resp_queue (after_base now b a1) = [(pending_answer E c a, addr)] \<and>
    execution_log (app b) = execution_log (app (ha a)) \<and> resps_sent (after_base now b a1) = resps_sent a \<and>
    hsc (ha a1) = hsc (ha a) \<and> ha (after_base now b a1) = b"
proof -
  let ?k = "length (requests a)"
  let ?a1 = "a\<lparr>requests := requests a @ [(addr, cmd_hash c)], ha := exec_command (cmd_hash c) ?k (ha a)\<rparr>"
  let ?b = "snd (cmd_handler E prid (ha ?a1))"
  have p: "cmd_pending (ha ?a1) = [(cmd_hash c, ?k)]" using assms(2) by (simp add: exec_command_def)
  have b: "cmd_pending ?b = []" "hsc ?b = hsc (ha a)" "app ?b = app (ha a) @ [AppCallback ?k (pending_answer E c a)]"
    using assms(2,4) by (auto simp: cmd_handler_def Let_def exec_command_def accept_command_def pending_answer_def)
  have "base_step E (ha ?a1) ?b" by (rule base_step.commands [of E prid _ "fst (cmd_handler E prid (ha ?a1))"]) simp
  moreover have "\<nexists>h k. ?b = exec_command h k (ha ?a1)"
  proof
    assume "\<exists>h k. ?b = exec_command h k (ha ?a1)"
    then have "cmd_pending ?b \<noteq> []" by (auto simp: exec_command_def)
    then show False using b(1) by simp
  qed
  ultimately show ?thesis using b assms(1,3)
    by (intro exI [of _ ?a1] exI [of _ ?b])
       (simp add: client_request_cmd_handler_def after_base_def exec_command_def enqueue_resp_def del: on_app_event.simps(1))
qed

section \<open>Answers\<close>

text \<open>
  C32: What clients are told. In every reachable state of the replica program there is a list
  \<open>ds\<close> of answers taken from the response queue, of which those that could be sent were sent, in order.
  Every answer, sent or queued, is for a command the client at its address asked for; an answer
  with a decision is one of the decisions executed by the state machine; and a client gets at most as many
  decisions for a command as it sent requests for it.
\<close>

theorem answers_are_decisions:
  assumes "app_reachable E a"
  shows "\<exists>ds. subseq (resps_sent a) (map (\<lambda>(f, addr). (addr, MsgRespCmd E f)) ds) \<and>
    (\<forall>(f, addr) \<in> set (ds @ resp_queue a). (addr, fin_cmd_hash f) \<in> set (requests a) \<and>
       (fin_decision f \<noteq> 0 \<longrightarrow> f \<in> set (execution_log (app (ha a))))) \<and>
    (\<forall>addr h. length (filter (\<lambda>(f, x). fin_decision f \<noteq> 0 \<and> x = addr \<and> fin_cmd_hash f = h) (ds @ resp_queue a))
       \<le> length (filter ((=) (addr, h)) (requests a)))"
proof -
  obtain ds where c: "callbacks_ok (requests a) (ha a)" and ds: "answers a = ds @ resp_queue a"
    and s: "subseq (resps_sent a) (map (\<lambda>(f, addr). (addr, MsgRespCmd E f)) ds)"
    using app_reachable_ok [OF assms] by (auto simp: app_ok_def)
  have d: "distinct (decisive (callbacks (app (ha a))))"
    and k: "\<forall>(k, f) \<in> set (callbacks (app (ha a))). k < length (requests a) \<and> snd (requests a ! k) = fin_cmd_hash f \<and>
      (fin_decision f \<noteq> 0 \<longrightarrow> f \<in> set (execution_log (app (ha a))))"
    using c by (simp_all add: callbacks_ok_def called_ok_def)
  have "(addr, fin_cmd_hash f) \<in> set (requests a) \<and> (fin_decision f \<noteq> 0 \<longrightarrow> f \<in> set (execution_log (app (ha a))))"
    if "(f, addr) \<in> set (answers a)" for f addr
    using that k by (force simp: in_set_conv_nth prod_eq_iff)
  moreover have "length (filter (\<lambda>(f, x). fin_decision f \<noteq> 0 \<and> x = addr \<and> fin_cmd_hash f = h) (answers a))
       \<le> length (filter ((=) (addr, h)) (requests a))" for addr h
    by (rule decisive_count [OF d]) (use k in auto)
  ultimately show ?thesis using s unfolding ds by (intro exI [of _ ds]) auto
qed

theorem answers_are_decisions_witness:
  "\<exists>a :: (uint256, uint256, uint256, bool list) happ. app_reachable sample_env a \<and> length (resps_sent a) = 1 \<and>
    (\<exists>ds. subseq (resps_sent a) (map (\<lambda>(f, addr). (addr, MsgRespCmd sample_env f)) ds) \<and>
      (\<forall>(f, addr) \<in> set (ds @ resp_queue a). (addr, fin_cmd_hash f) \<in> set (requests a)))"
proof -
  obtain a :: "(uint256, uint256, uint256, bool list) happ" where a: "app_reachable sample_env a" "low (hsc (ha a))" "piped_queue (hsc (ha a)) = []"
    "my_id (hsc (ha a)) = 0" "cmd_pending (ha a) = []" "resp_queue a = []" "resps_sent a = []"
    using sample_app_started [of sample_env] by blast
  let ?c = "CommandDummy_new sample_env 3 0"
  have "parse_cmd sample_env (MsgReqCmd sample_env ?c) = Inr ?c"
    using command_wire.get_put_exact [of sample_env ?c] by (simp add: parse_cmd_def CommandDummy_new_def)
  from request_answered [OF this a(5,6) refl, of 77 0]
  obtain a1 b where r: "client_request_cmd_handler sample_env (MsgReqCmd sample_env ?c) 77 a = Inr a1"
    "base_step sample_env (ha a1) b" "\<nexists>h k. b = exec_command h k (ha a1)" "hsc b = hsc (ha a)"
    "resp_queue (after_base 0 b a1) = [(pending_answer sample_env ?c a, 77)]"
    "resps_sent (after_base 0 b a1) = resps_sent a" "hsc (ha a1) = hsc (ha a)" "ha (after_base 0 b a1) = b" by blast
  let ?a2 = "after_base 0 b a1" and ?a3 = "resp_handler sample_env (\<lambda>_. True) (after_base 0 b a1)"
  have ok: "low (hsc (ha x)) \<and> piped_connected (hsc (ha x))" if "hsc (ha x) = hsc (ha a)" for x :: "(uint256, uint256, uint256, bool list) happ"
    using that a(2,3) by (simp add: piped_connected_def)
  have "app_low_step sample_env a a1" "app_low_step sample_env a1 ?a2" "app_low_step sample_env ?a2 ?a3"
    using app_step.request [OF r(1)] app_step.network [OF r(2,3)] app_step.respond [of sample_env ?a2 "\<lambda>_. True"] ok r(4,7,8)
    by (simp_all add: app_low_step_def resp_handler_def)
  then have "app_reachable sample_env ?a3"
    using a(1) unfolding app_reachable_def by (meson rtranclp.rtrancl_into_rtrancl)
  moreover have "length (resps_sent ?a3) = 1" using r(5,6) a(7) by (simp add: resp_handler_def)
  ultimately show ?thesis using answers_are_decisions [of sample_env ?a3] by (intro exI [of _ ?a3]) fast
qed

section \<open>The client\<close>

text \<open>\<open>try_send\<close> returns false whether it sent a command or not, so the loop around it ends after one round.\<close>

lemma send_loop_once: "send_loop E c = Some (Inr (snd (try_send E True c)))"
  by (subst send_loop.simps) (simp add: try_send_def Let_def)

lemma try_send_fields:
  "conns (snd (try_send E ch c)) = conns c"
  "length (waiting (snd (try_send E ch c))) \<le> length (waiting c) + 1"
  "length (c_sent (snd (try_send E ch c))) \<le> length (c_sent c) + length (conns c)"
  by (auto simp: try_send_def Let_def umap_insert_def split: option.split)

lemma erase_shorter: "map_of m k = Some v \<Longrightarrow> length (umap_erase k m) < length m"
proof -
  assume "map_of m k = Some v"
  then have "(k, v) \<in> set m" by (rule map_of_SomeD)
  then have "length (filter (\<lambda>p. fst p \<noteq> k) m) < length m" by (intro length_filter_less [of "(k, v)"]) auto
  then show "length (umap_erase k m) < length m" by (simp add: umap_erase_def)
qed

inductive client_reachable :: "('p, 'k, 's, 'b) env \<Rightarrow> client \<Rightarrow> bool" for E where
  begin_run: "client_main E C idx ci iter async rs = Inr c \<Longrightarrow> client_reachable E c"
| response: "client_reachable E c \<Longrightarrow> client_resp_cmd_handler E msg c = Inr c' \<Longrightarrow> client_reachable E c'"

lemma client_main_ok:
  assumes "client_main E C idx ci iter async rs = Inr c"
  shows "length (waiting c) \<le> 1 \<and> length (conns c) = 1"
proof -
  from assms obtain i xs c1 where c1: "connect_all (client_init i iter async xs) = Inr c1" "run_loop (send_loop E c1) = Inr c"
    by (auto simp: client_main_def bind_Inr_iff split: if_splits)
  then have "waiting c1 = []" "length (conns c1) = 1" "c = snd (try_send E True c1)"
    by (auto simp: connect_all_def client_init_def bind_Inr_iff umap_insert_def send_loop_once)
  then show ?thesis using try_send_fields [of E True c1] by simp
qed

lemma client_resp_ok:
  assumes "client_resp_cmd_handler E msg c = Inr c'" "length (waiting c) \<le> 1"
  shows "length (waiting c') \<le> 1 \<and> conns c' = conns c \<and> length (c_sent c') \<le> length (c_sent c) + length (conns c)"
proof -
  from assms(1) obtain f where f: "MsgRespCmd_parse E msg = Inr f" by (auto simp: client_resp_cmd_handler_def bind_Inr_iff)
  show ?thesis
  proof (cases "map_of (waiting c) (fin_cmd_hash f)")
    case None
    then show ?thesis using assms f by (simp add: client_resp_cmd_handler_def)
  next
    case (Some r)
    let ?c = "c\<lparr>waiting := umap_erase (fin_cmd_hash f) (waiting c)\<rparr>"
    have "c' = snd (try_send E True ?c)" using assms(1) f Some by (simp add: client_resp_cmd_handler_def send_loop_once)
    moreover have "waiting ?c = []" using erase_shorter [OF Some] assms(2) by (cases "umap_erase (fin_cmd_hash f) (waiting c)") simp_all
    ultimately show ?thesis using try_send_fields [of E True ?c] by simp
  qed
qed


text \<open>A command line for the witnesses: parts are separated at the first separator.\<close>

definition sample_conf :: conf_env where
  "sample_conf = \<lparr>cf_split = \<lambda>s d. (let t = takeWhile (\<lambda>ch. [ch] \<noteq> d) s; u = drop (length t + 1) s in
       if d = '','' then [t, takeWhile (\<lambda>ch. [ch] \<noteq> d) u, drop (length (takeWhile (\<lambda>ch. [ch] \<noteq> d) u) + 1) u] else [t, u]),
     cf_trim_all = \<lambda>xs. xs, cf_from_hex = \<lambda>s. Inr (map of_char s),
     cf_addr = \<lambda>s. Inr (length s), cf_client_addr = \<lambda>s p. Inr (nat p)\<rparr>"

lemmas conf_eval = sample_conf_def split_ip_port_cport_def client_split_ip_port_cport_def stoi_def is_space_def is_digit_def
  number_of_digits_def client_init_def Let_def

lemma sample_client:
  "\<exists>c. client_main sample_env sample_conf 0 (-1) 5 10 [''h:1;20,a,b''] = Inr c \<and> length (waiting c) = 1"
  by (simp add: client_main_def client_replica_def conf_eval connect_all_def send_loop_once try_send_def umap_insert_def)


section \<open>Client and replica together\<close>

text \<open>
  C34: The client takes a command for done before it is decided. When a proposer whose queues are
  empty receives the command a client waits for, the steps of the replica program (the request
  handler, the command queue, the response queue) send the client an answer without executing
  anything, and the client's handler of this answer drops the request and goes on to the next
  command.
\<close>

theorem command_confirmed_before_decision:
  assumes "stream_laws E" "cmd = CommandDummy_new E i m" "cmd_pending (ha a) = []" "resp_queue a = []"
    and "waiting c = [(cmd_hash cmd, r)]" "rc addr"
  shows "\<exists>a1 b. client_request_cmd_handler E (MsgReqCmd E cmd) addr a = Inr a1 \<and> app_step E a1 (after_base now b a1) \<and>
    (let a3 = resp_handler E rc (after_base now b a1) in
      execution_log (app (ha a3)) = execution_log (app (ha a)) \<and>
      (\<exists>msg. resps_sent a3 = resps_sent a @ [(addr, msg)] \<and>
         client_resp_cmd_handler E msg c = Inr (snd (try_send E True (c\<lparr>waiting := []\<rparr>)))))"
proof -
  have "parse_cmd E (MsgReqCmd E cmd) = Inr cmd"
    using command_wire.get_put_exact [of E cmd] assms(1,2) by (simp add: parse_cmd_def CommandDummy_new_def)
  from request_answered [OF this assms(3,4) refl, of addr now]
  obtain a1 b where q: "client_request_cmd_handler E (MsgReqCmd E cmd) addr a = Inr a1"
    "base_step E (ha a1) b" "\<nexists>h k. b = exec_command h k (ha a1)"
    "resp_queue (after_base now b a1) = [(pending_answer E cmd a, addr)]"
    "execution_log (app b) = execution_log (app (ha a))" "resps_sent (after_base now b a1) = resps_sent a"
    "ha (after_base now b a1) = b" by blast
  let ?f = "pending_answer E cmd a"
  have f: "fin_cmd_hash ?f = cmd_hash cmd" "fin_decision ?f = 0" "fin_blk_hash ?f = u256_default E"
    by (simp_all add: pending_answer_def pending_reply_def)
  have "MsgRespCmd_parse E (MsgRespCmd E ?f) = Inr ?f"
    using finality_wire.get_put_exact [of E ?f] assms(1) f by (simp add: MsgRespCmd_def MsgRespCmd_parse_def)
  then have "client_resp_cmd_handler E (MsgRespCmd E ?f) c = Inr (snd (try_send E True (c\<lparr>waiting := []\<rparr>)))"
    using assms(5) f by (simp add: client_resp_cmd_handler_def send_loop_once umap_erase_def)
  then show ?thesis
    using q assms(6) app_step.network [OF q(2,3)]
    by (intro exI [of _ a1] exI [of _ b]) (simp add: resp_handler_def Let_def)
qed

theorem command_confirmed_before_decision_witness:
  "\<exists>(a :: (uint256, uint256, uint256, bool list) happ) c (a3 :: (uint256, uint256, uint256, bool list) happ) msg. app_reachable sample_env a \<and> client_reachable sample_env c \<and>
     length (waiting c) = 1 \<and> execution_log (app (ha a3)) = [] \<and> resps_sent a3 = [(77, msg)] \<and>
     client_resp_cmd_handler sample_env msg c = Inr (snd (try_send sample_env True (c\<lparr>waiting := []\<rparr>)))"
proof -
  obtain a :: "(uint256, uint256, uint256, bool list) happ" where a: "app_reachable sample_env a" "cmd_pending (ha a) = []"
    "resp_queue a = []" "resps_sent a = []" "app (ha a) = []"
    using sample_app_started [of sample_env] by blast
  let ?cmd = "CommandDummy_new sample_env 0 0"
  have "\<exists>c. client_main sample_env sample_conf 0 (-1) 5 10 [''h:1;20,a,b''] = Inr c \<and>
      waiting c = [(cmd_hash ?cmd, \<lparr>req_cmd = ?cmd, confirmed = 0\<rparr>)]"
    by (simp add: client_main_def client_replica_def conf_eval connect_all_def send_loop_once try_send_def umap_insert_def)
  then obtain c where c: "client_main sample_env sample_conf 0 (-1) 5 10 [''h:1;20,a,b''] = Inr c"
      "waiting c = [(cmd_hash ?cmd, \<lparr>req_cmd = ?cmd, confirmed = 0\<rparr>)]" by blast
  from command_confirmed_before_decision [OF sample_laws(2) refl a(2,3) c(2), of "\<lambda>_. True" 77 0]
  obtain a1 b msg where "execution_log (app (ha (resp_handler sample_env (\<lambda>_. True) (after_base 0 b a1)))) = []"
      "resps_sent (resp_handler sample_env (\<lambda>_. True) (after_base 0 b a1)) = [(77, msg)]"
      "client_resp_cmd_handler sample_env msg c = Inr (snd (try_send sample_env True (c\<lparr>waiting := []\<rparr>)))"
    using a(4,5) unfolding Let_def by auto
  then show ?thesis using a(1) client_reachable.begin_run [OF c(1)] c(2)
    by (intro exI [of _ a] exI [of _ c] exI [of _ "resp_handler sample_env (\<lambda>_. True) (after_base 0 b a1)"] exI [of _ msg]) simp
qed

section \<open>Configurations\<close>

lemma each_res_length: "each_res f xs = Inr ys \<Longrightarrow> length ys = length xs"
  by (induction xs arbitrary: ys) (auto simp: bind_Inr_iff)

lemma each_res_nth: "each_res f xs = Inr ys \<Longrightarrow> i < length xs \<Longrightarrow> f (xs ! i) = Inr (ys ! i)"
  by (induction xs arbitrary: ys i) (auto simp: bind_Inr_iff nth_Cons split: nat.split)

text \<open>
  A replica that starts has a well-formed configuration: its index is that of one of the replicas on the
  command line, each of which has an entry, and the address it listens on is that of its own entry.
\<close>

theorem replica_configuration_ok:
  assumes "replica_main C idx port rs = Inr ra"
  shows "length (ra_reps ra) = length rs \<and> 0 \<le> ra_idx ra \<and> nat (ra_idx ra) < length (ra_reps ra) \<and>
    fst (ra_reps ra ! nat (ra_idx ra)) = ra_plisten ra \<and> (port \<noteq> -1 \<longrightarrow> ra_client_port ra = port)"
proof -
  from assms obtain reps entries p plisten cp where e: "each_res (parse_replica C) rs = Inr reps"
    and i: "0 \<le> idx" "nat idx < length reps" and cp: "client_port_of C port (fst (reps ! nat idx)) = Inr cp"
    and p: "split_ip_port_cport C (fst (reps ! nat idx)) = Inr p" "cf_addr C (fst p) = Inr plisten"
    and en: "each_res (rep_entry C) reps = Inr entries"
    and ra: "ra = \<lparr>ra_idx = idx, ra_client_port = cp, ra_plisten = plisten, ra_reps = entries\<rparr>"
    by (auto simp: replica_main_def bind_Inr_iff Let_def split: if_splits)
  have "fst (entries ! nat idx) = plisten"
    using each_res_nth [OF en i(2)] p by (cases "entries ! nat idx") (auto simp: rep_entry_def bind_Inr_iff)
  then show ?thesis
    using each_res_length [OF e] each_res_length [OF en] i cp by (auto simp: ra client_port_of_def)
qed

theorem replica_configuration_ok_witness:
  "\<exists>ra. replica_main sample_conf 1 (-1) [''h:1;20,a,b'', ''h:22;30,c,d''] = Inr ra \<and> ra_client_port ra = 30 \<and>
     length (ra_reps ra) = 2 \<and> nat (ra_idx ra) < length (ra_reps ra) \<and> fst (ra_reps ra ! nat (ra_idx ra)) = ra_plisten ra"
proof -
  have "\<exists>ra. replica_main sample_conf 1 (-1) [''h:1;20,a,b'', ''h:22;30,c,d''] = Inr ra \<and> ra_client_port ra = 30"
    by (simp add: replica_main_def parse_replica_def rep_entry_def client_port_of_def conf_eval)
  then obtain ra where ra: "replica_main sample_conf 1 (-1) [''h:1;20,a,b'', ''h:22;30,c,d''] = Inr ra" "ra_client_port ra = 30" by blast
  from replica_configuration_ok [OF ra(1)] ra show ?thesis by (intro exI [of _ ra]) simp
qed

end
