(* ===== verification/Hs_Secp.thy ===== *)
theory Hs_Secp
  imports Hs_Keys Hs_Entity
begin

text \<open>
  The secp256k1 classes of \<^verbatim>\<open>include/hotstuff/crypto.h\<close> (\<open>Secp256k1Context\<close>,
  \<open>PubKeySecp256k1\<close>, \<open>PrivKeySecp256k1\<close>, \<open>SigSecp256k1\<close>, \<open>Secp256k1VeriTask\<close>), the environment
  they give the certificates, what follows for the certificates collected from votes, and what
  \<open>Block::verify\<close> accepts.

  The library secp256k1 is the record \<open>secp_lib\<close>, an argument of the definitions. The keys and signatures of
  the program all keep the default signing context, so an object is its \<open>data\<close>.
\<close>

section \<open>The library\<close>

datatype secp_ctx = ContextSign | ContextVerify

record ('pk, 'sg) secp_lib =
  ec_pubkey_serialize :: "secp_ctx \<Rightarrow> 'pk \<Rightarrow> bytes"                     \<comment> \<open>compressed form\<close>
  ec_pubkey_parse :: "secp_ctx \<Rightarrow> bytes \<Rightarrow> 'pk option"                \<comment> \<open>\<open>None\<close> for the result 0\<close>
  ec_pubkey_create :: "secp_ctx \<Rightarrow> bytes \<Rightarrow> 'pk option"
  ecdsa_serialize_compact :: "secp_ctx \<Rightarrow> 'sg \<Rightarrow> bytes"
  ecdsa_parse_compact :: "secp_ctx \<Rightarrow> bytes \<Rightarrow> 'sg option"
  ecdsa_sign :: "secp_ctx \<Rightarrow> bytes \<Rightarrow> bytes \<Rightarrow> 'sg option"             \<comment> \<open>message, key\<close>
  ecdsa_verify :: "secp_ctx \<Rightarrow> 'sg \<Rightarrow> bytes \<Rightarrow> 'pk \<Rightarrow> bool"

text \<open>What its documentation promises: a compressed key has 33 bytes and a compact signature 64, both can be
  read back; with a key that has a public key, signing in a signing context succeeds, and the
  signature verifies in a verification context.\<close>

definition secp_laws :: "('pk, 'sg) secp_lib \<Rightarrow> bool" where
  "secp_laws Lb \<longleftrightarrow>
     (\<forall>ctx pk. length (ec_pubkey_serialize Lb ctx pk) = 33 \<and> ec_pubkey_parse Lb ctx (ec_pubkey_serialize Lb ctx pk) = Some pk) \<and>
     (\<forall>ctx x. length (ecdsa_serialize_compact Lb ctx x) = 64 \<and> ecdsa_parse_compact Lb ctx (ecdsa_serialize_compact Lb ctx x) = Some x) \<and>
     (\<forall>k pk msg. ec_pubkey_create Lb ContextSign k = Some pk \<longrightarrow> length msg = 32 \<longrightarrow>
        (\<exists>x. ecdsa_sign Lb ContextSign msg k = Some x \<and> ecdsa_verify Lb ContextVerify x msg pk))"

definition Secp256k1Context :: "bool \<Rightarrow> secp_ctx" where
  "Secp256k1Context sign = (if sign then ContextSign else ContextVerify)"

definition secp256k1_default_sign_ctx :: secp_ctx where
  "secp256k1_default_sign_ctx = Secp256k1Context True"

definition secp256k1_default_verify_ctx :: secp_ctx where
  "secp256k1_default_verify_ctx = Secp256k1Context False"

lemma ctx_simps [simp]: "secp256k1_default_sign_ctx = ContextSign" "secp256k1_default_verify_ctx = ContextVerify"
  by (simp_all add: secp256k1_default_sign_ctx_def secp256k1_default_verify_ctx_def Secp256k1Context_def)

section \<open>Keys\<close>

definition pubkey_secp_serialize :: "('p, 'k, 's, 'b) env \<Rightarrow> ('pk, 'sg) secp_lib \<Rightarrow> 'pk \<Rightarrow> bytes" where
  "pubkey_secp_serialize E Lb pk = put_data E (ec_pubkey_serialize Lb secp256k1_default_sign_ctx pk)"

definition pubkey_secp_unserialize ::
  "('p, 'k, 's, 'b) env \<Rightarrow> ('pk, 'sg) secp_lib \<Rightarrow> bytes \<Rightarrow> ('pk \<times> bytes) res" where
  "pubkey_secp_unserialize E Lb s =
     (case get_data E 33 s of
        None \<Rightarrow> Inl (InvalidArgument ''ill-formed public key'')
      | Some (d, s') \<Rightarrow>
          (case ec_pubkey_parse Lb secp256k1_default_sign_ctx d of
             None \<Rightarrow> Inl (InvalidArgument ''ill-formed public key'')
           | Some pk \<Rightarrow> Inr (pk, s')))"

definition PubKeySecp256k1 :: "('p, 'k, 's, 'b) env \<Rightarrow> ('pk, 'sg) secp_lib \<Rightarrow> bytes \<Rightarrow> 'pk res" where
  "PubKeySecp256k1 E Lb raw_bytes = bind (pubkey_secp_unserialize E Lb raw_bytes) (\<lambda>(pk, _). Inr pk)"

definition privkey_secp_serialize :: "('p, 'k, 's, 'b) env \<Rightarrow> bytes \<Rightarrow> bytes" where
  "privkey_secp_serialize E sk = put_data E sk"

definition privkey_secp_unserialize :: "('p, 'k, 's, 'b) env \<Rightarrow> bytes \<Rightarrow> (bytes \<times> bytes) res" where
  "privkey_secp_unserialize E s =
     (case get_data E 32 s of
        None \<Rightarrow> Inl (InvalidArgument ''ill-formed private key'')
      | Some (d, s') \<Rightarrow> Inr (d, s'))"

definition PrivKeySecp256k1 :: "('p, 'k, 's, 'b) env \<Rightarrow> bytes \<Rightarrow> bytes res" where
  "PrivKeySecp256k1 E raw_bytes = bind (privkey_secp_unserialize E raw_bytes) (\<lambda>(sk, _). Inr sk)"

text \<open>The arguments are what \<open>RAND_pseudo_bytes\<close> returns and leaves in the buffer.\<close>

definition secp_from_rand :: "int \<Rightarrow> bytes \<Rightarrow> bytes res" where
  "secp_from_rand rc buf = (if rc = 0 then Inl (RuntimeError ''cannot get rand bytes from openssl'') else Inr buf)"

definition PubKeySecp256k1_of :: "('pk, 'sg) secp_lib \<Rightarrow> bytes \<Rightarrow> 'pk res" where
  "PubKeySecp256k1_of Lb sk =
     (case ec_pubkey_create Lb secp256k1_default_sign_ctx sk of
        None \<Rightarrow> Inl (InvalidArgument ''invalid secp256k1 private key'')
      | Some pk \<Rightarrow> Inr pk)"

definition privkey_secp_get_pubkey :: "('pk, 'sg) secp_lib \<Rightarrow> bytes \<Rightarrow> 'pk res" where
  "privkey_secp_get_pubkey Lb sk = PubKeySecp256k1_of Lb sk"

section \<open>Signatures\<close>

definition secp_check_msg_length :: "bytes \<Rightarrow> unit res" where
  "secp_check_msg_length msg = guard (length msg = 32) (InvalidArgument ''the message should be 32-bytes'')"

definition sig_secp_serialize :: "('p, 'k, 's, 'b) env \<Rightarrow> ('pk, 'sg) secp_lib \<Rightarrow> 'sg \<Rightarrow> bytes" where
  "sig_secp_serialize E Lb x = put_data E (ecdsa_serialize_compact Lb secp256k1_default_sign_ctx x)"

definition sig_secp_parse :: "('pk, 'sg) secp_lib \<Rightarrow> bytes \<Rightarrow> 'sg res" where
  "sig_secp_parse Lb d =
     (case ecdsa_parse_compact Lb secp256k1_default_sign_ctx d of
        None \<Rightarrow> Inl (InvalidArgument ''ill-formed signature'')
      | Some x \<Rightarrow> Inr x)"

definition sig_secp_unserialize ::
  "('p, 'k, 's, 'b) env \<Rightarrow> ('pk, 'sg) secp_lib \<Rightarrow> bytes \<Rightarrow> ('sg \<times> bytes) res" where
  "sig_secp_unserialize E Lb s =
     (case get_data E 64 s of
        None \<Rightarrow> Inl (InvalidArgument ''ill-formed signature'')
      | Some (d, s') \<Rightarrow> bind (sig_secp_parse Lb d) (\<lambda>x. Inr (x, s')))"

definition sig_secp_sign :: "('pk, 'sg) secp_lib \<Rightarrow> bytes \<Rightarrow> bytes \<Rightarrow> 'sg res" where
  "sig_secp_sign Lb msg sk =
     bind (secp_check_msg_length msg) (\<lambda>_.
       case ecdsa_sign Lb secp256k1_default_sign_ctx msg sk of
         None \<Rightarrow> Inl (InvalidArgument ''failed to create secp256k1 signature'')
       | Some x \<Rightarrow> Inr x)"

definition sig_secp_verify_ctx :: "('pk, 'sg) secp_lib \<Rightarrow> secp_ctx \<Rightarrow> bytes \<Rightarrow> 'pk \<Rightarrow> 'sg \<Rightarrow> bool res" where
  "sig_secp_verify_ctx Lb ctx msg pk x =
     bind (secp_check_msg_length msg) (\<lambda>_. Inr (ecdsa_verify Lb ctx x msg pk))"

definition sig_secp_verify :: "('pk, 'sg) secp_lib \<Rightarrow> bytes \<Rightarrow> 'pk \<Rightarrow> 'sg \<Rightarrow> bool res" where
  "sig_secp_verify Lb msg pk x = sig_secp_verify_ctx Lb secp256k1_default_sign_ctx msg pk x"

definition task_secp_verify :: "('pk, 'sg) secp_lib \<Rightarrow> (uint256 \<Rightarrow> bytes) \<Rightarrow> uint256 \<Rightarrow> 'pk \<Rightarrow> 'sg \<Rightarrow> bool res" where
  "task_secp_verify Lb to_bytes msg pk x =
     sig_secp_verify_ctx Lb secp256k1_default_verify_ctx (to_bytes msg) pk x"

section \<open>The environment of the certificates\<close>

text \<open>\<open>raw\<close> is a signature that was never written. It stands for the result of \<open>sign\<close> where the
  code throws, which the laws exclude for the keys of replicas, and for aggregates, which this scheme does not have.\<close>

definition secp_env ::
  "('pk, 'sg) secp_lib \<Rightarrow> 'sg \<Rightarrow> (uint256 \<Rightarrow> bytes) \<Rightarrow> ('p, 'k, 's, 'b) env \<Rightarrow> (bytes, 'pk, 'sg, 'b) env" where
  "secp_env Lb raw to_bytes E =
     \<lparr>bits_new = bits_new E, bits_size = bits_size E, bits_get = bits_get E, bits_set = bits_set E,
      u256_default = u256_default E, put_int = put_int E, get_int = get_int E, put_u256 = put_u256 E,
      get_u256 = get_u256 E, put_data = put_data E, get_data = get_data E, put_bits = put_bits E, get_bits = get_bits E,
      htole32 = htole32 E, letoh32 = letoh32 E, sha256 = sha256 E,
      sig_sign = \<lambda>sk h. result_or raw (sig_secp_sign Lb (to_bytes h) sk),
      sig_verify = \<lambda>pk h x. result_or False (task_secp_verify Lb to_bytes h pk x),
      sig_aggregate = \<lambda>_. raw, sig_fast_verify = \<lambda>_ _ _. False,
      sig_size = 64, sig_ser = ecdsa_serialize_compact Lb secp256k1_default_sign_ctx, sig_des = sig_secp_parse Lb\<rparr>"

lemma secp_env_frame [simp]:
  "bits_new (secp_env Lb raw tb E) = bits_new E" "bits_size (secp_env Lb raw tb E) = bits_size E"
  "bits_get (secp_env Lb raw tb E) = bits_get E" "bits_set (secp_env Lb raw tb E) = bits_set E"
  "get_int (secp_env Lb raw tb E) = get_int E" "put_int (secp_env Lb raw tb E) = put_int E"
  "get_u256 (secp_env Lb raw tb E) = get_u256 E" "put_u256 (secp_env Lb raw tb E) = put_u256 E"
  "get_bits (secp_env Lb raw tb E) = get_bits E" "put_bits (secp_env Lb raw tb E) = put_bits E"
  "get_data (secp_env Lb raw tb E) = get_data E" "put_data (secp_env Lb raw tb E) = put_data E"
  "htole32 (secp_env Lb raw tb E) = htole32 E" "letoh32 (secp_env Lb raw tb E) = letoh32 E"
  by (simp_all add: secp_env_def)

lemma secp_env_laws:
  "bits_laws (secp_env Lb raw tb E) = bits_laws E" "stream_laws (secp_env Lb raw tb E) = stream_laws E"
  by (simp_all only: bits_laws_def stream_laws_def secp_env_frame)

text \<open>The signatures of the certificates are those of this class.\<close>

lemma secp_env_codec:
  "secp_laws Lb \<Longrightarrow> sig_codec_laws (secp_env Lb raw tb E)"
  "sig_serialize (secp_env Lb raw tb E) x = sig_secp_serialize E Lb x"
  "sig_unserialize (secp_env Lb raw tb E) s = sig_secp_unserialize E Lb s"
  by (simp_all add: secp_laws_def sig_codec_laws_def secp_env_def sig_secp_parse_def sig_serialize_def sig_secp_serialize_def
      sig_unserialize_def sig_secp_unserialize_def split: option.split)

lemma secp_env_ok:
  assumes "secp_laws Lb" "length (tb h) = 32" "privkey_secp_get_pubkey Lb sk = Inr pk"
  shows "sig_verify (secp_env Lb raw tb E) pk h (sig_sign (secp_env Lb raw tb E) sk h)"
proof -
  have "ec_pubkey_create Lb ContextSign sk = Some pk"
    using assms(3) by (simp add: privkey_secp_get_pubkey_def PubKeySecp256k1_of_def split: option.splits)
  then obtain x where "ecdsa_sign Lb ContextSign (tb h) sk = Some x" "ecdsa_verify Lb ContextVerify x (tb h) pk"
    using assms(1,2) unfolding secp_laws_def by blast
  then show ?thesis using assms(2)
    by (simp add: secp_env_def result_or_def sig_secp_sign_def task_secp_verify_def sig_secp_verify_ctx_def secp_check_msg_length_def)
qed

section \<open>Certificates of honest votes\<close>

text \<open>Votes are added and certificates merged in any order. A replica may vote twice and the merged
  groups may overlap: the first signature of a replica stays.\<close>

inductive secp_collected :: "('p, 'k, 's, 'b) env \<Rightarrow> 'k ReplicaConfig \<Rightarrow> (nat \<Rightarrow> 'p) \<Rightarrow> uint256 \<Rightarrow>
    nat set \<Rightarrow> ('s, 'b) QuorumCertSecp \<Rightarrow> bool" for E cfg sk h where
  create: "secp_collected E cfg sk h {} (secp_new E cfg h)"
| vote: "secp_collected E cfg sk h S c \<Longrightarrow> i < unat (nreplicas cfg) \<Longrightarrow>
    secp_add_part E cfg (of_nat i) (create_part_cert E Secp256k1 (sk i) h) c = Inr c' \<Longrightarrow> secp_collected E cfg sk h (insert i S) c'"
| relay: "secp_collected E cfg sk h S c \<Longrightarrow> secp_collected E cfg sk h T d \<Longrightarrow>
    secp_merge_quorum E d c = Inr c' \<Longrightarrow> secp_collected E cfg sk h (S \<union> T) c'"

definition own_sigs :: "('p, 'k, 's, 'b) env \<Rightarrow> (nat \<Rightarrow> 'p) \<Rightarrow> uint256 \<Rightarrow> (ReplicaID \<times> 's) list \<Rightarrow> bool" where
  "own_sigs E sk h m \<longleftrightarrow> (\<forall>(r, x) \<in> set m. x = sig_sign E (sk (unat r)) h)"

definition secp_holds ::
  "('p, 'k, 's, 'b) env \<Rightarrow> (nat \<Rightarrow> 'p) \<Rightarrow> nat \<Rightarrow> uint256 \<Rightarrow> nat set \<Rightarrow> ('s, 'b) QuorumCertSecp \<Rightarrow> bool" where
  "secp_holds E sk n h S c \<longleftrightarrow> secp_ok E c \<and> secp_obj_hash c = h \<and> bits_size E (secp_rids c) = n \<and> S \<subseteq> {..<n} \<and>
     umap_keys (secp_sigs c) = of_nat ` S \<and> own_sigs E sk h (secp_sigs c)"

lemma own_sigs_insert: "own_sigs E sk h m \<Longrightarrow> x = sig_sign E (sk (unat r)) h \<Longrightarrow> own_sigs E sk h (umap_insert r x m)"
  by (auto simp: own_sigs_def umap_insert_def split: option.split)

lemma own_sigs_merge:
  "own_sigs E sk h (secp_sigs c) \<Longrightarrow> own_sigs E sk h xs \<Longrightarrow> own_sigs E sk h (secp_sigs (secp_merge_sigs E xs c))"
proof (induction E xs c rule: secp_merge_sigs.induct)
  case (2 E rid x xs c)
  have "own_sigs E sk h (umap_insert rid x (secp_sigs c))" "own_sigs E sk h xs"
    using 2(2,3) own_sigs_insert [of E sk h "secp_sigs c" x rid] by (simp_all add: own_sigs_def)
  then show ?case using 2(1) by simp
qed simp

lemma unat_rid: "i < n \<Longrightarrow> n \<le> 2 ^ 16 \<Longrightarrow> unat (of_nat i :: ReplicaID) = i"
  by (simp add: unsigned_of_nat take_bit_nat_eq_self)

lemma secp_collected_holds:
  assumes "secp_collected E cfg sk h S c" "bits_laws E" "unat (nreplicas cfg) \<le> 2 ^ 16"
  shows "secp_holds E sk (unat (nreplicas cfg)) h S c"
  using assms(1)
proof induction
  case create
  then show ?case using secp_new_ok [OF assms(2,3)] assms(2) by (simp add: secp_holds_def secp_new_def own_sigs_def)
next
  case (vote S c i c')
  note u = unat_rid [OF vote(2) assms(3)]
  have c: "secp_ok E c" "secp_obj_hash c = h" "bits_size E (secp_rids c) = unat (nreplicas cfg)"
    "S \<subseteq> {..<unat (nreplicas cfg)}" "umap_keys (secp_sigs c) = of_nat ` S" "own_sigs E sk h (secp_sigs c)"
    using vote(4) by (simp_all add: secp_holds_def)
  have "own_sigs E sk h (secp_sigs c')" using vote(3) c(2) own_sigs_insert [OF c(6), of _ "of_nat i"] u by (auto simp: secp_add_part_def)
  then show ?case
    using secp.add_part_invar [OF c(1) _ vote(3)] secp.add_part_hash [OF vote(3)] c u vote(2) by (simp add: secp_holds_def)
next
  case (relay S c T d c')
  have c: "secp_ok E c" "secp_obj_hash c = h" "bits_size E (secp_rids c) = unat (nreplicas cfg)"
      "own_sigs E sk h (secp_sigs c)" and
    d: "secp_ok E d" "bits_size E (secp_rids d) = unat (nreplicas cfg)" "own_sigs E sk h (secp_sigs d)"
    using relay(4,5) by (simp_all add: secp_holds_def)
  have "own_sigs E sk h (secp_sigs c')"
    using relay(3) own_sigs_merge [OF c(4) d(3)] by (auto simp: secp_merge_quorum_def split: if_splits)
  then show ?case
    using secp.merge_invar [OF c(1) d(1) _ relay(3)] secp.merge_hash [OF relay(3)] relay(4,5) d(2)
    by (auto simp: secp_holds_def)
qed

lemma secp_verify_all:
  assumes "\<And>i. i \<in> set is \<Longrightarrow> bits_get E (secp_rids c) i \<Longrightarrow> \<exists>pk x. get_pubkey cfg (of_nat i) = Inr pk \<and>
    map_of (secp_sigs c) (of_nat i) = Some x \<and> sig_verify E pk (secp_obj_hash c) x"
  shows "secp_verify_from E cfg c is = Inr True \<and>
    (\<exists>vs. secp_tasks E cfg c is = Inr vs \<and> (\<forall>v \<in> set vs. v) \<and> length vs = length (filter (bits_get E (secp_rids c)) is))"
  using assms
proof (induction "is")
  case (Cons i "is")
  obtain vs where vs: "secp_verify_from E cfg c is = Inr True" "secp_tasks E cfg c is = Inr vs" "\<forall>v \<in> set vs. v"
    "length vs = length (filter (bits_get E (secp_rids c)) is)" using Cons.IH [OF Cons.prems] by fastforce
  show ?case
  proof (cases "bits_get E (secp_rids c) i")
    case True
    then obtain pk x where "get_pubkey cfg (of_nat i) = Inr pk" "map_of (secp_sigs c) (of_nat i) = Some x"
      "sig_verify E pk (secp_obj_hash c) x" using Cons.prems [of i] by auto
    then show ?thesis using vs True by (simp add: initialised_def)
  qed (use vs in simp)
qed simp

lemma secp_holds_verifies:
  assumes "secp_holds (secp_env Lb raw tb E) sk n h S c" "secp_laws Lb" "length (tb h) = 32"
    and "\<And>i. i < n \<Longrightarrow> \<exists>pk. privkey_secp_get_pubkey Lb (sk i) = Inr pk \<and> get_pubkey cfg (of_nat i) = Inr pk"
  shows "secp_verify (secp_env Lb raw tb E) cfg c = Inr True"
    and "S \<noteq> {} \<Longrightarrow> secp_verify_pool (secp_env Lb raw tb E) cfg c = Inr True"
    and "secp_has_n k c \<longleftrightarrow> unat k \<le> card S"
proof -
  let ?E = "secp_env Lb raw tb E"
  have c: "secp_ok ?E c" "secp_obj_hash c = h" "bits_size E (secp_rids c) = n" "S \<subseteq> {..<n}"
    "umap_keys (secp_sigs c) = of_nat ` S" "own_sigs ?E sk h (secp_sigs c)" using assms(1) by (simp_all add: secp_holds_def)
  have n: "n \<le> 2 ^ 16" and bits: "i < n \<Longrightarrow> bits_get E (secp_rids c) i \<longleftrightarrow> (of_nat i :: ReplicaID) \<in> of_nat ` S" for i
    using c(1,3,5) by (simp_all add: secp_ok_def)
  have inj: "inj_on (of_nat :: nat \<Rightarrow> ReplicaID) S" by (rule inj_on_subset [OF inj_on_rid]) (use c(4) n in auto)
  have "\<exists>pk x. get_pubkey cfg (of_nat i) = Inr pk \<and> map_of (secp_sigs c) (of_nat i) = Some x \<and> sig_verify ?E pk (secp_obj_hash c) x"
    if "i \<in> set [0..<n]" "bits_get ?E (secp_rids c) i" for i
  proof -
    have i: "i < n" "bits_get E (secp_rids c) i" using that by simp_all
    obtain pk where pk: "privkey_secp_get_pubkey Lb (sk i) = Inr pk" "get_pubkey cfg (of_nat i) = Inr pk" using assms(4) [OF i(1)] by blast
    obtain x where x: "map_of (secp_sigs c) (of_nat i) = Some x"
      using bits [OF i(1)] i(2) c(5) map_of_None_keys [of "secp_sigs c" "of_nat i"] by (cases "map_of (secp_sigs c) (of_nat i)") auto
    then have "x = sig_sign ?E (sk (unat (of_nat i :: ReplicaID))) h" using c(6) by (auto simp: own_sigs_def dest: map_of_SomeD)
    then show ?thesis using pk x secp_env_ok [of Lb tb h "sk i" pk, OF assms(2,3) pk(1)] unat_rid [OF i(1) n] c(2) by auto
  qed
  from secp_verify_all [of "[0..<n]" ?E c cfg, OF this] obtain vs where v: "secp_verify_from ?E cfg c [0..<n] = Inr True"
    "secp_tasks ?E cfg c [0..<n] = Inr vs" "\<forall>v \<in> set vs. v" "length vs = length (filter (bits_get E (secp_rids c)) [0..<n])" by auto
  show "secp_verify ?E cfg c = Inr True" using v(1) c(3) by (simp add: secp_verify_def)
  show "secp_has_n k c \<longleftrightarrow> unat k \<le> card S" using secp.has_n_signers [OF c(1)] c(5) card_image [OF inj] by simp
  assume "S \<noteq> {}"
  then obtain i where "i \<in> S" by blast
  then have "i \<in> set (filter (bits_get E (secp_rids c)) [0..<n])" using c(4) bits by auto
  then have "vs \<noteq> []" using v(4) by (metis length_0_conv list.set_cases neq_Nil_conv)
  then show "secp_verify_pool ?E cfg c = Inr True" using v(2,3) c(3) by (simp add: secp_verify_pool_def list_all_iff)
qed

text \<open>
  C35: A certificate of secp256k1 signatures collected from the votes of replicas with valid keys verifies,
  synchronously and in the pool, whatever the order in which votes were added and partial certificates
  merged and however often a replica's vote arrived; and \<open>has_n\<close> counts each replica once.
\<close>

theorem secp_certificate_verifies:
  assumes "secp_laws Lb" "bits_laws E" "length (to_bytes h) = 32" "unat (nreplicas cfg) \<le> 2 ^ 16"
    and "\<And>i. i < unat (nreplicas cfg) \<Longrightarrow> \<exists>pk. privkey_secp_get_pubkey Lb (sk i) = Inr pk \<and> get_pubkey cfg (of_nat i) = Inr pk"
    and "secp_collected (secp_env Lb raw to_bytes E) cfg sk h S c"
  shows "secp_verify (secp_env Lb raw to_bytes E) cfg c = Inr True \<and>
    (S \<noteq> {} \<longrightarrow> secp_verify_pool (secp_env Lb raw to_bytes E) cfg c = Inr True) \<and>
    (\<forall>k. secp_has_n k c \<longleftrightarrow> unat k \<le> card S)"
proof -
  have "bits_laws (secp_env Lb raw to_bytes E)" using assms(2) by (simp add: secp_env_laws)
  note hold = secp_collected_holds [OF assms(6) this assms(4)]
  show ?thesis using secp_holds_verifies [where cfg = cfg, OF hold assms(1,3,5)] by blast
qed

section \<open>An instance\<close>

text \<open>Keys, public keys and signatures are their bytes.\<close>

definition sample_secp :: "(u8, u8 \<times> u8) secp_lib" where
  "sample_secp = \<lparr>ec_pubkey_serialize = \<lambda>_ pk. replicate 33 pk, ec_pubkey_parse = \<lambda>_ d. Some (hd d),
     ec_pubkey_create = \<lambda>_ k. if length k = 32 then Some (hd k) else None,
     ecdsa_serialize_compact = \<lambda>_ (x, y). x # replicate 63 y, ecdsa_parse_compact = \<lambda>_ d. Some (hd d, d ! 1),
     ecdsa_sign = \<lambda>_ msg k. Some (hd k, hd msg), ecdsa_verify = \<lambda>_ x msg pk. x = (pk, hd msg)\<rparr>"

lemma sample_secp_laws: "secp_laws sample_secp"
  by (auto simp: secp_laws_def sample_secp_def)

abbreviation sample_tb :: "uint256 \<Rightarrow> bytes" where
  "sample_tb \<equiv> \<lambda>_. replicate 32 1"

definition sample_sk :: "nat \<Rightarrow> bytes" where
  "sample_sk i = replicate 32 (if i = 0 then 5 else 7)"

lemma sample_keys_size: "unat (nreplicas sample_keys) = 2"
  by (simp add: sample_keys_def add_replica_cfg_def ReplicaConfig_new_def)

lemma sample_keys_get: "i < 2 \<Longrightarrow> get_pubkey sample_keys (of_nat i) = Inr (if i = 0 then 5 else 7)"
proof -
  assume "i < 2"
  then have "i = 0 \<or> i = 1" by auto
  then show ?thesis
    by (elim disjE) (simp_all add: sample_keys_def get_pubkey_def get_info_def add_replica_cfg_def umap_insert_def ReplicaConfig_new_def)
qed

lemma sample_secp_keys:
  "i < unat (nreplicas sample_keys) \<Longrightarrow>
    \<exists>pk. privkey_secp_get_pubkey sample_secp (sample_sk i) = Inr pk \<and> get_pubkey sample_keys (of_nat i) = Inr pk"
  unfolding sample_keys_size
  by (simp add: sample_keys_get privkey_secp_get_pubkey_def PubKeySecp256k1_of_def sample_secp_def sample_sk_def)

theorem secp_certificate_verifies_witness:
  "\<exists>c. secp_collected (secp_env sample_secp (0, 0) sample_tb sample_env) sample_keys sample_sk 3 {0, 1} c \<and>
    secp_verify (secp_env sample_secp (0, 0) sample_tb sample_env) sample_keys c = Inr True \<and> secp_has_n 2 c \<and> \<not> secp_has_n 3 c"
proof -
  let ?E = "secp_env sample_secp (0, 0) sample_tb sample_env"
  obtain c where c: "secp_add_part ?E sample_keys (of_nat 1) (create_part_cert ?E Secp256k1 (sample_sk 1) 3) (secp_new ?E sample_keys 3) = Inr c"
    by (simp add: secp_add_part_def secp_new_def)
  then have "secp_obj_hash c = 3" using secp.add_part_hash [OF c] by (simp add: secp_new_def)
  then obtain d where d: "secp_add_part ?E sample_keys (of_nat 0) (create_part_cert ?E Secp256k1 (sample_sk 0) 3) c = Inr d"
    by (simp add: secp_add_part_def)
  have "secp_collected ?E sample_keys sample_sk 3 {1} c"
    using secp_collected.vote [where sk = sample_sk and i = 1, OF secp_collected.create _ c] by (simp add: sample_keys_size)
  then have s: "secp_collected ?E sample_keys sample_sk 3 {0, 1} d"
    using secp_collected.vote [where sk = sample_sk and i = 0, OF _ _ d, of "{1}"] by (simp add: sample_keys_size)
  from secp_certificate_verifies [OF sample_secp_laws sample_laws(1) _ _ sample_secp_keys s] s
  show ?thesis by (auto simp: sample_keys_size)
qed

section \<open>What Block::verify accepts\<close>

text \<open>A certificate with one vote, in either scheme.\<close>

lemma one_vote_secp:
  assumes "secp_laws Lb" "bits_laws E" "length (to_bytes h) = 32" "unat (nreplicas cfg) \<le> 2 ^ 16" "i < unat (nreplicas cfg)"
    and "\<And>i. i < unat (nreplicas cfg) \<Longrightarrow> \<exists>pk. privkey_secp_get_pubkey Lb (sk i) = Inr pk \<and> get_pubkey cfg (of_nat i) = Inr pk"
  shows "\<exists>q. qc_add_part (secp_env Lb raw to_bytes E) cfg (of_nat i) (create_part_cert (secp_env Lb raw to_bytes E) Secp256k1 (sk i) h)
        (create_quorum_cert (secp_env Lb raw to_bytes E) Secp256k1 cfg h) = Inr q \<and>
      qc_obj_hash q = h \<and> qc_verify_pool (secp_env Lb raw to_bytes E) cfg q = Inr True \<and> \<not> qc_has_n 2 q"
proof -
  let ?E = "secp_env Lb raw to_bytes E"
  obtain c where c: "secp_add_part ?E cfg (of_nat i) (create_part_cert ?E Secp256k1 (sk i) h) (secp_new ?E cfg h) = Inr c"
    by (simp add: secp_add_part_def secp_new_def)
  have b: "bits_laws ?E" using assms(2) by (simp add: secp_env_laws)
  have "secp_collected ?E cfg sk h {i} c" using secp_collected.vote [where sk = sk and i = i, OF secp_collected.create assms(5) c] by simp
  note h = secp_collected_holds [OF this b assms(4)]
  show ?thesis using c secp_holds_verifies(2,3) [where cfg = cfg, OF h assms(1,3,6)] h by (intro exI [of _ "QSecp c"]) (simp add: secp_holds_def)
qed

lemma one_vote_bls:
  assumes "bls_laws R" "bits_laws E" "\<And>h. length (to_bytes h) = 32" "unat (nreplicas cfg) \<le> 2 ^ 16" "i < unat (nreplicas cfg)"
    and "\<And>i. i < unat (nreplicas cfg) \<Longrightarrow> get_pubkey cfg (of_nat i) = GetG1Element R (sk i)"
  shows "\<exists>q. qc_add_part (bls_env R to_bytes E) cfg (of_nat i) (create_part_cert (bls_env R to_bytes E) AggBLS (sk i) h)
        (create_quorum_cert (bls_env R to_bytes E) AggBLS cfg h) = Inr q \<and>
      qc_obj_hash q = h \<and> qc_verify_pool (bls_env R to_bytes E) cfg (qc_compute (bls_env R to_bytes E) q) = Inr True \<and> \<not> qc_has_n 2 q"
proof -
  let ?E = "bls_env R to_bytes E"
  obtain c where c: "agg_add_part ?E cfg (of_nat i) (create_part_cert ?E AggBLS (sk i) h) (agg_new ?E cfg h) = Inr c"
    by (simp add: agg_add_part_def agg_new_def Let_def)
  have b: "bits_laws ?E" using assms(2) by (simp add: bls_env_laws)
  have "collected ?E cfg sk h {i} c" using collected.vote [where sk = sk and i = i, OF collected.create _ assms(5) c] by simp
  note s = collected_signed_by [OF collected.combine [OF this] assms(1,3,2,4)]
  have "agg_theSig (agg_compute ?E c) \<noteq> None" by (simp add: agg_compute_def split: option.splits)
  from collected_verifies [OF s assms(1,3) _ this assms(6)]
  have v: "agg_verify_pool ?E cfg (agg_compute ?E c) = Inr True"
    by (simp add: agg_verify_def agg_verify_pool_def bind_Inr_iff split: option.splits)
  have n: "agg_ok ?E (agg_new ?E cfg h)" "agg_signers ?E (agg_rids (agg_new ?E cfg h)) = {}"
    using assms(2,4) b by (auto simp: agg_ok_def agg_new_def count_bits_def agg_signers_def)
  have "unat (of_nat i :: ReplicaID) < bits_size ?E (agg_rids (agg_new ?E cfg h))"
    using unat_rid [OF assms(5,4)] assms(2,5) by (simp add: agg_new_def)
  from agg.add_part_invar [OF n(1) this c] have "agg_ok ?E c" "agg_signers ?E (agg_rids c) = {of_nat i}" using n(2) by auto
  then have "\<not> agg_has_n 2 c" using agg.has_n_signers [of ?E c 2] by simp
  then show ?thesis using c v agg.add_part_hash [OF c] by (intro exI [of _ "QAgg c"]) (simp add: agg_new_def)
qed

lemma block_accepted:
  "qc_verify_pool E cfg q = Inr True \<Longrightarrow> block_verify_pool E cfg g (b\<lparr>blk_qc := Some q\<rparr>) = Inr True"
  by (simp add: block_verify_pool_def deref_def)

text \<open>
  C4: The size of a certificate is not checked. In both schemes a block that carries a certificate with the
  vote of a single replica is accepted by \<open>Block::verify\<close>, the only check a received block goes through, for every
  number of replicas and whatever majority the configuration asks for; the certificate has less than two signers.
\<close>

theorem one_vote_certificate_accepted:
  assumes "bits_laws E" "\<And>h. length (to_bytes h) = 32" "unat (nreplicas cfg) \<le> 2 ^ 16" "unat (nreplicas cfg') \<le> 2 ^ 16"
    and "secp_laws Lb" "i < unat (nreplicas cfg)"
    and "\<And>i. i < unat (nreplicas cfg) \<Longrightarrow> \<exists>pk. privkey_secp_get_pubkey Lb (sk i) = Inr pk \<and> get_pubkey cfg (of_nat i) = Inr pk"
    and "bls_laws R" "j < unat (nreplicas cfg')"
    and "\<And>i. i < unat (nreplicas cfg') \<Longrightarrow> get_pubkey cfg' (of_nat i) = GetG1Element R (sk' i)"
  shows "(\<exists>q. qc_add_part (secp_env Lb raw to_bytes E) cfg (of_nat i) (create_part_cert (secp_env Lb raw to_bytes E) Secp256k1 (sk i) h)
            (create_quorum_cert (secp_env Lb raw to_bytes E) Secp256k1 cfg h) = Inr q \<and> \<not> qc_has_n 2 q \<and>
          block_verify_pool (secp_env Lb raw to_bytes E) cfg g (b\<lparr>blk_qc := Some q\<rparr>) = Inr True) \<and>
    (\<exists>q. qc_add_part (bls_env R to_bytes E) cfg' (of_nat j) (create_part_cert (bls_env R to_bytes E) AggBLS (sk' j) h)
            (create_quorum_cert (bls_env R to_bytes E) AggBLS cfg' h) = Inr q \<and> \<not> qc_has_n 2 q \<and>
          block_verify_pool (bls_env R to_bytes E) cfg' g
            (b'\<lparr>blk_qc := Some (qc_compute (bls_env R to_bytes E) q)\<rparr>) = Inr True)"
proof -
  let ?S = "secp_env Lb raw to_bytes E" and ?B = "bls_env R to_bytes E"
  obtain q where "qc_add_part ?S cfg (of_nat i) (create_part_cert ?S Secp256k1 (sk i) h) (create_quorum_cert ?S Secp256k1 cfg h) = Inr q"
      "\<not> qc_has_n 2 q" "qc_verify_pool ?S cfg q = Inr True"
    using one_vote_secp [where sk = sk and cfg = cfg and to_bytes = to_bytes and h = h and raw = raw, OF assms(5,1,2,3,6,7)] by blast
  moreover obtain r where "qc_add_part ?B cfg' (of_nat j) (create_part_cert ?B AggBLS (sk' j) h) (create_quorum_cert ?B AggBLS cfg' h) = Inr r"
      "\<not> qc_has_n 2 r" "qc_verify_pool ?B cfg' (qc_compute ?B r) = Inr True"
    using one_vote_bls [where sk = sk' and cfg = cfg' and to_bytes = to_bytes and h = h, OF assms(8,1,2,4,9,10)] by blast
  ultimately show ?thesis by (intro conjI exI [of _ q] exI [of _ r]) (simp_all only: block_accepted not_False_eq_True)
qed

theorem one_vote_certificate_accepted_witness:
  "\<exists>q. \<not> qc_has_n 2 q \<and> block_verify_pool (bls_env sample_relic sample_tb sample_env) sample_keys 0
     ((Block_default (bls_env sample_relic sample_tb sample_env))\<lparr>blk_qc := Some (qc_compute (bls_env sample_relic sample_tb sample_env) q)\<rparr>) = Inr True"
proof -
  have "get_pubkey sample_keys (of_nat i) = GetG1Element sample_relic (if i = 0 then 5 else 7)"
    if "i < unat (nreplicas sample_keys)" for i
  proof -
    have "i < 2" using that by (simp add: sample_keys_size)
    from sample_keys_get [OF this] show ?thesis by (simp add: keys_ok [OF sample_bls_laws]) (simp add: sample_relic_def)
  qed
  from one_vote_certificate_accepted [where cfg = sample_keys and cfg' = sample_keys and to_bytes = sample_tb and i = 0 and j = 0
      and h = 3 and g = 0 and raw = "(0, 0)" and b = undefined and b' = "Block_default (bls_env sample_relic sample_tb sample_env)",
      OF sample_laws(1) _ _ _ sample_secp_laws _ sample_secp_keys sample_bls_laws _ this]
  show ?thesis by (auto simp: sample_keys_size)
qed

end
