(* ===== verification/Hs_Net_System.thy ===== *)
theory Hs_Net_System
  imports Hs_Net_Props Hs_System
begin

text \<open>
  Several replicas with their network layers. Each honest replica runs the handlers of
  \<^verbatim>\<open>src/hotstuff.cpp\<close>; what a handler does to the core is at most one call that matters for
  agreement, so a system of network layers is a system of cores (\<open>system\<close>), and the state machines of
  honest replicas execute the same commands.
\<close>

section \<open>Still steps keep what agreement rests on\<close>

lemma still_refl [simp]: "still st st"
  by (simp add: still_def)

lemma still_view:
  assumes "still st st'" "r < nxt (mem st)"
  shows "r < nxt (mem st')" "hash (blk st' r) = hash (blk st r)" "parents (blk st' r) = parents (blk st r)"
    "qc_ref (blk st' r) = qc_ref (blk st r)" "height (blk st' r) = height (blk st r)" "cmds (blk st' r) = cmds (blk st r)"
proof -
  have "blk_view (blk st' r) = blk_view (blk st r)" "nxt (mem st) \<le> nxt (mem st')" using assms by (simp_all add: still_def)
  then show "r < nxt (mem st')" "hash (blk st' r) = hash (blk st r)" "parents (blk st' r) = parents (blk st r)"
    "qc_ref (blk st' r) = qc_ref (blk st r)" "height (blk st' r) = height (blk st r)" "cmds (blk st' r) = cmds (blk st r)"
    using assms(2) by (simp_all add: blk_view_def)
qed

lemma stillD:
  assumes "still st st'"
  shows "idle st st'" "vheight st' = vheight st" "b0 st' = b0 st" "b_lock st' = b_lock st"
    "ballots (outs st') = ballots (outs st)" "proposals (outs st') = proposals (outs st)"
  using assms by (simp_all add: still_def idle_def)

lemma still_trans:
  assumes "still st s" "still s st'"
  shows "still st st'"
proof -
  have new: "parents (blk st' r) = [] \<and> qc_ref (blk st' r) = None" if "nxt (mem st) \<le> r" "r < nxt (mem st')" for r
  proof (cases "r < nxt (mem s)")
    case True
    then have "parents (blk s r) = [] \<and> qc_ref (blk s r) = None" using assms(1) that(1) by (simp add: still_def)
    then show ?thesis using still_view [OF assms(2) True] by simp
  qed (use assms(2) that in \<open>simp add: still_def\<close>)
  have old: "blk_view (blk st' r) = blk_view (blk st r)" if "r < nxt (mem st)" for r
    using assms that by (simp add: still_def)
  show ?thesis unfolding still_def
    using new old assms idle_trans [OF stillD(1) [OF assms(1)] stillD(1) [OF assms(2)]] by (simp add: still_def)
qed

lemma tame_still: "(tame E)\<^sup>*\<^sup>* st st' \<Longrightarrow> still st st'"
  by (induction rule: rtranclp_induct) (auto simp: tame_def intro: still_trans)

lemma still_ref_ok:
  assumes "still st st'" "core_inv st"
  shows "ref_ok st' r \<longleftrightarrow> ref_ok st r"
proof (cases "r < nxt (mem st)")
  case True
  then show ?thesis using still_view(1,3) [OF assms(1) True] stillD(3) [OF assms(1)] by (simp add: ref_ok_def rooted_def)
next
  case False
  then have "r \<noteq> b0 st" using heap_okD(1) [OF core_invD(1) [OF assms(2)]] by auto
  then show ?thesis using False assms(1) stillD(3) [OF assms(1)] by (auto simp: ref_ok_def rooted_def still_def)
qed

lemma qc_ref_held: "core_inv st \<Longrightarrow> r < nxt (mem st) \<Longrightarrow> qc_ref (blk st r) = Some q \<Longrightarrow> q < nxt (mem st)"
  using blk_ok_qc_ref(1) heap_okD(5) core_invD(1) by blast

lemma still_sees:
  assumes "still st st'" "core_inv st"
  shows "sees L st' \<longleftrightarrow> sees L st"
proof -
  have b0: "b0 st < nxt (mem st)" using heap_okD(1) [OF core_invD(1) [OF assms(2)]] .
  have par: "hash (blk st' (hd (parents (blk st r)))) = hash (blk st (hd (parents (blk st r))))" if a: "ref_ok st r" "r \<noteq> b0 st" for r
  proof -
    obtain p ps where "parents (blk st r) = p # ps" "ref_ok st p" using ref_ok_parent [OF assms(2) a] by blast
    then show ?thesis using still_view(2) [OF assms(1)] by (simp add: ref_ok_def)
  qed
  have cert: "map_option (\<lambda>q. hash (blk st' q)) (qc_ref (blk st r)) = map_option (\<lambda>q. hash (blk st q)) (qc_ref (blk st r))"
    if "r < nxt (mem st)" for r
    using qc_ref_held [OF assms(2) that] still_view(2) [OF assms(1)] by (cases "qc_ref (blk st r)") auto
  have "(r = b0 st' \<or> hash (blk st' r) \<noteq> genesis L \<and> parent_of L (hash (blk st' r)) = hash (blk st' (hd (parents (blk st' r))))) \<and>
      cert_of L (hash (blk st' r)) = map_option (\<lambda>q. hash (blk st' q)) (qc_ref (blk st' r)) \<and>
      cmds_of L (hash (blk st' r)) = cmds (blk st' r) \<longleftrightarrow>
    (r = b0 st \<or> hash (blk st r) \<noteq> genesis L \<and> parent_of L (hash (blk st r)) = hash (blk st (hd (parents (blk st r))))) \<and>
      cert_of L (hash (blk st r)) = map_option (\<lambda>q. hash (blk st q)) (qc_ref (blk st r)) \<and>
      cmds_of L (hash (blk st r)) = cmds (blk st r)" if "ref_ok st r" for r
  proof -
    have "r < nxt (mem st)" using that by (simp add: ref_ok_def)
    note v = still_view [OF assms(1) this] and c = cert [OF this]
    show ?thesis using par [OF that] unfolding v c stillD(3) [OF assms(1)] by auto
  qed
  then show ?thesis
    unfolding sees_def still_ref_ok [OF assms] using still_view(2) [OF assms(1) b0] stillD(3) [OF assms(1)] by auto
qed

lemma still_path:
  assumes "still st st'" "core_inv st" "ref_ok st r"
  shows "is_path (heap (mem st')) a xs r \<longleftrightarrow> is_path (heap (mem st)) a xs r"
  using assms(3)
proof (induction xs arbitrary: r rule: rev_induct)
  case (snoc x xs)
  have "r < nxt (mem st)" using snoc.prems by (simp add: ref_ok_def)
  note v = still_view(3) [OF assms(1) this]
  have "ref_ok st p" if "parents (blk st r) = p # ps" for p ps
  proof -
    have "r \<noteq> b0 st" using that heap_okD(4) [OF core_invD(1) [OF assms(2)]] by auto
    then show ?thesis using ref_ok_parent [OF assms(2) snoc.prems] that by (metis list.inject)
  qed
  then show ?case using snoc.IH v by (cases "x = r") (auto simp: is_path_snoc)
qed simp

lemma still_anchored:
  assumes "still st st'" "core_inv st"
  shows "anchored st' \<longleftrightarrow> anchored st"
proof -
  have "qc_ref (blk st' r) = qc_ref (blk st r)" if "ref_ok st r" for r
    using still_view(4) [OF assms(1)] that by (simp add: ref_ok_def)
  then show ?thesis unfolding anchored_def still_ref_ok [OF assms] using still_path [OF assms] by simp
qed

lemma still_certs:
  assumes "still st st'" "core_inv st"
  shows "certs_genuine L n F V st' \<longleftrightarrow> certs_genuine L n F V st"
proof -
  have new: "qc_ref (blk st' r) = None" if "\<not> r < nxt (mem st)" "r < nxt (mem st')" for r
    using assms(1) that by (simp add: still_def)
  have "(\<forall>q. qc_ref (blk st' r) = Some q \<longrightarrow> trusted L n F V (hash (blk st' q))) \<longleftrightarrow>
      (\<forall>q. qc_ref (blk st r) = Some q \<longrightarrow> trusted L n F V (hash (blk st q)))" if "r < nxt (mem st)" for r
    using still_view(2,4) [OF assms(1)] qc_ref_held [OF assms(2) that] that by auto
  moreover have "r < nxt (mem st')" if "r < nxt (mem st)" for r using still_view(1) [OF assms(1) that] .
  ultimately show ?thesis unfolding certs_genuine_def using new by (metis option.distinct(1))
qed

lemma still_lock_allows:
  assumes "still st st'" "core_inv st" "ref_ok st r"
  shows "lock_allows st' r \<longleftrightarrow> lock_allows st r"
proof -
  have r: "r < nxt (mem st)" and l: "b_lock st < nxt (mem st)"
    using assms(3) core_invD(5) [OF assms(2)] by (simp_all add: ref_ok_def)
  have "height (blk st' q) = height (blk st q)" if "qc_ref (blk st r) = Some q" for q
    using still_view(5) [OF assms(1) qc_ref_held [OF assms(2) r that]] .
  then show ?thesis
    unfolding lock_allows_def still_path [OF assms] stillD(4) [OF assms(1)] still_view(4) [OF assms(1) r] still_view(5) [OF assms(1) l]
    by auto
qed

lemma still_safe: "still st st' \<Longrightarrow> proposes_safely st st'"
  by (simp add: proposes_safely_def stillD(6))

lemma still_ballots: "still st st' \<Longrightarrow> new_ballots i st st' = []"
  by (simp add: new_ballots_def stillD(5))

section \<open>Handlers in a system of cores\<close>

lemma system_certs:
  assumes "system E L n F chk S V" "i \<in> {..<n} - F"
  shows "certs_genuine L n F V (S i)"
  using assms
proof (induction arbitrary: i rule: system.induct)
  case (start S)
  then have b: "booted E (S i)" "sees L (S i)" by blast+
  then have "nxt (mem (S i)) = 1" "b0 (S i) = 0" "qc_ref (blk (S i) 0) = Some 0" unfolding booted_def by (elim exE boot_shape; simp)+
  then show ?case using b(2) by (auto simp: certs_genuine_def genuine_def sees_def)
next
  case (call S V j st')
  let ?V = "V @ new_ballots j (S j) st'"
  have "certs_genuine L n F V ((S(j := st')) i)" using call.IH [OF call.prems] call.hyps(5) by simp
  then show ?case unfolding certs_genuine_def using genuine_mono [of _ _ _ V _ ?V] by fastforce
qed

lemma system_replica:
  assumes "system E L n F anchored S V" "i \<in> {..<n} - F"
  shows "core_inv (S i)" "low (S i)" "sees L (S i)" "anchored (S i)" "certs_genuine L n F V (S i)"
proof -
  have "replica_ok L n F V i (S i)" using system_inv [OF assms(1)] assms(2) by blast
  from replica_okD(1-4) [OF this] show "core_inv (S i)" "low (S i)" "sees L (S i)" "anchored (S i)" by blast+
  show "certs_genuine L n F V (S i)" by (rule system_certs [OF assms])
qed

lemma tame_evolves: "tame E st st' \<Longrightarrow> core_inv st \<Longrightarrow> low st \<Longrightarrow> evolves st st'"
  unfolding tame_def using core_step_evolves by blast

lemma system_tame:
  assumes "system E L n F anchored S V" "i \<in> {..<n} - F" "(tame E)\<^sup>*\<^sup>* (S i) st"
  shows "system E L n F anchored (S(i := st)) V"
  using assms(3)
proof (induction rule: rtranclp_induct)
  case base
  then show ?case using assms(1) by simp
next
  case (step s t)
  note r = system_replica [OF step.IH assms(2), unfolded fun_upd_same]
  have st: "still s t" and c: "core_low_step E s t" using step.hyps(2) r(2) by (simp_all add: tame_def core_low_step_def)
  have "system E L n F anchored ((S(i := s))(i := t)) (V @ new_ballots i ((S(i := s)) i) t)"
    by (rule system.call [OF step.IH assms(2)])
       (use c r st in \<open>simp_all add: still_sees [OF st r(1)] still_certs [OF st r(1)] still_anchored [OF st r(1)] still_safe\<close>)
  then show ?case using still_ballots [OF st] by (simp del: fun_upd_apply add: fun_upd_same)
qed

text \<open>A handler, seen from the core, is one call in a system of cores.\<close>

lemma system_handler:
  assumes sys: "system E L n F anchored S V" and i: "i \<in> {..<n} - F" and run: "core_run E (S i) st'"
    and low: "low st'" and ok: "sees L st'" "certs_genuine L n F V st'" "proposes_safely (S i) st'" "anchored st'"
  shows "system E L n F anchored (S(i := st')) (V @ new_ballots i (S i) st')"
proof -
  obtain s1 s2 where s: "(tame E)\<^sup>*\<^sup>* (S i) s1" "s2 = s1 \<or> core_step E s1 s2" "(tame E)\<^sup>*\<^sup>* s2 st'"
    using run unfolding core_run_def by blast
  note y1 = system_tame [OF sys i s(1)] and t1 = tame_still [OF s(1)] and t2 = tame_still [OF s(3)]
  show ?thesis
  proof (cases "s2 = s1")
    case True
    then have "(tame E)\<^sup>*\<^sup>* (S i) st'" using s(1,3) by simp
    from system_tame [OF sys i this] still_ballots [OF tame_still [OF this]] show ?thesis by simp
  next
    case False
    then have c: "core_step E s1 s2" using s(2) by blast
    note r1 = system_replica [OF y1 i, unfolded fun_upd_same]
    have l2: "low s2" using tame_run(1) [OF s(3)] low by simp
    note ev = core_step_evolves [OF c r1(1,2) l2] and ce = core_step_effect [OF c r1(1,2) l2]
    have i2: "core_inv s2" using evolvesD(2) [OF ev] .
    have new: "ref_ok s2 r" if "ballots (outs s2) = ballots (outs s1) @ [r]" for r
      using ce that by (auto simp: call_effect_def signs_def)
    have "proposes_safely s1 s2"
    proof (unfold proposes_safely_def, intro allI impI)
      fix r
      assume p: "proposals (outs s2) = proposals (outs s1) @ [r]"
      then have r: "ref_ok s2 r" using ce by (auto simp: call_effect_def signs_def)
      have "proposals (outs st') = proposals (outs (S i)) @ [r]" using p stillD(6) [OF t1] stillD(6) [OF t2] by simp
      then have "vheight (S i) < height (blk st' r) \<and> height (blk st' r) \<le> vheight st' \<and> lock_allows st' r"
        using ok(3) unfolding proposes_safely_def by blast
      then show "vheight s1 < height (blk s2 r) \<and> height (blk s2 r) \<le> vheight s2 \<and> lock_allows s2 r"
        using stillD(2) [OF t1] stillD(2) [OF t2] still_view(5) [OF t2] r still_lock_allows [OF t2 i2 r] by (simp add: ref_ok_def)
    qed
    then have "system E L n F anchored ((S(i := s1))(i := s2)) (V @ new_ballots i ((S(i := s1)) i) s2)"
      using c l2 ok still_sees [OF t2 i2] still_certs [OF t2 i2] still_anchored [OF t2 i2]
      by (intro system.call [OF y1 i]) (simp_all add: core_low_step_def)
    then have "system E L n F anchored (S(i := s2)) (V @ new_ballots i s1 s2)" by simp
    from system_tame [OF this i, of st'] s(3) have y: "system E L n F anchored (S(i := st')) (V @ new_ballots i s1 s2)" by simp
    have "new_ballots i s1 s2 = new_ballots i (S i) st'"
    proof -
      have "ballots (outs s2) = ballots (outs s1) \<or> (\<exists>r. ballots (outs s2) = ballots (outs s1) @ [r])"
        using ce by (auto simp: call_effect_def signs_def)
      then show ?thesis
        using new still_view(2) [OF t2] stillD(5) [OF t1] stillD(5) [OF t2] by (auto simp: new_ballots_def ref_ok_def)
    qed
    with y show ?thesis by simp
  qed
qed

lemma system_joined:
  assumes "finite A" "A \<subseteq> {..<n} - F" "system E L n F anchored S V" "\<And>i. i \<in> A \<Longrightarrow> (tame E)\<^sup>*\<^sup>* (S i) (T i)"
  shows "system E L n F anchored (\<lambda>i. if i \<in> A then T i else S i) V"
  using assms
proof (induction A rule: finite_induct)
  case (insert a A)
  then have "system E L n F anchored (\<lambda>i. if i \<in> A then T i else S i) V" by simp
  from system_tame [OF this, of a "T a"] insert
  have "system E L n F anchored ((\<lambda>i. if i \<in> A then T i else S i)(a := T a)) V" by simp
  moreover have "(\<lambda>i. if i \<in> A then T i else S i)(a := T a) = (\<lambda>i. if i \<in> insert a A then T i else S i)" by auto
  ultimately show ?case by simp
qed simp

section \<open>The system of network layers\<close>

text \<open>As in \<open>system\<close>, with whole handlers as steps: messages, timers, commands and continuations of any honest
  replica in any order, under the same premises on the blocks they connect.\<close>

inductive net_system ::
  "('p, 'k, 's, 'b) env \<Rightarrow> ledger \<Rightarrow> nat \<Rightarrow> nat set \<Rightarrow> (nat \<Rightarrow> ('p, 'k, 's, 'b) base) \<Rightarrow> (nat \<times> uint256) list \<Rightarrow> bool"
  for E L n F where
  start_up: "(\<And>i. i \<in> {..<n} - F \<Longrightarrow> started E (B i) \<and> sees L (hsc (B i))) \<Longrightarrow> net_system E L n F B []"
| handler: "net_system E L n F B V \<Longrightarrow> i \<in> {..<n} - F \<Longrightarrow> base_low_step E (B i) b \<Longrightarrow>
    sees L (hsc b) \<Longrightarrow> certs_genuine L n F V (hsc b) \<Longrightarrow> proposes_safely (hsc (B i)) (hsc b) \<Longrightarrow> anchored (hsc b) \<Longrightarrow>
    net_system E L n F (B(i := b)) (V @ new_ballots i (hsc (B i)) (hsc b))"

lemma net_system_reachable:
  assumes "net_system E L n F B V" "i \<in> {..<n} - F"
  shows "base_reachable E (B i)"
  using assms
proof (induction arbitrary: i rule: net_system.induct)
  case (start_up B)
  then show ?case unfolding base_reachable_def by blast
next
  case (handler B V j b)
  then show ?case unfolding base_reachable_def by (cases "i = j") (auto intro: rtranclp.rtrancl_into_rtrancl)
qed

lemma net_system_start:
  assumes "\<And>i. i \<in> {..<n} - F \<Longrightarrow> started E (B i) \<and> sees L (hsc (B i))"
  shows "system E L n F anchored (\<lambda>i. hsc (B i)) []"
proof -
  have "\<exists>st. booted E st \<and> tame E st (hsc (B i)) \<and> sees L st" if a: "i \<in> {..<n} - F" for i
  proof -
    have B: "started E (B i)" "sees L (hsc (B i))" using assms [OF a] by blast+
    obtain st m where st: "booted E st" "hsc (B i) = st\<lparr>numberOfChildren := m\<rparr>" using started_boot(1) [OF B(1)] by blast
    have "tame E st (hsc (B i))"
      using tame_timing [where E = E and st = st and t = "last_block_time st" and f = "piped_submitted st" and n = m]
      by (simp add: st(2))
    moreover from this have "sees L st"
      using still_sees [of st "hsc (B i)"] reachable_inv(1) [OF booted_reachable [OF st(1)]] B(2) by (simp add: tame_def)
    ultimately show ?thesis using st(1) by blast
  qed
  then obtain S0 where S0: "\<And>i. i \<in> {..<n} - F \<Longrightarrow> booted E (S0 i) \<and> tame E (S0 i) (hsc (B i)) \<and> sees L (S0 i)" by metis
  let ?S = "\<lambda>i. if i \<in> {..<n} - F then S0 i else hsc (B i)"
  have "system E L n F anchored ?S []" by (rule system.start) (use S0 in simp)
  then have "system E L n F anchored (\<lambda>i. if i \<in> {..<n} - F then hsc (B i) else ?S i) []"
    by (rule system_joined [rotated 2]) (use S0 in \<open>auto intro: r_into_rtranclp [of "tame E"]\<close>)
  moreover have "(\<lambda>i. if i \<in> {..<n} - F then hsc (B i) else ?S i) = (\<lambda>i. hsc (B i))" by auto
  ultimately show ?thesis by simp
qed

text \<open>A simulation: the cores of a system of network layers are a system of cores with the same votes.\<close>

lemma net_system_refines:
  assumes "net_system E L n F B V"
  shows "system E L n F anchored (\<lambda>i. hsc (B i)) V"
  using assms
proof (induction rule: net_system.induct)
  case (start_up B)
  then show ?case by (rule net_system_start)
next
  case (handler B V i b)
  have "base_reachable E (B i)" using net_system_reachable handler.hyps(1,2) by blast
  then obtain b0 where b0: "started E b0" "(base_low_step E)\<^sup>*\<^sup>* b0 (B i)" by (auto simp: base_reachable_def)
  have "reachable E (hsc (B i)) \<and> jobs_ok (B i)" using base_sys.reach_inv [OF b0] .
  then have "core_run E (hsc (B i)) (hsc b)" using base_step_run [OF handler.hyps(3)] reachable_inv [of E "hsc (B i)"] by simp
  moreover have "low (hsc b)" using handler.hyps(3) by (simp add: base_low_step_def)
  ultimately have "system E L n F anchored ((\<lambda>i. hsc (B i))(i := hsc b)) (V @ new_ballots i (hsc (B i)) (hsc b))"
    using handler.hyps(4-7) by (intro system_handler [OF handler.IH handler.hyps(2)])
  moreover have "(\<lambda>i. hsc (B i))(i := hsc b) = (\<lambda>j. hsc ((B(i := b)) j))" by auto
  ultimately show ?case by simp
qed

section \<open>The state machines agree\<close>

definition block_log :: "('p, 'k, 's, 'b) base \<Rightarrow> uint256 list" where
  "block_log b = map (\<lambda>r. hash (bblk b r)) (consensus_log (app b))"

text \<open>What the state machine is given, but for the id of the replica: decision, index, height, command and block.\<close>

definition command_log :: "('p, 'k, 's, 'b) base \<Rightarrow> Finality list" where
  "command_log b = map (\<lambda>f. f\<lparr>fin_rid := 0\<rparr>) (execution_log (app b))"

definition fins_of :: "ledger \<Rightarrow> uint256 \<Rightarrow> Finality list" where
  "fins_of L h = map (\<lambda>k. \<lparr>fin_rid = 0, fin_decision = 1, fin_cmd_idx = of_nat k, fin_cmd_height = of_nat (level L h),
     fin_cmd_hash = cmds_of L h ! k, fin_blk_hash = h\<rparr>) [0..<length (cmds_of L h)]"

lemma decided_fins:
  assumes "core_inv st" "sees L st"
  shows "map (\<lambda>f. f\<lparr>fin_rid := 0\<rparr>) (decided (outs st)) = concat (map (fins_of L) (executed_hashes st))"
proof -
  have "map (\<lambda>f. f\<lparr>fin_rid := 0\<rparr>) (finalities st r) = fins_of L (hash (blk st r))" if "r \<in> set (executed (outs st))" for r
  proof -
    have r: "ref_ok st r" using executed_ref_ok(1) [OF assms(1) that] .
    show ?thesis using seesD(4) [OF assms(2) r] level_height [OF assms r] by (simp add: finalities_def fins_of_def)
  qed
  then show ?thesis using core_invD(3) [OF assms(1)]
    by (simp add: log_ok_def map_concat executed_hashes_def comp_def cong: map_cong)
qed

lemma logs_of_core:
  assumes "base_reachable E b" "sees L (hsc b)"
  shows "block_log b = executed_hashes (hsc b)" "command_log b = concat (map (fins_of L) (block_log b))"
proof -
  have s: "in_sync b" "core_inv (hsc b)" using base_reachable_facts [OF assms(1)] reachable_inv(1) by blast+
  then show b: "block_log b = executed_hashes (hsc b)" by (simp add: block_log_def executed_hashes_def in_sync_def)
  show "command_log b = concat (map (fins_of L) (block_log b))"
    using s(1) decided_fins [OF s(2) assms(2)] unfolding b by (simp add: command_log_def in_sync_def)
qed


text \<open>Three started replicas next to a faulty one; a client sends a command to replica 1.\<close>

definition boot_ledger :: "uint256 \<Rightarrow> ledger" where
  "boot_ledger g = \<lparr>parent_of = \<lambda>h. h, cert_of = \<lambda>_. Some g, cmds_of = \<lambda>_. [], genesis = g\<rparr>"

lemma boot_sees:
  assumes "booted E st" "cmds (blk st 0) = []"
  shows "sees (boot_ledger (hash (blk st 0))) st"
proof -
  from assms(1) have "b0 st = 0 \<and> nxt (mem st) = 1 \<and> qc_ref (blk st 0) = Some 0" unfolding booted_def by (elim exE boot_shape) simp
  then show ?thesis using assms(2) by (simp add: sees_def boot_ledger_def ref_ok_def)
qed

lemma boot_cmds:
  assumes "booted E st"
  shows "cmds (blk st 0) = []"
proof -
  from assms obtain sc i sk lat0 cnt0 t0 fo pl ab rs nf st0 where new: "HotStuffCore_new E sc i sk lat0 cnt0 t0 = Inr st0"
    and st: "st = on_init E nf (fold (\<lambda>(rid, peer, pk). add_replica rid peer pk) rs (set_piped_latency pl ab (set_fanout fo st0)))"
    unfolding booted_def by (auto simp: boot_def res_iff)
  have "cmds (blk (fold (\<lambda>(rid, peer, pk). add_replica rid peer pk) rs x) 0) = cmds (blk x 0)" for x :: "('a, 'b, 'c, 'd) core"
    by (induction rs arbitrary: x) (auto simp: add_replica_def upd_blk_def)
  then have "cmds (blk st 0) = cmds (blk st0 0)"
    by (simp add: st on_init_def set_piped_latency_def set_fanout_def Let_def upd_blk_def)
  then show ?thesis using new
    by (auto simp: HotStuffCore_new_def Block_genesis_def Block_default_def alloc_blk_def add_blk_def res_iff Let_def split: option.splits prod.splits)
qed


end
