(* ===== verification/Hs_Keygen.thy ===== *)
theory Hs_Keygen
  imports Hs_Secp Hs_App_Props
begin

text \<open>
  The key generators (\<^verbatim>\<open>src/hotstuff_keygen.cpp\<close>, \<^verbatim>\<open>src/hotstuff_tls_keygen.cpp\<close>) and
  the start of the replica program with the keys they print: the constructor and \<open>start\<close> of
  the class \<open>HotStuff\<close> (\<^verbatim>\<open>include/hotstuff/hotstuff.h\<close>) and \<open>main\<close> of
  \<^verbatim>\<open>examples/hotstuff_app.cpp\<close>. The hexadecimal printer of salticidae is the argument \<open>hex\<close>,
  the sequence of \<open>rand()\<close> after \<open>srand(s)\<close> is \<open>c_rand s\<close>, and \<open>rnd i\<close> is
  what the \<open>i\<close>-th call of \<open>RAND_pseudo_bytes\<close> returns and leaves in the buffer.
\<close>

section \<open>The key generators\<close>

text \<open>The loop of \<open>main\<close> over the virtual functions of \<open>PrivKey\<close> and \<open>PubKey\<close>; \<open>error\<close> prints its
  message and ends the program.\<close>

fun keygen_lines ::
  "(bytes \<Rightarrow> string) \<Rightarrow> (nat \<Rightarrow> 'sk res) \<Rightarrow> ('sk \<Rightarrow> 'pk res) \<Rightarrow> ('pk \<Rightarrow> bytes) \<Rightarrow> ('sk \<Rightarrow> bytes) \<Rightarrow>
     nat \<Rightarrow> nat \<Rightarrow> (string \<times> string) list res" where
  "keygen_lines hex rand pub put_pub put_priv i 0 = Inr []"
| "keygen_lines hex rand pub put_pub put_priv i (Suc n) =
     bind (rand i) (\<lambda>k.
     bind (pub k) (\<lambda>pk.
     bind (keygen_lines hex rand pub put_pub put_priv (Suc i) n) (\<lambda>ls. Inr ((hex (put_pub pk), hex (put_priv k)) # ls))))"

definition bls_rand :: "('g1, 'g2, 'gt) relic \<Rightarrow> (nat \<Rightarrow> nat) \<Rightarrow> nat \<Rightarrow> PrivateKey res" where
  "bls_rand R r i = from_rand R (r (3 * i)) (r (3 * i + 1)) (r (3 * i + 2))"

definition secp_rand :: "(nat \<Rightarrow> int \<times> bytes) \<Rightarrow> nat \<Rightarrow> bytes res" where
  "secp_rand rnd i = secp_from_rand (fst (rnd i)) (snd (rnd i))"

definition keygen_main ::
  "('p, 'k, 's, 'b) env \<Rightarrow> ('g1, 'g2, 'gt) relic \<Rightarrow> ('pk, 'sg) secp_lib \<Rightarrow> (bytes \<Rightarrow> string) \<Rightarrow> (nat \<Rightarrow> nat \<Rightarrow> nat) \<Rightarrow>
     (nat \<Rightarrow> int \<times> bytes) \<Rightarrow> string \<Rightarrow> int \<Rightarrow> (string \<times> string) list res" where
  "keygen_main E R Lb hex c_rand rnd algo n =
     (if algo \<noteq> ''secp256k1'' \<and> algo \<noteq> ''bls'' then Inl (RuntimeError ''algo not supported'')
      else if n < 1 then Inl (RuntimeError ''n must be >0'')
      else if algo = ''secp256k1''
      then keygen_lines hex (secp_rand rnd) (privkey_secp_get_pubkey Lb) (pubkey_secp_serialize E Lb)
             (privkey_secp_serialize E) 0 (nat n)
      else keygen_lines hex (bls_rand R (c_rand 5)) (privkey_get_pubkey R) (pubkey_serialize E R)
             (privkey_serialize E R) 0 (nat n))"

text \<open>\<open>rsa i\<close> is the \<open>i\<close>-th key of \<open>create_privkey_rsa\<close> with the certificate made from it, both in DER
  form. A line holds the certificate, the key, and the hash of the certificate, which names the peer.\<close>

fun tls_keygen_lines ::
  "('p, 'k, 's, 'b) env \<Rightarrow> (bytes \<Rightarrow> string) \<Rightarrow> (nat \<Rightarrow> bytes \<times> bytes) \<Rightarrow> nat \<Rightarrow> nat \<Rightarrow> (string \<times> string \<times> string) list" where
  "tls_keygen_lines E hex rsa i 0 = []"
| "tls_keygen_lines E hex rsa i (Suc n) =
     (hex (snd (rsa i)), hex (fst (rsa i)), hex (put_u256 E (sha256 E (snd (rsa i))))) # tls_keygen_lines E hex rsa (Suc i) n"

definition tls_keygen_main ::
  "('p, 'k, 's, 'b) env \<Rightarrow> (bytes \<Rightarrow> string) \<Rightarrow> (nat \<Rightarrow> bytes \<times> bytes) \<Rightarrow> int \<Rightarrow> (string \<times> string \<times> string) list res" where
  "tls_keygen_main E hex rsa n =
     (if n < 1 then Inl (RuntimeError ''n must be >0'') else Inr (tls_keygen_lines E hex rsa 0 (nat n)))"

section \<open>Starting the replica program\<close>

definition HotStuff_new ::
  "('p, 'k, 's, 'b) env \<Rightarrow> scheme \<Rightarrow> (bytes \<Rightarrow> 'p res) \<Rightarrow> u32 \<Rightarrow> ReplicaID \<Rightarrow> bytes \<Rightarrow> u64 \<Rightarrow> u64 \<Rightarrow> timeval \<Rightarrow>
     ('p, 'k, 's, 'b) base res" where
  "HotStuff_new E sc PrivKeyType bs rid raw_privkey lat0 cnt0 t0 =
     bind (PrivKeyType raw_privkey) (\<lambda>sk. HotStuffBase_new E sc bs rid sk lat0 cnt0 t0)"

definition HotStuff_entry :: "(bytes \<Rightarrow> 'k res) \<Rightarrow> (bytes \<Rightarrow> uint256 res) \<Rightarrow> nat \<times> bytes \<times> bytes \<Rightarrow> 'k replica_entry res" where
  "HotStuff_entry PubKeyType u256 r =
     bind (PubKeyType (fst (snd r))) (\<lambda>pk. bind (u256 (snd (snd r))) (\<lambda>h.
       Inr \<lparr>re_addr = fst r, re_pubkey = pk, re_cert = h\<rparr>))"

definition HotStuff_reps ::
  "(bytes \<Rightarrow> 'k res) \<Rightarrow> (bytes \<Rightarrow> uint256 res) \<Rightarrow> (nat \<times> bytes \<times> bytes) list \<Rightarrow> 'k replica_entry list res" where
  "HotStuff_reps PubKeyType u256 rs = each_res (HotStuff_entry PubKeyType u256) rs"

record app_opts =
  op_blk_size :: int
  op_idx :: int
  op_cport :: int
  op_privkey :: string
  op_imp_timeout :: int
  op_replicas :: "string list"
  op_fanout :: int
  op_piped_latency :: int
  op_async_blocks :: int

text \<open>\<open>main\<close> from the parsed options to \<open>papp->start\<close>. The key is read here after the entries of the replicas, in
  the code before them: with both ill-formed, only the reported exception differs. \<open>u256\<close> is the conversion of
  bytes to a \<open>uint256_t\<close>, code of salticidae.\<close>

definition app_main ::
  "(bytes, 'pk, 's, 'b) env \<Rightarrow> ('pk, 'sg) secp_lib \<Rightarrow> conf_env \<Rightarrow> (bytes \<Rightarrow> uint256 res) \<Rightarrow> u64 \<Rightarrow> u64 \<Rightarrow> timeval \<Rightarrow> int \<Rightarrow>
     app_opts \<Rightarrow> (bytes, 'pk, 's, 'b) happ res" where
  "app_main E Lb C u256 lat0 cnt0 t0 now op =
     bind (replica_main C (op_idx op) (op_cport op) (op_replicas op)) (\<lambda>ra.
     bind (cf_from_hex C (op_privkey op)) (\<lambda>raw.
     bind (HotStuff_new E Secp256k1 (PrivKeySecp256k1 E) (of_int (op_blk_size op)) (of_int (ra_idx ra)) raw lat0 cnt0 t0) (\<lambda>b.
     let b = on_hsc (\<lambda>st. set_piped_latency (of_int (op_piped_latency op)) (of_int (op_async_blocks op))
                            (set_fanout (of_int (op_fanout op)) st)) b in
     bind (HotStuff_reps (PubKeySecp256k1 E Lb) u256 (ra_reps ra)) (\<lambda>reps.
       app_start E now (ra_plisten ra) reps (HotStuffApp_new (op_imp_timeout op) b)))))"

section \<open>The interface of the key classes\<close>

text \<open>What the generator needs of a key class for its output to be readable.\<close>

locale key_class =
  fixes laws :: bool
    and rand :: "nat \<Rightarrow> 'sk res" and pub :: "'sk \<Rightarrow> 'pk res"
    and put_pub :: "'pk \<Rightarrow> bytes" and put_priv :: "'sk \<Rightarrow> bytes"
    and read_pub :: "bytes \<Rightarrow> 'pk res" and read_priv :: "bytes \<Rightarrow> 'sk res"
  assumes priv_roundtrip: "laws \<Longrightarrow> rand i = Inr k \<Longrightarrow> read_priv (put_priv k) = Inr k"
    and pub_roundtrip: "laws \<Longrightarrow> pub k = Inr pk \<Longrightarrow> read_pub (put_pub pk) = Inr pk"
begin

lemma lines_length: "keygen_lines hex rand pub put_pub put_priv i n = Inr ls \<Longrightarrow> length ls = n"
  by (induction n arbitrary: i ls) (auto simp: bind_Inr_iff)

lemma lines_nth:
  "keygen_lines hex rand pub put_pub put_priv i n = Inr ls \<Longrightarrow> j < n \<Longrightarrow>
    \<exists>k pk. rand (i + j) = Inr k \<and> pub k = Inr pk \<and> ls ! j = (hex (put_pub pk), hex (put_priv k))"
proof (induction n arbitrary: i ls j)
  case (Suc n)
  then obtain k pk ls' where k: "rand i = Inr k" "pub k = Inr pk" "ls = (hex (put_pub pk), hex (put_priv k)) # ls'"
    and ls': "keygen_lines hex rand pub put_pub put_priv (Suc i) n = Inr ls'" by (auto simp: bind_Inr_iff)
  show ?case
  proof (cases j)
    case (Suc j')
    then show ?thesis using Suc.IH [OF ls', of j'] Suc.prems(2) k(3) by simp
  qed (use k in simp)
qed simp

lemma lines_readable:
  assumes "keygen_lines hex rand pub put_pub put_priv i n = Inr ls" "laws" "\<forall>d. unhex (hex d) = Inr d" "j < n"
  shows "\<exists>k pk. rand (i + j) = Inr k \<and> bind (unhex (snd (ls ! j))) read_priv = Inr k \<and>
    pub k = Inr pk \<and> bind (unhex (fst (ls ! j))) read_pub = Inr pk"
  using lines_nth [OF assms(1,4)] assms(2,3) priv_roundtrip pub_roundtrip by fastforce

lemma lines_total: "(\<And>i. \<exists>k pk. rand i = Inr k \<and> pub k = Inr pk) \<Longrightarrow> \<exists>ls. keygen_lines hex rand pub put_pub put_priv i n = Inr ls"
proof (induction n arbitrary: i)
  case (Suc n)
  obtain k pk where "rand i = Inr k" "pub k = Inr pk" using Suc.prems by blast
  moreover obtain ls where "keygen_lines hex rand pub put_pub put_priv (Suc i) n = Inr ls" using Suc by blast
  ultimately show ?case by simp
qed simp

end

text \<open>What the stream does with bytes: \<open>put_data\<close> appends them unchanged.\<close>

definition raw_stream :: "('p, 'k, 's, 'b) env \<Rightarrow> bool" where
  "raw_stream E \<longleftrightarrow> (\<forall>d. put_data E d = d)"

lemma from_rand_ok: "hash_laws R \<Longrightarrow> \<exists>k. from_rand R x y z = Inr k \<and> k < g_ord R"
  unfolding from_rand_def by (rule KeyGen_ok) auto

lemma bls_rand_total: "hash_laws R \<Longrightarrow> bls_laws R \<Longrightarrow> \<exists>k pk. bls_rand R r i = Inr k \<and> privkey_get_pubkey R k = Inr pk"
  using from_rand_ok [of R] keys_ok(1) [of R] unfolding bls_rand_def privkey_get_pubkey_def by metis

interpretation bls_key: key_class "hash_laws R \<and> bls_laws R \<and> g1_codec_laws R \<and> raw_stream E" "bls_rand R r"
  "privkey_get_pubkey R" "pubkey_serialize E R" "privkey_serialize E R" "PubKeyBLS R" "PrivKeyBLS R"
proof
  fix i k
  assume a: "hash_laws R \<and> bls_laws R \<and> g1_codec_laws R \<and> raw_stream E" and "bls_rand R r i = Inr k"
  then have "k < g_ord R" using from_rand_ok [of R "r (3 * i)" "r (3 * i + 1)" "r (3 * i + 2)"] by (auto simp: bls_rand_def)
  then show "PrivKeyBLS R (privkey_serialize E R k) = Inr k" using a
    by (simp add: PrivKeyBLS_def privkey_serialize_def raw_stream_def priv_from_bytes_def priv_serialize_def hash_laws_def Let_def)
next
  fix k pk
  assume a: "hash_laws R \<and> bls_laws R \<and> g1_codec_laws R \<and> raw_stream E" and "privkey_get_pubkey R k = Inr pk"
  then have "sub1 R pk" by (auto simp: privkey_get_pubkey_def keys_ok bls1)
  then show "PubKeyBLS R (pubkey_serialize E R pk) = Inr pk" using a
    by (simp add: PubKeyBLS_def pubkey_serialize_def raw_stream_def g1_roundtrip)
qed

interpretation secp_key: key_class "secp_laws Lb \<and> stream_laws E \<and> (\<forall>i. length (snd (rnd i)) = 32)" "secp_rand rnd"
  "privkey_secp_get_pubkey Lb" "pubkey_secp_serialize E Lb" "privkey_secp_serialize E" "PubKeySecp256k1 E Lb" "PrivKeySecp256k1 E"
proof
  fix i k
  assume a: "secp_laws Lb \<and> stream_laws E \<and> (\<forall>i. length (snd (rnd i)) = 32)" and k: "secp_rand rnd i = Inr k"
  then have l: "length k = 32" by (auto simp: secp_rand_def secp_from_rand_def split: if_splits)
  show "PrivKeySecp256k1 E (privkey_secp_serialize E k) = Inr k" using a l stream_simps(4) [of E k "[]"]
    by (simp add: PrivKeySecp256k1_def privkey_secp_unserialize_def privkey_secp_serialize_def)
next
  fix k pk
  assume a: "secp_laws Lb \<and> stream_laws E \<and> (\<forall>i. length (snd (rnd i)) = 32)" and "privkey_secp_get_pubkey Lb k = Inr pk"
  let ?d = "ec_pubkey_serialize Lb ContextSign pk"
  have "length ?d = 33" "ec_pubkey_parse Lb ContextSign ?d = Some pk" using a by (simp_all add: secp_laws_def)
  then show "PubKeySecp256k1 E Lb (pubkey_secp_serialize E Lb pk) = Inr pk" using a stream_simps(4) [of E ?d "[]"]
    by (simp add: PubKeySecp256k1_def pubkey_secp_unserialize_def pubkey_secp_serialize_def)
qed

text \<open>The third field of a TLS line, read by \<open>start\<close>, is the hash of the certificate in the first field: the
  name by which the network layer knows the peer that shows this certificate.\<close>

lemma tls_lines_readable:
  assumes "\<forall>d. unhex (hex d) = Inr d" "\<forall>h. u256 (put_u256 E h) = Inr h" "tls_keygen_main E hex rsa n = Inr ls"
  shows "length ls = nat n \<and> (\<forall>(crt, sec, name) \<in> set ls. \<exists>der. unhex crt = Inr der \<and> bind (unhex name) u256 = Inr (sha256 E der))"
proof -
  have "length (tls_keygen_lines E hex rsa i m) = m \<and> (\<forall>(crt, sec, name) \<in> set (tls_keygen_lines E hex rsa i m).
      \<exists>der. unhex crt = Inr der \<and> bind (unhex name) u256 = Inr (sha256 E der))" for i m
    using assms(1,2) by (induction m arbitrary: i) auto
  moreover have "ls = tls_keygen_lines E hex rsa 0 (nat n)" using assms(3) by (simp add: tls_keygen_main_def split: if_splits)
  ultimately show ?thesis by simp
qed

section \<open>The configuration of a started replica\<close>

lemma add_peers_keys:
  fixes a :: nat
  assumes "length rs \<le> 2 ^ 16" "replica_map (config (hsc b)) = []" "nreplicas (config (hsc b)) = 0"
  defines "b' \<equiv> fold (add_peer a) (zip [0..<length rs] rs) b"
  shows "(\<forall>r. map_of (replica_map (config (hsc b'))) r = (if unat r < length rs
      then Some \<lparr>ri_id = r, ri_peer_id = re_cert (rs ! unat r), ri_pubkey = re_pubkey (rs ! unat r)\<rparr> else None)) \<and>
    nreplicas (config (hsc b')) = of_nat (length rs) \<and> my_id (hsc b') = my_id (hsc b) \<and> priv_key (hsc b') = priv_key (hsc b)"
  using assms(1) unfolding b'_def
proof (induction rs rule: rev_induct)
  case Nil
  then show ?case using assms(2,3) by simp
next
  case (snoc x rs)
  let ?n = "length rs" and ?b = "fold (add_peer a) (zip [0..<length rs] rs) b"
  have z: "zip [0..<length (rs @ [x])] (rs @ [x]) = zip [0..<?n] rs @ [(?n, x)]" by simp
  have u: "unat (of_nat ?n :: ReplicaID) = ?n" using snoc.prems by (intro unat_rid [of _ "Suc ?n"]) auto
  have IH: "map_of (replica_map (config (hsc ?b))) r = (if unat r < ?n
      then Some \<lparr>ri_id = r, ri_peer_id = re_cert (rs ! unat r), ri_pubkey = re_pubkey (rs ! unat r)\<rparr> else None)"
    "nreplicas (config (hsc ?b)) = of_nat ?n" "my_id (hsc ?b) = my_id (hsc b)" "priv_key (hsc ?b) = priv_key (hsc b)" for r
    using snoc by simp_all
  have eq: "r = of_nat ?n \<longleftrightarrow> unat r = ?n" for r :: ReplicaID using u by (simp add: word_unat_eq_iff)
  show ?case unfolding z fold_append comp_def fold_simps
    using IH u by (simp add: add_peer_frame add_replica_def add_replica_cfg_def umap_insert_def map_add_def eq nth_append less_Suc_eq)
       (use eq in metis)
qed

lemma start_config:
  assumes "start E a rs b = Inr b'" "length rs \<le> 2 ^ 16" "replica_map (config (hsc b)) = []" "nreplicas (config (hsc b)) = 0"
  shows "i < length rs \<Longrightarrow> get_pubkey (config (hsc b')) (of_nat i) = Inr (re_pubkey (rs ! i))"
    and "unat (nreplicas (config (hsc b'))) = length rs"
    and "my_id (hsc b') = my_id (hsc b)" and "priv_key (hsc b') = priv_key (hsc b)"
proof -
  let ?b = "fold (add_peer a) (zip [0..<length rs] rs) (b\<lparr>childPeers := {}\<rparr>)"
  note c = add_peers_keys [of rs "b\<lparr>childPeers := {}\<rparr>" a]
  have f: "replica_map (config (hsc b')) = replica_map (config (hsc ?b))" "nreplicas (config (hsc b')) = nreplicas (config (hsc ?b))"
    "my_id (hsc b') = my_id (hsc ?b)" "priv_key (hsc b') = priv_key (hsc ?b)"
    using assms(1) by (auto simp: start_def Let_def bind_Inr_iff on_init_def)
  show "i < length rs \<Longrightarrow> get_pubkey (config (hsc b')) (of_nat i) = Inr (re_pubkey (rs ! i))"
    using c assms(2-) unat_rid [of i "length rs"] by (simp add: get_pubkey_def get_info_def f)
  have "length rs < 2 ^ 64" using assms(2) by (rule le_less_trans) simp
  then show "unat (nreplicas (config (hsc b'))) = length rs" using c assms(2-)
    by (simp add: f unsigned_of_nat take_bit_nat_eq_self)
  show "my_id (hsc b') = my_id (hsc b)" "priv_key (hsc b') = priv_key (hsc b)" using c assms(2-) by (simp_all add: f)
qed

lemma app_main_parts:
  assumes "app_main E Lb C u256 lat0 cnt0 t0 now op = Inr a" "length (op_replicas op) \<le> 2 ^ 16"
  shows "\<exists>raw sk. cf_from_hex C (op_privkey op) = Inr raw \<and> PrivKeySecp256k1 E raw = Inr sk \<and> priv_key (hsc (ha a)) = sk"
    and "my_id (hsc (ha a)) = of_nat (nat (op_idx op)) \<and> nat (op_idx op) < length (op_replicas op)"
    and "unat (nreplicas (config (hsc (ha a)))) = length (op_replicas op)"
    and "i < length (op_replicas op) \<Longrightarrow> parse_replica C (op_replicas op ! i) = Inr (x, pub, y) \<Longrightarrow>
      \<exists>pk. bind (cf_from_hex C pub) (PubKeySecp256k1 E Lb) = Inr pk \<and> get_pubkey (config (hsc (ha a))) (of_nat i) = Inr pk"
proof -
  from assms(1) obtain ra raw sk b reps where ra: "replica_main C (op_idx op) (op_cport op) (op_replicas op) = Inr ra"
    and raw: "cf_from_hex C (op_privkey op) = Inr raw" "PrivKeySecp256k1 E raw = Inr sk"
    and b: "HotStuffBase_new E Secp256k1 (of_int (op_blk_size op)) (of_int (ra_idx ra)) sk lat0 cnt0 t0 = Inr b"
    and reps: "HotStuff_reps (PubKeySecp256k1 E Lb) u256 (ra_reps ra) = Inr reps"
    and st: "app_start E now (ra_plisten ra) reps (HotStuffApp_new (op_imp_timeout op)
      (on_hsc (\<lambda>st. set_piped_latency (of_int (op_piped_latency op)) (of_int (op_async_blocks op))
        (set_fanout (of_int (op_fanout op)) st)) b)) = Inr a"
    by (auto simp: app_main_def HotStuff_new_def bind_Inr_iff Let_def)
  let ?b = "on_hsc (\<lambda>st. set_piped_latency (of_int (op_piped_latency op)) (of_int (op_async_blocks op))
        (set_fanout (of_int (op_fanout op)) st)) b"
  from st have st': "start E (ra_plisten ra) reps ?b = Inr (ha a)"
    by (auto simp: app_start_def bind_Inr_iff HotStuffApp_new_def reset_imp_timer_def)
  from ra obtain trip where t: "each_res (parse_replica C) (op_replicas op) = Inr trip" "each_res (rep_entry C) trip = Inr (ra_reps ra)"
    "0 \<le> op_idx op" "nat (op_idx op) < length trip" "ra_idx ra = op_idx op"
    by (auto simp: replica_main_def bind_Inr_iff Let_def split: if_splits)
  have len: "length trip = length (op_replicas op)" "length (ra_reps ra) = length (op_replicas op)" "length reps = length (op_replicas op)"
    using each_res_length [OF t(1)] each_res_length [OF t(2)] each_res_length [OF reps [unfolded HotStuff_reps_def]] by simp_all
  have ini: "replica_map (config (hsc ?b)) = []" "nreplicas (config (hsc ?b)) = 0" "my_id (hsc ?b) = of_int (ra_idx ra)" "priv_key (hsc ?b) = sk"
    using b by (auto simp: HotStuffBase_new_def HotStuffCore_new_def bind_Inr_iff Let_def set_piped_latency_def set_fanout_def
        ReplicaConfig_new_def case_prod_beta)
  note c = start_config [OF st' _ ini(1,2)]
  show "\<exists>raw sk. cf_from_hex C (op_privkey op) = Inr raw \<and> PrivKeySecp256k1 E raw = Inr sk \<and> priv_key (hsc (ha a)) = sk"
    using raw c(4) ini(4) len(3) assms(2) by simp
  show "my_id (hsc (ha a)) = of_nat (nat (op_idx op)) \<and> nat (op_idx op) < length (op_replicas op)"
  proof -
    obtain m where m: "op_idx op = int m" using t(3) nonneg_int_cases by blast
    show ?thesis using c(3) ini(3) len t(4,5) assms(2) by (simp add: m)
  qed
  show "unat (nreplicas (config (hsc (ha a)))) = length (op_replicas op)" using c(2) len(3) assms(2) by simp
  assume i: "i < length (op_replicas op)" and pr: "parse_replica C (op_replicas op ! i) = Inr (x, pub, y)"
  have "trip ! i = (x, pub, y)" using each_res_nth [OF t(1) i] pr by simp
  then obtain d where d: "cf_from_hex C pub = Inr d" "fst (snd (ra_reps ra ! i)) = d"
    using each_res_nth [OF t(2), of i] i len by (cases "ra_reps ra ! i") (auto simp: rep_entry_def bind_Inr_iff)
  have "PubKeySecp256k1 E Lb d = Inr (re_pubkey (reps ! i))"
    using each_res_nth [OF reps [unfolded HotStuff_reps_def], of i] i len d(2)
    by (cases "reps ! i") (auto simp: HotStuff_entry_def bind_Inr_iff)
  then show "\<exists>pk. bind (cf_from_hex C pub) (PubKeySecp256k1 E Lb) = Inr pk \<and> get_pubkey (config (hsc (ha a))) (of_nat i) = Inr pk"
    using d(1) c(1) [of i] i len(3) assms(2) by simp
qed

section \<open>Properties\<close>

text \<open>
  C36: Generated keys fit together. When the replica program is started with the public keys of the generator's
  lines as the keys of the replicas and the secret key of its own line, every replica of its configuration has
  the public key of the secret key in its line, and its own signing key is the one of its entry. Hence
  certificates that are collected from votes signed with these keys verify.
\<close>

theorem generated_keys_configured:
  assumes "secp_laws Lb" "stream_laws E" "\<forall>d. cf_from_hex C (hex d) = Inr d" "\<forall>i. length (snd (rnd i)) = 32"
    and "keygen_main E R Lb hex c_rand rnd ''secp256k1'' n = Inr ls"
    and "length (op_replicas op) \<le> 2 ^ 16"
    and "\<And>i. i < length (op_replicas op) \<Longrightarrow> i < length ls \<and> (\<exists>x y. parse_replica C (op_replicas op ! i) = Inr (x, fst (ls ! i), y))"
    and "op_privkey op = snd (ls ! nat (op_idx op))"
    and "app_main E Lb C u256 lat0 cnt0 t0 now op = Inr a"
  shows "length ls = nat n \<and> unat (nreplicas (config (hsc (ha a)))) = length (op_replicas op) \<and>
    (\<forall>i < length (op_replicas op). \<exists>sk pk. bind (cf_from_hex C (snd (ls ! i))) (PrivKeySecp256k1 E) = Inr sk \<and>
       privkey_secp_get_pubkey Lb sk = Inr pk \<and> get_pubkey (config (hsc (ha a))) (of_nat i) = Inr pk) \<and>
    (\<exists>pk. privkey_secp_get_pubkey Lb (priv_key (hsc (ha a))) = Inr pk \<and>
       get_pubkey (config (hsc (ha a))) (my_id (hsc (ha a))) = Inr pk)"
proof -
  have lines: "keygen_lines hex (secp_rand rnd) (privkey_secp_get_pubkey Lb) (pubkey_secp_serialize E Lb)
      (privkey_secp_serialize E) 0 (nat n) = Inr ls" using assms(5) by (auto simp: keygen_main_def split: if_splits)
  have laws: "secp_laws Lb \<and> stream_laws E \<and> (\<forall>i. length (snd (rnd i)) = 32)" using assms(1,2,4) by simp
  note len = secp_key.lines_length [OF lines]
  have keys: "\<exists>sk pk. bind (cf_from_hex C (snd (ls ! i))) (PrivKeySecp256k1 E) = Inr sk \<and>
       privkey_secp_get_pubkey Lb sk = Inr pk \<and> get_pubkey (config (hsc (ha a))) (of_nat i) = Inr pk"
    if i: "i < length (op_replicas op)" for i
  proof -
    obtain x y where xy: "i < length ls" "parse_replica C (op_replicas op ! i) = Inr (x, fst (ls ! i), y)" using assms(7) [OF i] by blast
    show ?thesis using secp_key.lines_readable [OF lines laws assms(3), of i] xy(1) len
        app_main_parts(4) [OF assms(9,6) i xy(2)] by auto
  qed
  note own = app_main_parts(1,2) [OF assms(9,6)]
  have "\<exists>pk. privkey_secp_get_pubkey Lb (priv_key (hsc (ha a))) = Inr pk \<and>
       get_pubkey (config (hsc (ha a))) (my_id (hsc (ha a))) = Inr pk"
    using own keys [of "nat (op_idx op)"] assms(8) by auto
  then show ?thesis using len app_main_parts(3) [OF assms(9,6)] keys by blast
qed

text \<open>Two replicas whose secret keys are 32 times the letter A and 32 times the letter B.\<close>

definition sample_hex :: "bytes \<Rightarrow> string" where
  "sample_hex d = map (\<lambda>b. char_of (unat b)) d"

lemma sample_hex_read: "cf_from_hex sample_conf (sample_hex d) = Inr d"
proof -
  have "of_char (char_of (unat b) :: char) = b" for b :: u8
  proof -
    have "unat b < 256" using unsigned_less [of b] by simp
    then have n: "(of_char (char_of (unat b) :: char) :: nat) = unat b" by simp
    have "of_char (char_of (unat b) :: char) = (of_nat (of_char (char_of (unat b) :: char)) :: u8)" by (simp only: of_nat_of_char)
    moreover have "of_nat (unat b) = b" by simp
    ultimately show ?thesis by (simp only: n)
  qed
  then show ?thesis by (simp add: sample_conf_def sample_hex_def comp_def)
qed

abbreviation sample_secp_env :: "(bytes, u8, u8 \<times> u8, bool list) env" where
  "sample_secp_env \<equiv> secp_env sample_secp (0, 0) sample_tb sample_env"

definition sample_rnd :: "nat \<Rightarrow> int \<times> bytes" where
  "sample_rnd i = (1, replicate 32 (if i = 0 then 65 else 66))"

definition sample_opts :: app_opts where
  "sample_opts = \<lparr>op_blk_size = 1, op_idx = 0, op_cport = 20, op_privkey = sample_hex (replicate 32 65), op_imp_timeout = 11,
     op_replicas = [''h:1;20,'' @ sample_hex (replicate 33 65) @ '',c'', ''h:22;30,'' @ sample_hex (replicate 33 66) @ '',cc''],
     op_fanout = 2, op_piped_latency = 10, op_async_blocks = 0\<rparr>"

lemma sample_lines:
  "keygen_main sample_secp_env sample_relic sample_secp sample_hex (\<lambda>_ _. 0) sample_rnd ''secp256k1'' 2 =
     Inr [(sample_hex (replicate 33 65), sample_hex (replicate 32 65)), (sample_hex (replicate 33 66), sample_hex (replicate 32 66))]"
  by (simp add: keygen_main_def secp_rand_def secp_from_rand_def sample_rnd_def privkey_secp_get_pubkey_def PubKeySecp256k1_of_def
      sample_secp_def pubkey_secp_serialize_def privkey_secp_serialize_def sample_env_def numeral_2_eq_2)

lemma sample_letters: "sample_hex (replicate n 65) = replicate n (CHR ''A'')" "sample_hex (replicate n 66) = replicate n (CHR ''B'')"
  by (simp_all add: sample_hex_def char_of_def bit_0)

lemma sample_parse:
  "parse_replica sample_conf (''h:1;20,'' @ sample_hex (replicate 33 65) @ '',c'') = Inr (''h:1;20'', sample_hex (replicate 33 65), ''c'')"
  "parse_replica sample_conf (''h:22;30,'' @ sample_hex (replicate 33 66) @ '',cc'') = Inr (''h:22;30'', sample_hex (replicate 33 66), ''cc'')"
  unfolding sample_letters
  by (simp_all add: parse_replica_def sample_conf_def takeWhile_append Let_def)

lemma sample_app_main:
  "\<exists>a. app_main sample_secp_env sample_secp sample_conf (\<lambda>d. Inr (of_nat (length d))) 0 0 (0, 0) 0 sample_opts = Inr a"
proof -
  have key: "PrivKeySecp256k1 sample_secp_env (replicate 32 65) = Inr (replicate 32 65)"
    "PubKeySecp256k1 sample_secp_env sample_secp (replicate 33 c) = Inr c" for c
    by (simp_all add: PrivKeySecp256k1_def privkey_secp_unserialize_def PubKeySecp256k1_def pubkey_secp_unserialize_def
        sample_env_def sample_secp_def)
  obtain b where b: "HotStuffBase_new sample_secp_env Secp256k1 1 0 (replicate 32 65) 0 0 (0, 0) = Inr b"
    "parentPeer b = None" "my_id (hsc b) = 0" "fanout (config (hsc b)) = 0" "peers b = []"
    by (simp add: HotStuffBase_new_def boot_eval)
  have tree: "\<exists>t. tree_build (Suc (Suc 0)) 2 0 peer None = Inr t" for peer
    by (simp add: tree_build_def tree_loop.simps numeral_2_eq_2 Let_def tree_edge_def)
  obtain c d where main: "replica_main sample_conf 0 20 (op_replicas sample_opts) =
      Inr \<lparr>ra_idx = 0, ra_client_port = 20, ra_plisten = 3, ra_reps = [(3, replicate 33 65, c), (4, replicate 33 66, d)]\<rparr>"
    using sample_parse sample_hex_read
    by (simp add: sample_opts_def replica_main_def client_port_of_def rep_entry_def split_ip_port_cport_def)
       (simp add: sample_conf_def Let_def)
  define reps where "reps = [\<lparr>re_addr = 3, re_pubkey = 65, re_cert = of_nat (length c)\<rparr>, \<lparr>re_addr = 4, re_pubkey = 66 :: u8, re_cert = of_nat (length d)\<rparr>]"
  have reps: "HotStuff_reps (PubKeySecp256k1 sample_secp_env sample_secp) (\<lambda>d. Inr (of_nat (length d)))
      [(3, replicate 33 65, c), (4, replicate 33 66, d)] = Inr reps"
    by (simp add: HotStuff_reps_def HotStuff_entry_def key reps_def)
  let ?b = "on_hsc (\<lambda>st. set_piped_latency 10 0 (set_fanout 2 st)) b"
  obtain t where t: "tree_build (Suc (Suc 0)) 2 0 (\<lambda>j. re_cert (reps ! j)) None = Inr t" using tree by blast
  have "\<exists>b'. start sample_secp_env 3 reps ?b = Inr b'" using t b(2-)
    by (simp add: start_def Let_def add_peer_def set_piped_latency_def set_fanout_def add_replica_def add_replica_cfg_def reps_def)
  then show ?thesis using main b(1) sample_hex_read key reps
    by (auto simp: app_main_def HotStuff_new_def sample_opts_def app_start_def HotStuffApp_new_def reset_imp_timer_def)
qed

theorem generated_keys_configured_witness:
  "\<exists>a. app_main sample_secp_env sample_secp sample_conf (\<lambda>d. Inr (of_nat (length d))) 0 0 (0, 0) 0 sample_opts = Inr a \<and>
     unat (nreplicas (config (hsc (ha a)))) = 2 \<and>
     (\<exists>pk. privkey_secp_get_pubkey sample_secp (priv_key (hsc (ha a))) = Inr pk \<and>
        get_pubkey (config (hsc (ha a))) (my_id (hsc (ha a))) = Inr pk)"
proof -
  obtain a where a: "app_main sample_secp_env sample_secp sample_conf (\<lambda>d. Inr (of_nat (length d))) 0 0 (0, 0) 0 sample_opts = Inr a"
    using sample_app_main by blast
  let ?ls = "[(sample_hex (replicate 33 65), sample_hex (replicate 32 65)), (sample_hex (replicate 33 66), sample_hex (replicate 32 66))]"
  have laws: "stream_laws sample_secp_env" "\<forall>d. cf_from_hex sample_conf (sample_hex d) = Inr d" "\<forall>i. length (snd (sample_rnd i)) = 32"
    using sample_hex_read by (simp_all add: secp_env_laws sample_rnd_def)
  have len: "length (op_replicas sample_opts) = 2" by (simp add: sample_opts_def)
  have reps: "i < length ?ls \<and> (\<exists>x y. parse_replica sample_conf (op_replicas sample_opts ! i) = Inr (x, fst (?ls ! i), y))"
    if "i < length (op_replicas sample_opts)" for i
  proof -
    have "i = 0 \<or> i = 1" using that len by auto
    then show ?thesis using sample_parse by (auto simp: sample_opts_def)
  qed
  have le: "length (op_replicas sample_opts) \<le> 2 ^ 16" unfolding len by simp
  have own: "op_privkey sample_opts = snd (?ls ! nat (op_idx sample_opts))" by (simp add: sample_opts_def)
  from generated_keys_configured [OF sample_secp_laws laws sample_lines le reps own a] a len show ?thesis
    by (intro exI [of _ a]) simp
qed

text \<open>
  C37: The BLS key generator always prints its keys, each line holds a pair of matching keys that a replica reads
  back, and every secret key it can print, on any run with any seed, is one of at most 15 625 000.
\<close>

theorem bls_keygen:
  assumes "hash_laws R" "bls_laws R" "g1_codec_laws R" "raw_stream E" "\<forall>d. unhex (hex d) = Inr d" "1 \<le> n"
  shows "\<exists>ls. keygen_main E R Lb hex c_rand rnd ''bls'' n = Inr ls \<and> length ls = nat n \<and>
    (\<forall>j < nat n. \<exists>k pk. bind (unhex (snd (ls ! j))) (PrivKeyBLS R) = Inr k \<and> privkey_get_pubkey R k = Inr pk \<and>
       bind (unhex (fst (ls ! j))) (PubKeyBLS R) = Inr pk \<and> k \<in> {k. \<exists>r i. bls_rand R r i = Inr k}) \<and>
    finite {k. \<exists>r i. bls_rand R r i = Inr k} \<and> card {k. \<exists>r i. bls_rand R r i = Inr k} \<le> 250 ^ 3"
proof -
  have laws: "hash_laws R \<and> bls_laws R \<and> g1_codec_laws R \<and> raw_stream E" using assms by simp
  obtain ls where ls: "keygen_lines hex (bls_rand R (c_rand 5)) (privkey_get_pubkey R) (pubkey_serialize E R)
      (privkey_serialize E R) 0 (nat n) = Inr ls" using bls_key.lines_total [OF bls_rand_total [OF assms(1,2)]] by blast
  have keys: "{k. \<exists>r i. bls_rand R r i = Inr k} \<subseteq> (\<lambda>(x, y, z). projr (from_rand R x y z)) ` ({..<250} \<times> {..<250} \<times> {..<250})"
  proof clarify
    fix k r i
    assume k: "bls_rand R r i = Inr k"
    have "from_rand R x y z = from_rand R (x mod 250) (y mod 250) (z mod 250)" for x y z by (simp add: from_rand_def)
    then have "k = projr (from_rand R (r (3 * i) mod 250) (r (3 * i + 1) mod 250) (r (3 * i + 2) mod 250))"
      using k by (metis bls_rand_def sum.sel(2))
    then show "k \<in> (\<lambda>(x, y, z). projr (from_rand R x y z)) ` ({..<250} \<times> {..<250} \<times> {..<250})" by force
  qed
  have "card {k. \<exists>r i. bls_rand R r i = Inr k} \<le> card ({..<250 :: nat} \<times> {..<250 :: nat} \<times> {..<250 :: nat})"
    using keys by (intro surj_card_le) auto
  moreover have "finite {k. \<exists>r i. bls_rand R r i = Inr k}" using keys by (rule finite_subset) simp
  moreover have "keygen_main E R Lb hex c_rand rnd ''bls'' n = Inr ls" using ls assms(6) by (simp add: keygen_main_def)
  ultimately show ?thesis
    using bls_key.lines_length [OF ls] bls_key.lines_readable [OF ls laws assms(5)]
    by (intro exI [of _ ls]) (fastforce simp: card_cartesian_product)
qed

theorem bls_keygen_witness:
  "\<exists>ls. keygen_main sample_env sample_relic sample_secp sample_hex (\<lambda>s i. s + i) sample_rnd ''bls'' 2 = Inr ls \<and> length ls = 2 \<and>
     (\<exists>k pk. bind (cf_from_hex sample_conf (snd (ls ! 1))) (PrivKeyBLS sample_relic) = Inr k \<and>
        privkey_get_pubkey sample_relic k = Inr pk \<and> bind (cf_from_hex sample_conf (fst (ls ! 1))) (PubKeyBLS sample_relic) = Inr pk)"
proof -
  let ?ok = "\<lambda>ls j. \<exists>k pk. bind (cf_from_hex sample_conf (snd (ls ! j))) (PrivKeyBLS sample_relic) = Inr k \<and>
    privkey_get_pubkey sample_relic k = Inr pk \<and> bind (cf_from_hex sample_conf (fst (ls ! j))) (PubKeyBLS sample_relic) = Inr pk \<and>
    k \<in> {k. \<exists>r i. bls_rand sample_relic r i = Inr k}"
  have raw: "raw_stream sample_env" by (simp add: raw_stream_def sample_env_def)
  have hex: "\<forall>d. cf_from_hex sample_conf (sample_hex d) = Inr d" using sample_hex_read by blast
  have two: "1 \<le> (2 :: int)" by simp
  obtain ls where ls: "keygen_main sample_env sample_relic sample_secp sample_hex (\<lambda>s i. s + i) sample_rnd ''bls'' 2 = Inr ls"
    "length ls = nat 2" "\<forall>j < nat 2. ?ok ls j"
    using bls_keygen [OF sample_codec_laws(3) sample_bls_laws sample_codec_laws(1) raw hex two, of sample_secp "\<lambda>s i. s + i" sample_rnd]
    by (elim exE conjE)
  have "?ok ls 1" using ls(3) by (rule allE [of _ 1]) simp
  then show ?thesis using ls(1,2) by (intro exI [of _ ls]) auto
qed

section \<open>BLS keys and the replica program\<close>

text \<open>The documentation of secp256k1: a compressed public key has the header byte 2 or 3.\<close>

definition secp_header_law :: "('pk, 'sg) secp_lib \<Rightarrow> bool" where
  "secp_header_law Lb \<longleftrightarrow> (\<forall>ctx d. length d = 33 \<longrightarrow> d ! 0 \<noteq> 2 \<longrightarrow> d ! 0 \<noteq> 3 \<longrightarrow> ec_pubkey_parse Lb ctx d = None)"

lemma g1_serialize_form:
  assumes "g1_codec_laws R" "sub1 R p"
  shows "length (g1_serialize R p) = 48" "g1_serialize R p ! 0 AND 0x80 = 0x80"
proof -
  have "length (g1_write_bin R p) = 49" using assms by (auto simp: g1_codec_laws_def)
  then show "length (g1_serialize R p) = 48" by (simp add: g1_serialize_def G1_SIZE_def Let_def)
  show "g1_serialize R p ! 0 AND 0x80 = 0x80"
    by (simp add: g1_serialize_def G1_SIZE_def Let_def bit.conj_disj_distrib2)
qed

lemma bls_pubkey_not_secp:
  assumes "secp_header_law Lb" "stream_laws E" "raw_stream E" "g1_codec_laws R" "sub1 R p"
  shows "PubKeySecp256k1 E Lb (g1_serialize R p) = Inl (InvalidArgument ''ill-formed public key'')"
proof -
  let ?d = "g1_serialize R p"
  note f = g1_serialize_form [OF assms(4,5)]
  have g: "get_data E 33 ?d = Some (take 33 ?d, drop 33 ?d)"
    using stream_simps(4) [OF assms(2), of "take 33 ?d" "drop 33 ?d"] assms(3) f(1) by (simp add: raw_stream_def)
  have "?d ! 0 \<noteq> 2" "?d ! 0 \<noteq> 3" using f(2) by auto
  then have "ec_pubkey_parse Lb ContextSign (take 33 ?d) = None" using assms(1) f(1) by (simp add: secp_header_law_def)
  then show ?thesis using g by (simp add: PubKeySecp256k1_def pubkey_secp_unserialize_def)
qed

text \<open>
  C38: The replica program is built for secp256k1 keys, so it never starts with the keys that the generator prints by default
  (the algorithm \<open>bls\<close>) and that the script for configurations asks for: it ends with an exception.
\<close>

theorem bls_keys_rejected:
  assumes "secp_header_law Lb" "stream_laws E" "raw_stream E" "hash_laws R" "bls_laws R" "g1_codec_laws R"
    and "\<forall>d. cf_from_hex C (hex d) = Inr d"
    and "keygen_main E R Lb hex c_rand rnd ''bls'' n = Inr ls"
    and "length (op_replicas op) \<le> 2 ^ 16" "nat (op_idx op) < length ls"
    and "parse_replica C (op_replicas op ! nat (op_idx op)) = Inr (x, fst (ls ! nat (op_idx op)), y)"
  shows "\<exists>e. app_main E Lb C u256 lat0 cnt0 t0 now op = Inl e"
proof (rule ccontr)
  assume "\<nexists>e. app_main E Lb C u256 lat0 cnt0 t0 now op = Inl e"
  then obtain a where a: "app_main E Lb C u256 lat0 cnt0 t0 now op = Inr a"
    by (cases "app_main E Lb C u256 lat0 cnt0 t0 now op") auto
  let ?i = "nat (op_idx op)"
  have i: "?i < length (op_replicas op)" using app_main_parts(2) [OF a assms(9)] by simp
  have ls: "keygen_lines hex (bls_rand R (c_rand 5)) (privkey_get_pubkey R) (pubkey_serialize E R) (privkey_serialize E R) 0 (nat n) = Inr ls"
    using assms(8) by (simp add: keygen_main_def split: if_splits)
  obtain k pk where pk: "privkey_get_pubkey R k = Inr pk" "fst (ls ! ?i) = hex (pubkey_serialize E R pk)"
    using bls_key.lines_nth [OF ls, of ?i] bls_key.lines_length [OF ls] assms(10) by auto
  have "sub1 R pk" using pk(1) assms(5) by (auto simp: privkey_get_pubkey_def keys_ok bls1)
  from bls_pubkey_not_secp [OF assms(1-3,6) this] show False
    using app_main_parts(4) [OF a assms(9) i assms(11)] assms(3,7) by (simp add: pk(2) pubkey_serialize_def raw_stream_def)
qed

text \<open>A library that checks the header, and a command line split at the first and the last comma.\<close>

definition strict_secp :: "(u8, u8 \<times> u8) secp_lib" where
  "strict_secp = sample_secp\<lparr>ec_pubkey_serialize := \<lambda>_ pk. 2 # replicate 32 pk,
     ec_pubkey_parse := \<lambda>_ d. if d ! 0 = 2 \<or> d ! 0 = 3 then Some (d ! 1) else None\<rparr>"

lemma strict_secp_laws: "secp_laws strict_secp" "secp_header_law strict_secp"
  by (auto simp: secp_laws_def secp_header_law_def strict_secp_def sample_secp_def)

definition outer_conf :: conf_env where
  "outer_conf = sample_conf\<lparr>cf_split := \<lambda>s d. (let t = takeWhile (\<lambda>ch. [ch] \<noteq> d) s; u = rev (takeWhile (\<lambda>ch. [ch] \<noteq> d) (rev s)) in
     if d = '','' then [t, take (length s - length t - length u - 2) (drop (length t + 1) s), u] else [t, drop (length t + 1) s])\<rparr>"

lemma outer_parse: "parse_replica outer_conf (''h:1;20,'' @ m @ '',c'') = Inr (''h:1;20'', m, ''c'')"
  by (simp add: parse_replica_def outer_conf_def sample_conf_def takeWhile_append Let_def)

theorem bls_keys_rejected_witness:
  "\<exists>ls. keygen_main sample_secp_env sample_relic strict_secp sample_hex (\<lambda>s i. s + i) sample_rnd ''bls'' 1 = Inr ls \<and>
     (\<exists>e. app_main sample_secp_env strict_secp outer_conf (\<lambda>d. Inr (of_nat (length d))) 0 0 (0, 0) 0
       (sample_opts\<lparr>op_replicas := [''h:1;20,'' @ fst (ls ! 0) @ '',c''], op_privkey := snd (ls ! 0)\<rparr>) = Inl e)"
proof -
  have raw: "raw_stream sample_secp_env" by (simp add: raw_stream_def sample_env_def)
  have str: "stream_laws sample_secp_env" by (simp add: secp_env_laws)
  have hex: "\<forall>d. cf_from_hex outer_conf (sample_hex d) = Inr d" using sample_hex_read by (simp add: outer_conf_def)
  obtain ls where l: "keygen_lines sample_hex (bls_rand sample_relic ((\<lambda>s i. s + i) 5)) (privkey_get_pubkey sample_relic)
      (pubkey_serialize sample_secp_env sample_relic) (privkey_serialize sample_secp_env sample_relic) 0 (nat 1) = Inr ls"
    using bls_key.lines_total [OF bls_rand_total [OF sample_codec_laws(3) sample_bls_laws]] by blast
  then have ls: "keygen_main sample_secp_env sample_relic strict_secp sample_hex (\<lambda>s i. s + i) sample_rnd ''bls'' 1 = Inr ls"
    by (simp add: keygen_main_def)
  let ?op = "sample_opts\<lparr>op_replicas := [''h:1;20,'' @ fst (ls ! 0) @ '',c''], op_privkey := snd (ls ! 0)\<rparr>"
  have op: "length (op_replicas ?op) \<le> 2 ^ 16" "nat (op_idx ?op) < length ls"
    "parse_replica outer_conf (op_replicas ?op ! nat (op_idx ?op)) = Inr (''h:1;20'', fst (ls ! nat (op_idx ?op)), ''c'')"
    using bls_key.lines_length [OF l] outer_parse by (simp_all add: sample_opts_def)
  show ?thesis
    using bls_keys_rejected [OF strict_secp_laws(2) str raw sample_codec_laws(3) sample_bls_laws sample_codec_laws(1) hex ls op] ls by blast
qed

end
