(* ===== verification/Hs_Handle.thy ===== *)
theory Hs_Handle
  imports Hs_Prelude "HOL-Library.Multiset"
begin

text \<open>
  The handles of promises (\<open>promise_t\<close> of \<^verbatim>\<open>include/hotstuff/promise.hpp\<close>): a pointer to
  a \<open>Promise\<close> and a pointer to the number of handles that share it. Constructors, assignments and
  the destructor keep the number; the last handle deletes both objects.

  The heap holds the live \<open>Promise\<close> objects and the live counts. \<open>new\<close> may return any address
  that is not in use, also one that was freed before. \<open>None\<close> is undefined behaviour: an access to an object that
  was deleted, or through a null pointer. Handles captured in callbacks are variables like all others.
\<close>

section \<open>Handles\<close>

record handle =
  pm :: "nat option"
  ref_cnt :: nat

record memory =
  live :: "nat set"
  cnts :: "nat \<rightharpoonup> u64"

definition promise_new :: "nat \<Rightarrow> nat \<Rightarrow> memory \<Rightarrow> handle \<times> memory" where
  "promise_new a c m = (\<lparr>pm = Some a, ref_cnt = c\<rparr>, m\<lparr>live := insert a (live m), cnts := (cnts m)(c \<mapsto> 1)\<rparr>)"

definition promise_copy :: "handle \<Rightarrow> memory \<Rightarrow> (handle \<times> memory) option" where
  "promise_copy other m =
     (case cnts m (ref_cnt other) of
        None \<Rightarrow> None
      | Some n \<Rightarrow> Some (other, m\<lparr>cnts := (cnts m)(ref_cnt other \<mapsto> n + 1)\<rparr>))"

text \<open>The new handle, and what is left of the other.\<close>

definition promise_move :: "handle \<Rightarrow> handle \<times> handle" where
  "promise_move other = (other, other\<lparr>pm := None\<rparr>)"

definition promise_swap :: "handle \<Rightarrow> handle \<Rightarrow> handle \<times> handle" where
  "promise_swap this other = (other, this)"

definition promise_delete :: "handle \<Rightarrow> memory \<Rightarrow> memory option" where
  "promise_delete this m =
     (case pm this of
        None \<Rightarrow> Some m
      | Some a \<Rightarrow>
          (case cnts m (ref_cnt this) of
             None \<Rightarrow> None
           | Some n \<Rightarrow>
               if n - 1 \<noteq> 0 then Some (m\<lparr>cnts := (cnts m)(ref_cnt this \<mapsto> n - 1)\<rparr>)
               else if a \<notin> live m then None
               else Some (m\<lparr>live := live m - {a}, cnts := (cnts m)(ref_cnt this := None)\<rparr>)))"

text \<open>The two assignments, for different objects: a temporary, a swap, the end of the temporary.\<close>

definition promise_assign :: "handle \<Rightarrow> handle \<Rightarrow> memory \<Rightarrow> (handle \<times> memory) option" where
  "promise_assign this other m =
     (case promise_copy other m of
        None \<Rightarrow> None
      | Some (tmp, m) \<Rightarrow>
          let (tmp, this) = promise_swap tmp this in
          (case promise_delete tmp m of None \<Rightarrow> None | Some m \<Rightarrow> Some (this, m)))"

definition promise_assign_move :: "handle \<Rightarrow> handle \<Rightarrow> memory \<Rightarrow> (handle \<times> handle \<times> memory) option" where
  "promise_assign_move this other m =
     (let (tmp, other) = promise_move other; (tmp, this) = promise_swap tmp this in
      (case promise_delete tmp m of None \<Rightarrow> None | Some m \<Rightarrow> Some (this, other, m)))"

text \<open>\<open>operator->\<close> followed by an access.\<close>

definition promise_access :: "handle \<Rightarrow> memory \<Rightarrow> bool" where
  "promise_access this m \<longleftrightarrow> (case pm this of None \<Rightarrow> False | Some a \<Rightarrow> a \<in> live m)"

section \<open>Programs\<close>

record hstate =
  vars :: "nat \<rightharpoonup> handle"
  hmem :: memory

datatype hop =
    New nat nat nat       \<comment> \<open>a variable, and the addresses that \<open>new\<close> returns\<close>
  | Copy nat nat
  | Move nat nat
  | Assign nat nat
  | AssignMove nat nat
  | Destroy nat
  | Access nat

fun hexec :: "hop \<Rightarrow> hstate \<Rightarrow> hstate option" where
  "hexec (New v a c) s = (let (h, m) = promise_new a c (hmem s) in Some \<lparr>vars = (vars s)(v \<mapsto> h), hmem = m\<rparr>)"
| "hexec (Copy v w) s =
     (case promise_copy (the (vars s w)) (hmem s) of
        None \<Rightarrow> None | Some (h, m) \<Rightarrow> Some \<lparr>vars = (vars s)(v \<mapsto> h), hmem = m\<rparr>)"
| "hexec (Move v w) s = (let (h, k) = promise_move (the (vars s w)) in Some (s\<lparr>vars := (vars s)(w \<mapsto> k, v \<mapsto> h)\<rparr>))"
| "hexec (Assign v w) s =
     (if v = w then Some s
      else case promise_assign (the (vars s v)) (the (vars s w)) (hmem s) of
        None \<Rightarrow> None | Some (h, m) \<Rightarrow> Some \<lparr>vars = (vars s)(v \<mapsto> h), hmem = m\<rparr>)"
| "hexec (AssignMove v w) s =
     (if v = w then Some s
      else case promise_assign_move (the (vars s v)) (the (vars s w)) (hmem s) of
        None \<Rightarrow> None | Some (h, k, m) \<Rightarrow> Some \<lparr>vars = (vars s)(w \<mapsto> k, v \<mapsto> h), hmem = m\<rparr>)"
| "hexec (Destroy v) s =
     (case promise_delete (the (vars s v)) (hmem s) of
        None \<Rightarrow> None | Some m \<Rightarrow> Some \<lparr>vars = (vars s)(v := None), hmem = m\<rparr>)"
| "hexec (Access v) s = (if promise_access (the (vars s v)) (hmem s) then Some s else None)"

fun hrun :: "hop list \<Rightarrow> hstate \<Rightarrow> hstate option" where
  "hrun [] s = Some s"
| "hrun (x # xs) s = (case hexec x s of None \<Rightarrow> None | Some s' \<Rightarrow> hrun xs s')"

definition hinit :: hstate where
  "hinit = \<lparr>vars = Map.empty, hmem = \<lparr>live = {}, cnts = Map.empty\<rparr>\<rparr>"

text \<open>What the language and the allocator guarantee (a variable is constructed once and destroyed once, fresh objects are not
  in use), and the rule for the program: a handle that was moved from is neither copied nor accessed. Fewer than
  \<open>2 ^ 64 - 1\<close> variables fit into memory.\<close>

definition handle_of :: "hstate \<Rightarrow> nat \<Rightarrow> bool" where
  "handle_of s v \<longleftrightarrow> (case vars s v of None \<Rightarrow> False | Some h \<Rightarrow> pm h \<noteq> None)"

fun hop_ok :: "hop \<Rightarrow> hstate \<Rightarrow> bool" where
  "hop_ok (New v a c) s \<longleftrightarrow> vars s v = None \<and> a \<notin> live (hmem s) \<and> cnts (hmem s) c = None"
| "hop_ok (Copy v w) s \<longleftrightarrow> vars s v = None \<and> handle_of s w"
| "hop_ok (Move v w) s \<longleftrightarrow> vars s v = None \<and> vars s w \<noteq> None"
| "hop_ok (Assign v w) s \<longleftrightarrow> vars s v \<noteq> None \<and> handle_of s w"
| "hop_ok (AssignMove v w) s \<longleftrightarrow> vars s v \<noteq> None \<and> vars s w \<noteq> None"
| "hop_ok (Destroy v) s \<longleftrightarrow> vars s v \<noteq> None"
| "hop_ok (Access v) s \<longleftrightarrow> handle_of s v"

fun hops_ok :: "hop list \<Rightarrow> hstate \<Rightarrow> bool" where
  "hops_ok [] s \<longleftrightarrow> card (dom (vars s)) + 1 < 2 ^ 64"
| "hops_ok (x # xs) s \<longleftrightarrow> card (dom (vars s)) + 1 < 2 ^ 64 \<and> hop_ok x s \<and>
     (case hexec x s of None \<Rightarrow> True | Some s' \<Rightarrow> hops_ok xs s')"

section \<open>Counted references\<close>

text \<open>The references that variables and temporaries hold, as a multiset of pairs of addresses.\<close>

definition href :: "handle \<Rightarrow> (nat \<times> nat) multiset" where
  "href h = (case pm h of None \<Rightarrow> {#} | Some a \<Rightarrow> {#(a, ref_cnt h)#})"

definition hrefs :: "(nat \<rightharpoonup> handle) \<Rightarrow> (nat \<times> nat) multiset" where
  "hrefs vs = (\<Sum>v \<in> dom vs. href (the (vs v)))"

definition counted :: "(nat \<times> nat) multiset \<Rightarrow> memory \<Rightarrow> bool" where
  "counted H m \<longleftrightarrow> live m = fst ` set_mset H \<and> dom (cnts m) = snd ` set_mset H \<and>
     inj_on fst (set_mset H) \<and> inj_on snd (set_mset H) \<and> (\<forall>p \<in># H. cnts m (snd p) = Some (of_nat (count H p)))"

lemma href_simps [simp]: "href \<lparr>pm = Some a, ref_cnt = c\<rparr> = {#(a, c)#}" "href (h\<lparr>pm := None\<rparr>) = {#}"
  "pm h = Some a \<Longrightarrow> href h = {#(a, ref_cnt h)#}" "pm h = None \<Longrightarrow> href h = {#}"
  by (simp_all add: href_def)

lemma size_href: "size (href h) \<le> 1"
  by (simp add: href_def split: option.split)

lemma hrefs_upd:
  assumes "finite (dom vs)"
  shows "hrefs (vs(v \<mapsto> h)) = hrefs (vs(v := None)) + href h"
proof -
  let ?g = "\<lambda>x. href (the ((vs(v \<mapsto> h)) x))"
  have "hrefs (vs(v \<mapsto> h)) = ?g v + sum ?g (dom (vs(v \<mapsto> h)) - {v})"
    unfolding hrefs_def using assms by (intro sum.remove) auto
  moreover have "sum ?g (dom (vs(v \<mapsto> h)) - {v}) = hrefs (vs(v := None))"
    unfolding hrefs_def by (rule sum.cong) auto
  ultimately show ?thesis by simp
qed

lemma hrefs_split: "finite (dom vs) \<Longrightarrow> vs v = Some h \<Longrightarrow> hrefs vs = hrefs (vs(v := None)) + href h"
  using hrefs_upd [of vs v h] by (simp add: fun_upd_idem)

lemma size_hrefs: "finite (dom vs) \<Longrightarrow> size (hrefs vs) \<le> card (dom vs)"
  unfolding hrefs_def size_multiset_sum using sum_bounded_above [of "dom vs" "\<lambda>v. size (href (the (vs v)))" 1] size_href by simp

lemma counted_new:
  assumes "counted H m" "a \<notin> live m" "cnts m c = None"
  shows "counted (H + {#(a, c)#}) (snd (promise_new a c m))"
proof -
  have n: "a \<notin> fst ` set_mset H" "c \<notin> snd ` set_mset H" using assms by (auto simp: counted_def domIff)
  then have "(a, c) \<notin># H" by force
  then show ?thesis using assms(1) n by (auto simp: counted_def promise_new_def not_in_iff domIff split: if_splits)
qed

lemma counted_copy:
  assumes "counted H m" "pm h = Some a" "(a, ref_cnt h) \<in># H"
  shows "\<exists>m'. promise_copy h m = Some (h, m') \<and> counted (H + href h) m'"
proof -
  let ?p = "(a, ref_cnt h)"
  have c: "cnts m (ref_cnt h) = Some (of_nat (count H ?p))" using assms(1,3) by (force simp: counted_def)
  have same: "q \<in># H \<Longrightarrow> snd q = ref_cnt h \<longleftrightarrow> q = ?p" for q
    using assms(1,3) inj_on_eq_iff [of snd "set_mset H" q ?p] by (simp add: counted_def)
  have "set_mset (H + href h) = set_mset H" using assms(2,3) by (simp add: insert_absorb)
  then have "counted (H + href h) (m\<lparr>cnts := (cnts m)(ref_cnt h \<mapsto> of_nat (count H ?p) + 1)\<rparr>)"
    using assms same image_eqI [of "ref_cnt h" snd ?p "set_mset H"] by (auto simp: counted_def domIff split: if_splits)
  then show ?thesis using c by (simp add: promise_copy_def)
qed

lemma counted_delete:
  assumes "counted (H + href h) m" "size (H + href h) < 2 ^ 64"
  shows "\<exists>m'. promise_delete h m = Some m' \<and> counted H m'"
proof (cases "pm h")
  case (Some a)
  let ?p = "(a, ref_cnt h)"
  have H: "H + href h = add_mset ?p H" using Some by simp
  have inj: "inj_on fst (insert ?p (set_mset H))" "inj_on snd (insert ?p (set_mset H))" and lv: "live m = insert a (fst ` set_mset H)"
    and dm: "dom (cnts m) = insert (ref_cnt h) (snd ` set_mset H)"
    and ct: "\<forall>q \<in># add_mset ?p H. cnts m (snd q) = Some (of_nat (count (add_mset ?p H) q))"
    using assms(1) unfolding H counted_def by simp_all
  have c: "cnts m (ref_cnt h) = Some (of_nat (count H ?p) + 1)" using bspec [OF ct, of ?p] by (simp add: add.commute)
  have same: "q \<in># H \<Longrightarrow> snd q = ref_cnt h \<longleftrightarrow> q = ?p" "q \<in># H \<Longrightarrow> fst q = a \<longleftrightarrow> q = ?p" for q
    using inj_on_eq_iff [OF inj(1), of q ?p] inj_on_eq_iff [OF inj(2), of q ?p] by simp_all
  have "count H ?p < 2 ^ 64" using assms(2) count_le_size [of H ?p] by simp
  then have z: "(of_nat (count H ?p) :: u64) = 0 \<longleftrightarrow> ?p \<notin># H"
    by (auto simp: word_of_nat_eq_0_iff not_in_iff dest: dvd_imp_le)
  have injH: "inj_on fst (set_mset H)" "inj_on snd (set_mset H)" using inj by (simp_all add: inj_on_insert)
  show ?thesis
  proof (cases "?p \<in># H")
    case True
    then have "a \<in> fst ` set_mset H" "ref_cnt h \<in> snd ` set_mset H" by (auto intro: rev_image_eqI)
    then have "counted H (m\<lparr>cnts := (cnts m)(ref_cnt h \<mapsto> of_nat (count H ?p))\<rparr>)"
      using lv dm injH same ct True unfolding counted_def by (auto simp: insert_absorb)
    then show ?thesis using Some c z True by (simp add: promise_delete_def)
  next
    case False
    then have "a \<notin> fst ` set_mset H" "ref_cnt h \<notin> snd ` set_mset H" using same by (metis imageE)+
    then have "counted H (m\<lparr>live := live m - {a}, cnts := (cnts m)(ref_cnt h := None)\<rparr>)"
      using lv dm injH same ct False unfolding counted_def by auto
    then show ?thesis using Some c z False lv by (simp add: promise_delete_def)
  qed
qed (use assms in \<open>simp add: promise_delete_def\<close>)

section \<open>The invariant\<close>

definition hinv :: "hstate \<Rightarrow> bool" where
  "hinv s \<longleftrightarrow> finite (dom (vars s)) \<and> counted (hrefs (vars s)) (hmem s)"

lemma handle_ofE:
  assumes "handle_of s v" "hinv s"
  obtains h a where "vars s v = Some h" "pm h = Some a" "(a, ref_cnt h) \<in># hrefs (vars s)" "a \<in> live (hmem s)"
proof -
  from assms(1) obtain h a where h: "vars s v = Some h" "pm h = Some a" by (auto simp: handle_of_def split: option.splits)
  then have i: "(a, ref_cnt h) \<in># hrefs (vars s)" using assms(2) hrefs_split [of "vars s" v h] by (simp add: hinv_def)
  then have "a \<in> live (hmem s)" using assms(2) by (force simp: hinv_def counted_def)
  then show ?thesis using that h i by blast
qed

text \<open>After the work on the memory, the references are those of the other variables, and what \<open>v\<close> now holds.\<close>

lemma hinv_upd:
  assumes "finite (dom vs)" "counted (hrefs (vs(v := None)) + href h) m"
  shows "hinv \<lparr>vars = vs(v \<mapsto> h), hmem = m\<rparr>"
  using assms hrefs_upd [OF assms(1)] by (simp add: hinv_def)

lemma move_refs:
  assumes "finite (dom vs)" "vs w = Some h" "v \<noteq> w"
  shows "hrefs (vs(w \<mapsto> h\<lparr>pm := None\<rparr>, v \<mapsto> h)) = hrefs (vs(v := None))"
proof -
  let ?vs = "vs(v := None)" and ?k = "h\<lparr>pm := None\<rparr>"
  have "hrefs (vs(w \<mapsto> ?k, v \<mapsto> h)) = hrefs (vs(w \<mapsto> ?k, v := None)) + href h"
    using assms(1) by (intro hrefs_upd) simp
  also have "vs(w \<mapsto> ?k, v := None) = ?vs(w \<mapsto> ?k)" using assms(3) by (simp add: fun_upd_twist)
  also have "hrefs (?vs(w \<mapsto> ?k)) = hrefs (?vs(w := None)) + href ?k" using assms(1) by (intro hrefs_upd) simp
  also have "hrefs (?vs(w := None)) + href ?k + href h = hrefs ?vs"
    using hrefs_split [of ?vs w h] assms by simp
  finally show ?thesis .
qed

lemma hexec_ok:
  assumes "hinv s" "card (dom (vars s)) + 1 < 2 ^ 64" "hop_ok x s"
  shows "\<exists>s'. hexec x s = Some s' \<and> hinv s'"
proof -
  have f: "finite (dom (vars s))" and c: "counted (hrefs (vars s)) (hmem s)" using assms(1) by (simp_all add: hinv_def)
  have sz: "size (hrefs (vars s)) + 1 < 2 ^ 64" using size_hrefs [OF f] assms(2) by linarith
  show ?thesis
  proof (cases x)
    case (New v a d)
    then have "counted (hrefs ((vars s)(v := None)) + {#(a, d)#}) (snd (promise_new a d (hmem s)))"
      using counted_new [OF c, of a d] assms(3) by (simp add: fun_upd_idem)
    then show ?thesis using New hinv_upd [OF f, of v "\<lparr>pm = Some a, ref_cnt = d\<rparr>"] by (simp add: promise_new_def)
  next
    case (Copy v w)
    then obtain h a where h: "vars s w = Some h" "pm h = Some a" "(a, ref_cnt h) \<in># hrefs (vars s)" "vars s v = None"
      using handle_ofE [OF _ assms(1)] assms(3) by (metis hop_ok.simps(2))
    obtain m' where "promise_copy h (hmem s) = Some (h, m')" "counted (hrefs (vars s) + href h) m'" using counted_copy [OF c h(2,3)] by blast
    then show ?thesis using Copy h hinv_upd [OF f, of v h m'] by (simp add: fun_upd_idem)
  next
    case (Move v w)
    then obtain h where h: "vars s w = Some h" "vars s v = None" using assms(3) by auto
    then have "v \<noteq> w" by auto
    then show ?thesis using Move h c f move_refs [OF f h(1)] by (simp add: promise_move_def hinv_def fun_upd_idem)
  next
    case (Assign v w)
    then obtain h a k where h: "vars s w = Some h" "pm h = Some a" "(a, ref_cnt h) \<in># hrefs (vars s)" "vars s v = Some k"
      using handle_ofE [OF _ assms(1)] assms(3) by (metis hop_ok.simps(4) not_None_eq)
    obtain m' where m': "promise_copy h (hmem s) = Some (h, m')" "counted (hrefs (vars s) + href h) m'" using counted_copy [OF c h(2,3)] by blast
    have "size (hrefs ((vars s)(v := None)) + href h + href k) < 2 ^ 64"
      using sz size_href [of h] by (simp add: hrefs_split [OF f h(4)])
    moreover have "counted (hrefs ((vars s)(v := None)) + href h + href k) m'"
      using m'(2) by (simp add: hrefs_split [OF f h(4)] ac_simps)
    ultimately obtain m'' where "promise_delete k m' = Some m''" "counted (hrefs ((vars s)(v := None)) + href h) m''"
      using counted_delete by blast
    then show ?thesis using Assign h m' hinv_upd [OF f, of v h m''] assms(1) by (simp add: promise_assign_def promise_swap_def)
  next
    case (AssignMove v w)
    then obtain h k where h: "vars s w = Some h" "vars s v = Some k" using assms(3) by auto
    have "counted (hrefs ((vars s)(v := None)) + href k) (hmem s)" "size (hrefs ((vars s)(v := None)) + href k) < 2 ^ 64"
      using c sz by (simp_all add: hrefs_split [OF f h(2)])
    then obtain m' where m': "promise_delete k (hmem s) = Some m'" "counted (hrefs ((vars s)(v := None))) m'" using counted_delete by blast
    then show ?thesis using AssignMove h f move_refs [OF f h(1), of v] assms(1)
      by (simp add: promise_assign_move_def promise_move_def promise_swap_def hinv_def)
  next
    case (Destroy v)
    then obtain k where h: "vars s v = Some k" using assms(3) by auto
    have "counted (hrefs ((vars s)(v := None)) + href k) (hmem s)" "size (hrefs ((vars s)(v := None)) + href k) < 2 ^ 64"
      using c sz by (simp_all add: hrefs_split [OF f h])
    then obtain m' where "promise_delete k (hmem s) = Some m'" "counted (hrefs ((vars s)(v := None))) m'" using counted_delete by blast
    then show ?thesis using Destroy h f by (simp add: hinv_def)
  next
    case (Access v)
    then obtain h a where "vars s v = Some h" "pm h = Some a" "a \<in> live (hmem s)"
      using handle_ofE [OF _ assms(1), of v] assms(3) by (metis hop_ok.simps(7))
    then show ?thesis using Access assms(1) by (simp add: promise_access_def)
  qed
qed

lemma hrun_ok: "hinv s \<Longrightarrow> hops_ok xs s \<Longrightarrow> \<exists>s'. hrun xs s = Some s' \<and> hinv s'"
proof (induction xs arbitrary: s)
  case (Cons x xs)
  then obtain s' where "hexec x s = Some s'" "hinv s'" using hexec_ok [of s x] by auto
  then show ?case using Cons by simp
qed simp

section \<open>Replacing a waiting promise\<close>

text \<open>How the core wakes the ones that wait for a proposal or a new highest certificate: the member \<open>w\<close> is moved to a
  local \<open>t\<close>, a new promise is assigned to the member through a temporary, and \<open>t\<close> is resolved and ends.\<close>

definition wake_waiting :: "nat \<Rightarrow> nat \<Rightarrow> nat \<Rightarrow> nat \<Rightarrow> nat \<Rightarrow> hop list" where
  "wake_waiting w t tmp a c = [Move t w, New tmp a c, AssignMove w tmp, Destroy tmp, Access t, Destroy t]"

lemma wake_waiting_ok:
  assumes "hinv s" "handle_of s w" "vars s t = None" "vars s tmp = None" "t \<noteq> tmp" "a \<notin> live (hmem s)" "cnts (hmem s) c = None"
    and "card (dom (vars s)) + 3 < 2 ^ 64"
  shows "\<exists>s'. hrun (wake_waiting w t tmp a c) s = Some s' \<and> hinv s' \<and> vars s' = (vars s)(w \<mapsto> \<lparr>pm = Some a, ref_cnt = c\<rparr>)"
proof -
  have f: "finite (dom (vars s))" using assms(1) by (simp add: hinv_def)
  obtain h x where h: "vars s w = Some h" "pm h = Some x" "x \<in> live (hmem s)" using handle_ofE [OF assms(2,1)] by blast
  have d: "w \<noteq> t" "w \<noteq> tmp" using assms(3,4) h(1) by auto
  let ?n = "\<lparr>pm = Some a, ref_cnt = c\<rparr>" and ?m = "(hmem s)\<lparr>live := insert a (live (hmem s)), cnts := (cnts (hmem s))(c \<mapsto> 1)\<rparr>"
  let ?s1 = "s\<lparr>vars := (vars s)(w \<mapsto> h\<lparr>pm := None\<rparr>, t \<mapsto> h)\<rparr>"
  let ?s2 = "\<lparr>vars = (vars ?s1)(tmp \<mapsto> ?n), hmem = ?m\<rparr>"
  let ?s3 = "\<lparr>vars = (vars ?s2)(tmp \<mapsto> ?n\<lparr>pm := None\<rparr>, w \<mapsto> ?n), hmem = ?m\<rparr>"
  let ?s4 = "\<lparr>vars = (vars ?s3)(tmp := None), hmem = ?m\<rparr>"
  have v4: "vars ?s4 = (vars s)(w \<mapsto> ?n, t \<mapsto> h)" using assms(4,5) d by (auto simp: fun_eq_iff)
  have e: "hexec (Move t w) s = Some ?s1" "hexec (New tmp a c) ?s1 = Some ?s2" "hexec (AssignMove w tmp) ?s2 = Some ?s3"
    "hexec (Destroy tmp) ?s3 = Some ?s4" "hexec (Access t) ?s4 = Some ?s4"
    using h assms(5) d by (simp_all add: promise_move_def promise_new_def promise_assign_move_def promise_swap_def promise_delete_def
        promise_access_def)
  have ok: "hop_ok (Move t w) s" "hop_ok (New tmp a c) ?s1" "hop_ok (AssignMove w tmp) ?s2" "hop_ok (Destroy tmp) ?s3" "hop_ok (Access t) ?s4"
    using h assms(3-7) d by (simp_all add: handle_of_def)
  have b: "card (dom (vars ?s1)) + 1 < 2 ^ 64" "card (dom (vars ?s2)) + 1 < 2 ^ 64" "card (dom (vars ?s3)) + 1 < 2 ^ 64"
    "card (dom (vars ?s4)) + 1 < 2 ^ 64"
    using f h(1) assms(3-5,8) d by (simp_all add: domIff card_insert_if insert_absorb)
  have s1: "hinv ?s1" using hexec_ok [OF assms(1) _ ok(1)] e(1) assms(8) by simp
  have s2: "hinv ?s2" using hexec_ok [OF s1 b(1) ok(2)] e(2) by simp
  have s3: "hinv ?s3" using hexec_ok [OF s2 b(2) ok(3)] e(3) by simp
  have s4: "hinv ?s4" using hexec_ok [OF s3 b(3) ok(4)] e(4) by simp
  obtain s5 where s5: "hexec (Destroy t) ?s4 = Some s5" "hinv s5" using hexec_ok [OF s4 b(4), of "Destroy t"] h(1) assms(5) d by auto
  then have "vars s5 = (vars ?s4)(t := None)" by (auto split: option.splits)
  then have "vars s5 = (vars s)(w \<mapsto> ?n)" using v4 assms(3,4) d by (auto simp: fun_eq_iff)
  then show ?thesis using s5 e by (simp add: wake_waiting_def)
qed

section \<open>What the invariant says\<close>

lemma count_hrefs:
  assumes "finite (dom vs)"
  shows "count (hrefs vs) p = card {v. \<exists>h. vs v = Some h \<and> href h = {#p#}}"
proof -
  let ?A = "{v. \<exists>h. vs v = Some h \<and> href h = {#p#}}"
  have "count (hrefs vs) p = (\<Sum>v \<in> dom vs. if v \<in> ?A then 1 else 0)"
    unfolding hrefs_def count_sum by (rule sum.cong) (auto simp: href_def split: option.splits if_splits)
  moreover have "dom vs \<inter> ?A = ?A" by auto
  ultimately show ?thesis using assms by (simp add: sum.If_cases)
qed

lemma hrefs_iff: "finite (dom vs) \<Longrightarrow> p \<in># hrefs vs \<longleftrightarrow> (\<exists>v h. vs v = Some h \<and> pm h = Some (fst p) \<and> ref_cnt h = snd p)"
proof -
  assume f: "finite (dom vs)"
  then have "p \<in># hrefs vs \<longleftrightarrow> (\<exists>v \<in> dom vs. p \<in># href (the (vs v)))" by (simp add: hrefs_def set_mset_sum)
  also have "\<dots> \<longleftrightarrow> (\<exists>v h. vs v = Some h \<and> pm h = Some (fst p) \<and> ref_cnt h = snd p)"
    by (cases p) (auto simp: href_def domIff split: option.splits, force+)
  finally show ?thesis .
qed

lemma hinv_counts:
  assumes "hinv s" "vars s v = Some h" "pm h = Some a"
  shows "cnts (hmem s) (ref_cnt h) = Some (of_nat (card {w. \<exists>k. vars s w = Some k \<and> pm k = Some a}))"
proof -
  let ?p = "(a, ref_cnt h)"
  have f: "finite (dom (vars s))" and c: "counted (hrefs (vars s)) (hmem s)" using assms(1) by (simp_all add: hinv_def)
  have p: "?p \<in># hrefs (vars s)" using assms(2,3) hrefs_iff [OF f, of ?p] by auto
  have same: "href k = {#?p#} \<longleftrightarrow> pm k = Some a" if "vars s w = Some k" for w k
  proof
    assume k: "pm k = Some a"
    then have "(a, ref_cnt k) \<in># hrefs (vars s)" using that hrefs_iff [OF f, of "(a, ref_cnt k)"] by auto
    then have "(a, ref_cnt k) = ?p" using p c inj_onD [of fst "set_mset (hrefs (vars s))" "(a, ref_cnt k)" ?p] by (simp add: counted_def)
    then show "href k = {#?p#}" using k by simp
  qed (auto simp: href_def split: option.splits)
  have "{w. \<exists>k. vars s w = Some k \<and> href k = {#?p#}} = {w. \<exists>k. vars s w = Some k \<and> pm k = Some a}" using same by blast
  then show ?thesis using c p count_hrefs [OF f, of ?p] by (force simp: counted_def)
qed

section \<open>Properties\<close>

text \<open>
  C27: As long as a program neither copies nor accesses a handle that was moved from, its handles are safe: no constructor,
  assignment, access or destructor touches freed memory, a \<open>Promise\<close> is alive exactly while some handle points
  to it, its count is the number of those handles, and nothing is left when all handles are gone.
\<close>

theorem handle_lifetime:
  assumes "hops_ok xs hinit"
  shows "\<exists>s. hrun xs hinit = Some s \<and>
    (\<forall>a. a \<in> live (hmem s) \<longleftrightarrow> (\<exists>v h. vars s v = Some h \<and> pm h = Some a)) \<and>
    (\<forall>v h a. vars s v = Some h \<and> pm h = Some a \<longrightarrow>
       cnts (hmem s) (ref_cnt h) = Some (of_nat (card {w. \<exists>k. vars s w = Some k \<and> pm k = Some a}))) \<and>
    (vars s = Map.empty \<longrightarrow> live (hmem s) = {} \<and> cnts (hmem s) = Map.empty)"
proof -
  have "hinv hinit" by (simp add: hinv_def hinit_def hrefs_def counted_def)
  then obtain s where s: "hrun xs hinit = Some s" "hinv s" using hrun_ok assms by blast
  then have f: "finite (dom (vars s))" and c: "counted (hrefs (vars s)) (hmem s)" by (simp_all add: hinv_def)
  have "a \<in> live (hmem s) \<longleftrightarrow> (\<exists>v h. vars s v = Some h \<and> pm h = Some a)" for a
  proof -
    have "live (hmem s) = fst ` set_mset (hrefs (vars s))" using c by (simp add: counted_def)
    then have "a \<in> live (hmem s) \<longleftrightarrow> (\<exists>d. (a, d) \<in># hrefs (vars s))" by (simp add: image_iff) (metis fst_conv surj_pair)
    then show ?thesis using hrefs_iff [OF f] by auto
  qed
  moreover have "cnts (hmem s) = Map.empty" if "vars s = Map.empty" using that c by (simp add: counted_def hrefs_def)
  ultimately show ?thesis using s hinv_counts [OF s(2)] by (intro exI [of _ s]) auto
qed

theorem handle_lifetime_witness:
  "\<exists>s. hrun [New 0 5 6, Copy 1 0, Move 2 1, New 3 8 9, Assign 3 2, AssignMove 1 0, Access 3, Destroy 2, Destroy 0] hinit = Some s \<and>
     live (hmem s) = {5} \<and> cnts (hmem s) 6 = Some 2 \<and> (\<forall>a. a \<in> live (hmem s) \<longleftrightarrow> (\<exists>v h. vars s v = Some h \<and> pm h = Some a))"
proof -
  let ?xs = "[New 0 5 6, Copy 1 0, Move 2 1, New 3 8 9, Assign 3 2, AssignMove 1 0, Access 3, Destroy 2, Destroy 0]"
  note ev = hinit_def handle_of_def promise_new_def promise_copy_def promise_move_def promise_swap_def promise_delete_def
    promise_assign_def promise_assign_move_def promise_access_def
  have "hops_ok ?xs hinit" by (simp add: ev)
  moreover have "\<exists>s. hrun ?xs hinit = Some s \<and> live (hmem s) = {5} \<and> cnts (hmem s) 6 = Some 2" by (simp add: ev)
  ultimately show ?thesis using handle_lifetime [of ?xs] by force
qed

text \<open>The move constructor clears \<open>pm\<close> and keeps \<open>ref_cnt\<close>, and the copy constructor increments the count whatever \<open>pm\<close>
  is. So a copy of a handle that was moved from writes to a count that may be freed, or leaves a count that never
  reaches zero.\<close>

lemma moved_from_copy:
  "hrun [New 0 5 6, Move 1 0, Destroy 1, Copy 2 0] hinit = None"
  "\<exists>s. hrun [New 0 5 6, Move 1 0, Copy 2 0, Destroy 2, Destroy 1, Destroy 0] hinit = Some s \<and> vars s = Map.empty \<and> live (hmem s) = {5}"
  by (simp_all add: hinit_def promise_new_def promise_copy_def promise_move_def promise_delete_def fun_eq_iff)

end
