(* ===== verification/Hs_Bls_Errors.thy ===== *)
theory Hs_Bls_Errors
  imports Hs_Bls_Props
begin

text \<open>
  The start of the signature library and the error code of relic (\<^verbatim>\<open>bls/src/bls.cpp\<close>), and the operations
  of \<^verbatim>\<open>bls/src/elements.cpp\<close> and \<^verbatim>\<open>bls/src/schemes.cpp\<close> that read it.

  Each thread has a context of relic with an error code, which failing operations of relic set and which stays
  until the library clears it. \<open>Hs_Bls\<close> and \<open>Hs_Schemes\<close> take the code as the flag of the last operation; here it
  is the state that the operations share: \<open>None\<close> before the thread is initialised, \<open>Some e\<close> with \<open>e\<close> true for
  a code other than \<open>RLC_OK\<close>. The result is paired with the state after the operation, also when it throws.
\<close>

section \<open>Start\<close>

type_synonym relic_ctx = "bool option"

datatype allocator = SodiumMalloc | CMalloc

record bls_globals =
  secure_alloc :: "allocator option"
  thread_initializer :: bool

definition SetSecureAllocator :: "allocator \<Rightarrow> bls_globals \<Rightarrow> bls_globals" where
  "SetSecureAllocator a g = g\<lparr>secure_alloc := Some a\<rparr>"

text \<open>\<open>sodium\<close> is \<open>None\<close> in a build without libsodium, otherwise the result of \<open>sodium_init\<close>. The
  code throws strings.\<close>

definition BLS_Init :: "bool \<Rightarrow> int option \<Rightarrow> bls_globals \<Rightarrow> bls_globals res" where
  "BLS_Init alloc_auto sodium g =
     (if \<not> alloc_auto then Inl (RuntimeError ''Must have ALLOC == AUTO'')
      else bind (case sodium of
                   None \<Rightarrow> Inr (SetSecureAllocator CMalloc g)
                 | Some rc \<Rightarrow> if rc < 0 then Inl (RuntimeError ''libsodium init failed'')
                             else Inr (SetSecureAllocator SodiumMalloc g))
             (\<lambda>g. Inr (g\<lparr>thread_initializer := True\<rparr>)))"

text \<open>The code after \<open>core_init\<close>, which \<open>err_get_code\<close> clears, and whether the curve was found.\<close>

definition relic_core_initializer :: "bool \<Rightarrow> bool \<Rightarrow> relic_ctx res" where
  "relic_core_initializer core_failed param_ok =
     (if core_failed then Inl (RuntimeError ''core_init() failed'')
      else if \<not> param_ok then Inl (RuntimeError ''ep_param_set_any_pairf() failed'')
      else Inr (Some False))"

section \<open>Operations with the error code\<close>

definition ctx_bind :: "(relic_ctx \<Rightarrow> 'a res \<times> relic_ctx) \<Rightarrow> ('a \<Rightarrow> relic_ctx \<Rightarrow> 'b res \<times> relic_ctx) \<Rightarrow> relic_ctx \<Rightarrow> 'b res \<times> relic_ctx" where
  "ctx_bind m f c = (case m c of (Inl e, c) \<Rightarrow> (Inl e, c) | (Inr x, c) \<Rightarrow> f x c)"

definition set_code :: "bool \<Rightarrow> relic_ctx \<Rightarrow> relic_ctx" where
  "set_code err c = map_option (\<lambda>e. e \<or> err) c"

definition CheckRelicErrors :: "relic_ctx \<Rightarrow> unit res \<times> relic_ctx" where
  "CheckRelicErrors c =
     (case c of
        None \<Rightarrow> (Inl (RuntimeError ''Library not initialized properly. Call BLS::Init()''), c)
      | Some e \<Rightarrow> if e then (Inl (RuntimeError ''Relic library error''), Some False) else (Inr (), c))"

definition CheckRelicErrorsInvalidArgument :: "relic_ctx \<Rightarrow> unit res \<times> relic_ctx" where
  "CheckRelicErrorsInvalidArgument c =
     (case c of
        None \<Rightarrow> (Inl (RuntimeError ''Library not initialized properly. Call BLS::Init()''), c)
      | Some e \<Rightarrow> if e then (Inl (InvalidArgument ''Relic library error''), Some False) else (Inr (), c))"

definition g1_CheckValid :: "('g1, 'g2, 'gt) relic \<Rightarrow> 'g1 \<Rightarrow> relic_ctx \<Rightarrow> 'g1 res \<times> relic_ctx" where
  "g1_CheckValid R p c =
     (if \<not> g1_is_valid R p then (Inl (InvalidArgument ''Given G1 element failed g1_is_valid check''), c)
      else if g1_mul R p (g_ord R) \<noteq> g1_infty R then (Inl (InvalidArgument ''Given G1 element failed in_subgroup check''), c)
      else case CheckRelicErrorsInvalidArgument c of
             (Inl _, c) \<Rightarrow> (Inl (InvalidArgument ''Relic reports invalid argument given''), c)
           | (Inr _, c) \<Rightarrow> (Inr p, c))"

definition g2_CheckValid :: "('g1, 'g2, 'gt) relic \<Rightarrow> 'g2 \<Rightarrow> relic_ctx \<Rightarrow> 'g2 res \<times> relic_ctx" where
  "g2_CheckValid R q c =
     (if \<not> g2_is_valid R q then (Inl (InvalidArgument ''Given G2 element failed g2_is_valid check''), c)
      else if g2_mul R q (g_ord R) \<noteq> g2_infty R then (Inl (InvalidArgument ''Given G2 element failed in_subgroup check''), c)
      else case CheckRelicErrorsInvalidArgument c of
             (Inl _, c) \<Rightarrow> (Inl (InvalidArgument ''Relic reports invalid argument given''), c)
           | (Inr _, c) \<Rightarrow> (Inr q, c))"

definition g1_FromBytes :: "('g1, 'g2, 'gt) relic \<Rightarrow> bytes \<Rightarrow> relic_ctx \<Rightarrow> 'g1 res \<times> relic_ctx" where
  "g1_FromBytes R bs c =
     (if length bs < G1_SIZE then (Inl OutOfRange, c)
      else let top = bs ! 0; rest = take (G1_SIZE - 1) (drop 1 bs) in
      if top AND 0xc0 = 0xc0 then
        if top \<noteq> 0xc0 \<or> \<not> list_all (\<lambda>b. b = 0) rest
        then (Inl (InvalidArgument ''Given G1 infinity element must be canonical''), c)
        else (Inr (g1_infty R), c)
      else if top AND 0xc0 \<noteq> 0x80
      then (Inl (InvalidArgument ''Given G1 non-infinity element must start with 0b10''), c)
      else
        let tag = (if top AND 0x20 \<noteq> 0 then 0x03 else 0x02);
            (p, err) = g1_read_bin R (tag # (top AND 0x1f) # rest) in
        g1_CheckValid R p (set_code err c))"

definition g2_FromBytes :: "('g1, 'g2, 'gt) relic \<Rightarrow> bytes \<Rightarrow> relic_ctx \<Rightarrow> 'g2 res \<times> relic_ctx" where
  "g2_FromBytes R bs c =
     (if length bs < G2_SIZE then (Inl OutOfRange, c)
      else let top = bs ! 0; rest = take (G2_SIZE - 1) (drop 1 bs);
          low = take 48 (drop 48 bs); high = take 47 (drop 1 bs) in
      if bs ! 48 AND 0xe0 \<noteq> 0
      then (Inl (InvalidArgument ''Given G2 element must always have 48th byte start with 0b000''), c)
      else if top AND 0xc0 = 0xc0 then
        if top \<noteq> 0xc0 \<or> \<not> list_all (\<lambda>b. b = 0) rest
        then (Inl (InvalidArgument ''Given G2 infinity element must be canonical''), c)
        else (Inr (g2_infty R), c)
      else if top AND 0xc0 \<noteq> 0x80
      then (Inl (InvalidArgument ''G2 non-inf element must have 0th byte start with 0b10''), c)
      else
        let tag = (if top AND 0x20 \<noteq> 0 then 0x03 else 0x02);
            (q, err) = g2_read_bin R (tag # low @ (top AND 0x1f) # high) in
        g2_CheckValid R q (set_code err c))"

definition gt_FromBytes :: "('g1, 'g2, 'gt) relic \<Rightarrow> bytes \<Rightarrow> relic_ctx \<Rightarrow> 'gt res \<times> relic_ctx" where
  "gt_FromBytes R bs c =
     (if length bs < 384 then (Inl OutOfRange, c)
      else let (r, err) = gt_read_bin R (take 384 bs); c = set_code err c in
      if \<not> gt_is_valid R r then (Inl (InvalidArgument ''GTElement is invalid''), c)
      else ctx_bind CheckRelicErrorsInvalidArgument (\<lambda>_ c. (Inr r, c)) c)"

definition NativeVerify_ctx :: "('g1, 'g2, 'gt) relic \<Rightarrow> ('g1 \<times> 'g2) list \<Rightarrow> relic_ctx \<Rightarrow> bool res \<times> relic_ctx" where
  "NativeVerify_ctx R ps c =
     (case c of
        None \<Rightarrow> (Inl NullDeref, c)
      | Some e \<Rightarrow>
          let (candidate, err) = native_loop R ps (gt_unity R) e in
          if gt_unity R \<noteq> candidate \<or> err then (Inr False, Some False)
          else ctx_bind CheckRelicErrors (\<lambda>_ c. (Inr True, c)) (Some err))"

definition Core_Verify_ctx ::
  "('g1, 'g2, 'gt) relic \<Rightarrow> 'g1 \<Rightarrow> bytes \<Rightarrow> 'g2 \<Rightarrow> bytes \<Rightarrow> relic_ctx \<Rightarrow> bool res \<times> relic_ctx" where
  "Core_Verify_ctx R pubkey msg sig dst =
     ctx_bind (ctx_bind (g1_CheckValid R (g1_gen R)) (\<lambda>g. g1_CheckValid R (g1_neg R g))) (\<lambda>genneg.
     ctx_bind (g2_CheckValid R (ep2_map_dst R msg dst)) (\<lambda>hashedPoint.
       NativeVerify_ctx R [(genneg, sig), (pubkey, hashedPoint)]))"

section \<open>A clean error code\<close>

lemma check_code [simp]:
  "CheckRelicErrorsInvalidArgument (Some False) = (Inr (), Some False)" "CheckRelicErrors (Some False) = (Inr (), Some False)"
  "CheckRelicErrorsInvalidArgument (Some True) = (Inl (InvalidArgument ''Relic library error''), Some False)"
  "CheckRelicErrors (Some True) = (Inl (RuntimeError ''Relic library error''), Some False)"
  by (simp_all add: CheckRelicErrorsInvalidArgument_def CheckRelicErrors_def)

lemma set_code_simps [simp]: "set_code err (Some e) = Some (e \<or> err)" "set_code err None = None"
  by (simp_all add: set_code_def)

lemma check_valid_code:
  "fst (g1_CheckValid R p (Some e)) = g1_check_valid R e p" "fst (g2_CheckValid R q (Some e)) = g2_check_valid R e q"
  by (cases e; simp add: g1_CheckValid_def g2_CheckValid_def g1_check_valid_def g2_check_valid_def)+

lemma check_valid_clean:
  "g1_CheckValid R p (Some False) = (g1_check_valid R False p, Some False)"
  "g2_CheckValid R q (Some False) = (g2_check_valid R False q, Some False)"
  by (simp_all add: g1_CheckValid_def g2_CheckValid_def g1_check_valid_def g2_check_valid_def)

lemma ctx_bind_clean:
  "m (Some False) = (r, Some False) \<Longrightarrow> (\<And>x. f x (Some False) = (g x, Some False)) \<Longrightarrow>
    ctx_bind m f (Some False) = (bind r g, Some False)"
  by (cases r) (simp_all add: ctx_bind_def)

lemma native_clean: "NativeVerify_ctx R ps (Some False) = (Inr (NativeVerify R ps), Some False)"
  by (auto simp: NativeVerify_ctx_def NativeVerify_def ctx_bind_def Let_def split: prod.split)

lemma set_code_False [simp]: "set_code False c = c"
  by (cases c) simp_all

lemma g2_FromBytes_serialize:
  assumes "g2_codec_laws R" "sub2 R q" "q \<noteq> g2_infty R"
  shows "g2_FromBytes R (g2_serialize R q) c = g2_CheckValid R q c"
proof -
  let ?w = "g2_write_bin R q"
  have len: "length ?w = 97" and tag: "?w ! 0 = 2 \<or> ?w ! 0 = 3" and top: "?w ! 1 AND 0xe0 = 0" "?w ! 49 AND 0xe0 = 0"
    and rd: "g2_read_bin R ?w = (q, False)"
    using assms by (auto simp: g2_codec_laws_def)
  obtain t b r where w: "?w = t # b # r" "length r = 95"
    using len by (auto simp: length_Suc_conv eval_nat_numeral)
  obtain l d h where r: "r = l @ d # h" "length l = 47" "length h = 47"
    using w(2) id_take_nth_drop [of 47 r] by force
  show ?thesis using tag top rd w r byte_tagged [of d] byte_mask [of b] byte_mask [of d]
    by (auto simp: g2_serialize_def g2_FromBytes_def G2_SIZE_def Let_def nth_append)
qed

section \<open>Properties\<close>


text \<open>
  C40: A malformed signature poisons the thread: when relic reports an error for it and the point is not valid,
  \<open>FromBytes\<close> throws before it clears the error code. The next verification on that thread then throws
  whatever the signature is, and so does the next parse of a valid element; only that clears the code.
\<close>

theorem stale_error_code:
  assumes "length bad = G2_SIZE" "bad ! 48 AND 0xe0 = 0" "bad ! 0 AND 0xc0 = 0x80"
    and "g2_read_bin R ((if bad ! 0 AND 0x20 \<noteq> 0 then 0x03 else 0x02) # take 48 (drop 48 bad) @ (bad ! 0 AND 0x1f) # take 47 (drop 1 bad)) = (q, True)"
    and "\<not> g2_is_valid R q" "sub1 R (g1_gen R)" "g2_codec_laws R" "sub2 R s" "s \<noteq> g2_infty R"
  shows "g2_FromBytes R bad (Some False) = (Inl (InvalidArgument ''Given G2 element failed g2_is_valid check''), Some True) \<and>
    (\<forall>pk msg sig dst. Core_Verify_ctx R pk msg sig dst (Some True) =
       (Inl (InvalidArgument ''Relic reports invalid argument given''), Some False)) \<and>
    g2_FromBytes R (g2_serialize R s) (Some True) = (Inl (InvalidArgument ''Relic reports invalid argument given''), Some False) \<and>
    fst (g2_FromBytes R (g2_serialize R s) (Some False)) = Inr s"
proof (intro conjI allI)
  show "g2_FromBytes R bad (Some False) = (Inl (InvalidArgument ''Given G2 element failed g2_is_valid check''), Some True)"
    using assms(1-5) by (simp add: g2_FromBytes_def g2_CheckValid_def Let_def)
  have "g1_CheckValid R (g1_gen R) (Some True) = (Inl (InvalidArgument ''Relic reports invalid argument given''), Some False)"
    using assms(6) by (simp add: g1_CheckValid_def sub1_def)
  then show "Core_Verify_ctx R pk msg sig dst (Some True) = (Inl (InvalidArgument ''Relic reports invalid argument given''), Some False)"
    for pk msg sig dst by (simp add: Core_Verify_ctx_def ctx_bind_def)
  note g = g2_FromBytes_serialize [OF assms(7-9)]
  show "g2_FromBytes R (g2_serialize R s) (Some True) = (Inl (InvalidArgument ''Relic reports invalid argument given''), Some False)"
    using assms(8) by (simp add: g g2_CheckValid_def sub2_def)
  show "fst (g2_FromBytes R (g2_serialize R s) (Some False)) = Inr s"
    using assms(8) by (simp add: g g2_CheckValid_def sub2_def)
qed

text \<open>A library in which the element 255 is not on the curve.\<close>

definition curve_relic :: "(u8, u8, u8) relic" where
  "curve_relic = sample_relic\<lparr>g2_is_valid := \<lambda>q. q \<noteq> 255, g2_read_bin := \<lambda>bs. (last bs, last bs = 255)\<rparr>"

lemma curve_relic_sub: "sub1 curve_relic (g1_gen curve_relic)" "sub2 curve_relic q \<longleftrightarrow> q \<noteq> 255"
  using sample_sub(1) [of "g1_gen sample_relic"] sample_sub(2) [of q] by (auto simp: sub1_def sub2_def curve_relic_def)

lemma curve_relic_codec: "g2_codec_laws curve_relic"
  unfolding g2_codec_laws_def curve_relic_sub
  by (simp add: curve_relic_def) (simp add: sample_relic_def sample_write_def nth_append)

theorem stale_error_code_witness:
  "g2_FromBytes curve_relic (0x80 # replicate 46 0 @ 255 # replicate 48 0) (Some False) =
     (Inl (InvalidArgument ''Given G2 element failed g2_is_valid check''), Some True) \<and>
   g2_FromBytes curve_relic (g2_serialize curve_relic 7) (Some True) =
     (Inl (InvalidArgument ''Relic reports invalid argument given''), Some False) \<and>
   fst (g2_FromBytes curve_relic (g2_serialize curve_relic 7) (Some False)) = Inr 7"
proof -
  let ?bad = "0x80 # replicate 46 0 @ 255 # replicate 48 0 :: bytes"
  have b: "length ?bad = G2_SIZE" "?bad ! 48 AND 0xe0 = 0" "?bad ! 0 AND 0xc0 = 0x80" "\<not> g2_is_valid curve_relic 255"
    by (simp_all add: G2_SIZE_def nth_append curve_relic_def)
  have r: "g2_read_bin curve_relic ((if ?bad ! 0 AND 0x20 \<noteq> 0 then 0x03 else 0x02) # take 48 (drop 48 ?bad) @ (?bad ! 0 AND 0x1f) #
      take 47 (drop 1 ?bad)) = (255, True)" by (simp add: curve_relic_def)
  have s: "sub2 curve_relic 7" "7 \<noteq> g2_infty curve_relic" by (simp_all add: curve_relic_sub) (simp add: curve_relic_def sample_relic_def)
  from stale_error_code [OF b(1-3) r b(4) curve_relic_sub(1) curve_relic_codec s] show ?thesis by blast
qed

end
